(* ===== verification/Prelude.thy ===== *)
theory Prelude
  imports Main "HOL-Library.Word"
begin

text \<open>
  Shared vocabulary of the development: the Go machine types the sources use, Go panics as
  values, the state-and-panic plumbing (\<open>gbind\<close>, \<open>gfold\<close>), checked slice access, and the
  generic lemmas on lists, words and bits that the component theories need.
\<close>

unbundle bit_operations_syntax

section \<open>Go machine types\<close>

text \<open>
  The sources are built for 64-bit targets: \<open>uint\<close>, \<open>uint64\<close>, \<open>int\<close> and \<open>int64\<close> are
  64-bit values whose arithmetic wraps; an \<open>int\<close> is read with \<open>sint\<close>.
\<close>

type_synonym byte = "8 word"
type_synonym uint = "64 word"
type_synonym uint64 = "64 word"
type_synonym goint = "64 word"

section \<open>Panics\<close>

text \<open>
  The run-time panics and fatal errors the sources can raise, and \<open>panic(msg)\<close> itself.
  A computation that may panic returns \<open>go_panic + 'a\<close>.
\<close>

datatype go_panic =
    IndexOutOfRange
  | NilDereference
  | InvalidCount
  | SendOnClosedChannel
  | CloseOfClosedChannel
  | UnlockOfUnlockedMutex
  | NegativeWaitGroup
  | TypeAssertion
  | PanicMessage string

type_synonym 'a go = "go_panic + 'a"

definition gbind :: "'a go \<Rightarrow> ('a \<Rightarrow> 'b go) \<Rightarrow> 'b go" where
  "gbind m f = (case m of Inl p \<Rightarrow> Inl p | Inr x \<Rightarrow> f x)"

lemma gbind_simps [simp]:
  "gbind (Inl p) f = Inl p"
  "gbind (Inr x) f = f x"
  by (simp_all add: gbind_def)

lemma gbind_Inr_iff: "gbind m f = Inr y \<longleftrightarrow> (\<exists>x. m = Inr x \<and> f x = Inr y)"
  by (cases m) auto

lemma gbind_Inl_iff: "gbind m f = Inl p \<longleftrightarrow> m = Inl p \<or> (\<exists>x. m = Inr x \<and> f x = Inl p)"
  by (cases m) auto

text \<open>A counted Go loop whose body may panic: the body is folded over the loop indices.\<close>

fun gfold :: "('s \<Rightarrow> 'x \<Rightarrow> 's go) \<Rightarrow> 's \<Rightarrow> 'x list \<Rightarrow> 's go" where
  "gfold f s [] = Inr s"
| "gfold f s (x # xs) = gbind (f s x) (\<lambda>s'. gfold f s' xs)"

lemma gfold_append: "gfold f s (xs @ ys) = gbind (gfold f s xs) (\<lambda>s'. gfold f s' ys)"
proof (induction xs arbitrary: s)
  case (Cons x xs)
  then show ?case by (cases "f s x") simp_all
qed simp

lemma gfold_map: "gfold f s (map g xs) = gfold (\<lambda>s x. f s (g x)) s xs"
  by (induction xs arbitrary: s) (auto simp: gbind_def split: sum.splits)

text \<open>Total correctness of such a loop from an invariant indexed by what was consumed.\<close>

lemma gfold_invariant:
  assumes "P [] s"
    and "\<And>s ys x zs. P ys s \<Longrightarrow> xs = ys @ x # zs \<Longrightarrow> \<exists>s'. f s x = Inr s' \<and> P (ys @ [x]) s'"
  shows "\<exists>s'. gfold f s xs = Inr s' \<and> P xs s'"
proof -
  have "\<exists>s'. gfold f s ys = Inr s' \<and> P ys s'" if "xs = ys @ zs" for ys zs
    using that
  proof (induction ys arbitrary: zs rule: rev_induct)
    case Nil
    then show ?case using assms(1) by simp
  next
    case (snoc x ys)
    then obtain s1 where s1: "gfold f s ys = Inr s1" "P ys s1" by auto
    with assms(2) [of ys s1 x zs] snoc.prems obtain s2
      where "f s1 x = Inr s2" "P (ys @ [x]) s2" by auto
    with s1 show ?case by (simp add: gfold_append)
  qed
  from this [of xs "[]"] show ?thesis by simp
qed

section \<open>Slices\<close>

text \<open>Reading \<open>xs[i]\<close> and writing \<open>xs[i] = v\<close> panic when \<open>i\<close> is out of range.\<close>

definition go_index :: "'a list \<Rightarrow> uint \<Rightarrow> 'a go" where
  "go_index xs i = (if unat i < length xs then Inr (xs ! unat i) else Inl IndexOutOfRange)"

definition go_update :: "'a list \<Rightarrow> uint \<Rightarrow> 'a \<Rightarrow> 'a list go" where
  "go_update xs i x = (if unat i < length xs then Inr (xs[unat i := x]) else Inl IndexOutOfRange)"

lemma go_index_ok [simp]: "unat i < length xs \<Longrightarrow> go_index xs i = Inr (xs ! unat i)"
  by (simp add: go_index_def)

lemma go_update_ok [simp]: "unat i < length xs \<Longrightarrow> go_update xs i x = Inr (xs[unat i := x])"
  by (simp add: go_update_def)

section \<open>Words\<close>

lemma unat_add_small:
  fixes w :: uint
  assumes "unat w + n < 2 ^ 64"
  shows "unat (w + of_nat n) = unat w + n"
  using assms by (simp add: unat_word_ariths unat_of_nat)

lemma unat_of_nat_small: "n < 2 ^ 64 \<Longrightarrow> unat (of_nat n :: uint) = n"
  by (simp add: unat_of_nat)

lemma unat_Suc_small:
  fixes w :: uint
  shows "unat w + 1 < 2 ^ 64 \<Longrightarrow> unat (w + 1) = unat w + 1"
  using unat_add_small [of w 1] by simp

lemma byte_eq_iff_bits: "(a :: byte) = b \<longleftrightarrow> (\<forall>i<8. bit a i = bit b i)"
proof -
  have "bit c i \<Longrightarrow> i < 8" for c :: byte and i
    using bit_imp_le_length [of c i] by simp
  then show ?thesis by (auto simp: bit_eq_iff)
qed

lemma bit_and_1: "bit (b AND 1 :: byte) i \<longleftrightarrow> i = 0 \<and> bit b 0"
  by (auto simp: bit_simps)

lemma bit_push_of_bool: "bit (push_bit k (of_bool b) :: byte) j \<longleftrightarrow> j = k \<and> k < 8 \<and> b"
  by (auto simp: bit_simps)

lemma ceil_div8: "(n + 7) div 8 = (if n mod 8 = 0 then n div 8 else n div 8 + (1::nat))"
proof -
  have "n + 7 = n mod 8 + 7 + n div 8 * 8" using div_mult_mod_eq [of n 8] by linarith
  then have "(n + 7) div 8 = n div 8 + (n mod 8 + 7) div 8" by (metis div_mult_self1 zero_neq_numeral)
  moreover have "(n mod 8 + 7) div 8 = 1" if "n mod 8 \<noteq> 0"
    using that mod_less_divisor [of 8 n] by (intro div_nat_eqI) auto
  ultimately show ?thesis by simp
qed

section \<open>Lists\<close>

lemma all_less_add: "(\<forall>j<m + n. P j) \<longleftrightarrow> (\<forall>j<m. P j) \<and> (\<forall>j<n. P (m + j))" for m n :: nat
proof safe
  fix j assume "\<forall>j<m. P j" "\<forall>j<n. P (m + j)" "j < m + n"
  then show "P j" by (cases "j < m") (auto dest!: spec [of _ "j - m"])
qed auto

lemma map_upt_Suc_append: "map f [0..<Suc n] = map f [0..<n] @ [f n]"
  by simp

lemma map_upt_cong: "(\<And>i. i < n \<Longrightarrow> f i = g i) \<Longrightarrow> map f [0..<n] = map g [0..<n]"
  by simp

lemma remdups_adj_sorted:
  fixes xs :: "'a::linorder list"
  assumes "sorted xs"
  shows "remdups_adj xs = sorted_list_of_set (set xs)"
proof -
  have "sorted_wrt (<) (remdups_adj xs)"
    using assms
  proof (induction xs rule: remdups_adj.induct)
    case (3 x y xs)
    then show ?case by (cases "x = y") (auto simp: order_le_less)
  qed simp_all
  then show ?thesis
    by (intro sorted_distinct_set_unique) (auto simp: strict_sorted_iff)
qed

section \<open>Transition systems\<close>

text \<open>
  The state machines of the development are an initial-state predicate and a step relation;
  \<open>reachable\<close> is the states some run leads to. A component discharges the two obligations of the
  locale \<open>invariant\<close> once and gets the invariant in every reachable state.
\<close>

definition reachable :: "('s \<Rightarrow> bool) \<Rightarrow> ('s \<Rightarrow> 's \<Rightarrow> bool) \<Rightarrow> 's \<Rightarrow> bool" where
  "reachable init step s \<longleftrightarrow> (\<exists>s0. init s0 \<and> step\<^sup>*\<^sup>* s0 s)"

lemma reachable_init: "init s \<Longrightarrow> reachable init step s"
  by (auto simp: reachable_def)

lemma reachable_step: "reachable init step s \<Longrightarrow> step s t \<Longrightarrow> reachable init step t"
  by (auto simp: reachable_def intro: rtranclp.rtrancl_into_rtrancl)

locale invariant =
  fixes init :: "'s \<Rightarrow> bool" and step :: "'s \<Rightarrow> 's \<Rightarrow> bool" and inv :: "'s \<Rightarrow> bool"
  assumes inv_init: "init s \<Longrightarrow> inv s"
    and inv_step: "inv s \<Longrightarrow> step s t \<Longrightarrow> inv t"
begin

lemma inv_steps: "step\<^sup>*\<^sup>* s t \<Longrightarrow> inv s \<Longrightarrow> inv t"
  by (induction rule: rtranclp_induct) (auto intro: inv_step)

lemma inv_reachable: "reachable init step s \<Longrightarrow> inv s"
  by (auto simp: reachable_def intro: inv_steps inv_init)

end

end
