(* ===== verification/BitVector.thy ===== *)
theory BitVector
  imports Prelude
begin

text \<open>
  The bit vector of \<^verbatim>\<open>src/main/extern/rleplus/internal/bitvector.go\<close>: its
  record, every operation, the abstraction to a list of bits and the contract of each
  operation over it. \<open>bit_sink\<close> and \<open>bit_source\<close> are the interfaces the RLE+ coder uses.
\<close>

section \<open>State and operations\<close>

datatype BitNumbering = LSB0 | MSB0

datatype bv_error = ErrOutOfRange

record BitVector =
  Buf :: "byte list"
  BytePacking :: BitNumbering
  Len :: uint

definition NewBitVector :: "byte list \<Rightarrow> BitNumbering \<Rightarrow> BitVector" where
  "NewBitVector buf bytePacking =
     \<lparr>Buf = buf, BytePacking = bytePacking, Len = of_nat (length buf) * 8\<rparr>"

text \<open>
  \<open>Push\<close> grows the buffer at a byte boundary and then ors the low bit of \<open>val\<close> into the byte
  at \<open>Len / 8\<close>, at the position the byte packing gives.
\<close>

definition Push :: "byte \<Rightarrow> BitVector \<Rightarrow> BitVector go" where
  "Push val v =
     (let buf = (if Len v mod 8 = 0 then Buf v @ [0] else Buf v);
          lastIdx = Len v div 8
      in gbind (go_index buf lastIdx) (\<lambda>b.
         gbind (go_update buf lastIdx
                 (case BytePacking v of
                    LSB0 \<Rightarrow> b OR push_bit (unat (Len v mod 8)) (val AND 1)
                  | MSB0 \<Rightarrow> b OR push_bit (unat (7 - Len v mod 8)) (val AND 1))) (\<lambda>buf'.
         Inr (v\<lparr>Buf := buf', Len := Len v + 1\<rparr>))))"

text \<open>\<open>Get\<close> returns a byte and an error, as the Go function does.\<close>

definition Get :: "uint \<Rightarrow> BitVector \<Rightarrow> (byte \<times> bv_error option) go" where
  "Get idx v =
     (if idx \<ge> Len v then Inr (0, Some ErrOutOfRange)
      else gbind (go_index (Buf v) (idx div 8)) (\<lambda>b.
        case BytePacking v of
          LSB0 \<Rightarrow> Inr (drop_bit (unat (idx mod 8)) b AND 1, None)
        | MSB0 \<Rightarrow> Inr (drop_bit (unat (7 - idx mod 8)) b AND 1, None)))"

definition Extend :: "byte \<Rightarrow> uint \<Rightarrow> BitNumbering \<Rightarrow> BitVector \<Rightarrow> BitVector go" where
  "Extend val count order v =
     (if count > 8 then Inl InvalidCount
      else gfold (\<lambda>v i. case order of
                     LSB0 \<Rightarrow> Push (drop_bit i val AND 1) v
                   | MSB0 \<Rightarrow> Push (drop_bit (7 - i) val AND 1) v)
             v [0..<unat count])"

definition Take :: "uint \<Rightarrow> uint \<Rightarrow> BitNumbering \<Rightarrow> BitVector \<Rightarrow> byte go" where
  "Take index count order v =
     (if count > 8 then Inl InvalidCount
      else gfold (\<lambda>out i. gbind (Get (index + of_nat i) v) (\<lambda>(val, _).
                    Inr (case order of
                           LSB0 \<Rightarrow> out OR push_bit i val
                         | MSB0 \<Rightarrow> out OR push_bit (7 - i) val)))
             0 [0..<unat count])"

text \<open>
  \<open>Iterator\<close> returns a closure over a cursor. The closure is modelled by passing the cursor:
  one call takes the cursor and the count and returns the byte and the next cursor.
\<close>

definition Iterator :: "BitVector \<Rightarrow> BitNumbering \<Rightarrow> uint \<Rightarrow> uint \<Rightarrow> (byte \<times> uint) go" where
  "Iterator v order cursor count =
     (if count > 8 then Inl InvalidCount
      else gbind (Take cursor count order v) (\<lambda>out. Inr (out, cursor + count)))"

section \<open>Abstraction to a list of bits\<close>

definition bit_pos :: "BitNumbering \<Rightarrow> nat \<Rightarrow> nat" where
  "bit_pos p i = (case p of LSB0 \<Rightarrow> i mod 8 | MSB0 \<Rightarrow> 7 - i mod 8)"

definition bit_at :: "BitVector \<Rightarrow> nat \<Rightarrow> bool" where
  "bit_at v i = bit (Buf v ! (i div 8)) (bit_pos (BytePacking v) i)"

definition bits :: "BitVector \<Rightarrow> bool list" where
  "bits v = map (bit_at v) [0..<unat (Len v)]"

text \<open>
  \<open>bv_wf\<close>: the buffer holds every bit that \<open>Len\<close> counts. \<open>bv_inv\<close>: the buffer is exactly long
  enough and the unused bits of its last byte are zero, as \<open>Push\<close> leaves them.
\<close>

definition bv_wf :: "BitVector \<Rightarrow> bool" where
  "bv_wf v \<longleftrightarrow> unat (Len v) \<le> 8 * length (Buf v)"

definition bv_inv :: "BitVector \<Rightarrow> bool" where
  "bv_inv v \<longleftrightarrow> length (Buf v) = (unat (Len v) + 7) div 8 \<and>
     (\<forall>i < 8 * length (Buf v). unat (Len v) \<le> i \<longrightarrow> \<not> bit_at v i)"


definition bv_packed :: "BitNumbering \<Rightarrow> BitVector \<Rightarrow> bool" where
  "bv_packed p v \<longleftrightarrow> bv_inv v \<and> BytePacking v = p"

lemma bv_inv_imp_wf: "bv_inv v \<Longrightarrow> bv_wf v"
  by (auto simp: bv_inv_def bv_wf_def)

lemma length_bits [simp]: "length (bits v) = unat (Len v)"
  by (simp add: bits_def)

lemma bits_nth [simp]: "i < unat (Len v) \<Longrightarrow> bits v ! i = bit_at v i"
  by (simp add: bits_def)

lemma bit_pos_less [simp]: "bit_pos p i < 8"
  by (cases p) (auto simp: bit_pos_def)

lemma bit_pos_inj: "i div 8 = j div 8 \<Longrightarrow> bit_pos p i = bit_pos p j \<longleftrightarrow> i = j"
proof -
  assume d: "i div 8 = j div 8"
  have "i mod 8 = j mod 8 \<longleftrightarrow> i = j"
    using d by (metis div_mult_mod_eq)
  moreover have "7 - i mod 8 = 7 - j mod 8 \<longleftrightarrow> i mod 8 = j mod 8"
    using mod_less_divisor [of 8 i] mod_less_divisor [of 8 j] by linarith
  ultimately show ?thesis by (cases p) (auto simp: bit_pos_def)
qed

lemma unat_word_pos:
  fixes w :: uint
  shows "unat (w mod 8) = unat w mod 8" "unat (7 - w mod 8) = 7 - unat w mod 8"
    "unat (w div 8) = unat w div 8"
proof -
  show m: "unat (w mod 8) = unat w mod 8" by (simp add: unat_mod)
  have "w mod 8 \<le> 7"
    using m mod_less_divisor [of 8 "unat w"] by (simp add: word_le_nat_alt)
  then show "unat (7 - w mod 8) = 7 - unat w mod 8"
    using m by (simp add: unat_sub)
  show "unat (w div 8) = unat w div 8" by (simp add: unat_div)
qed

lemma word_mod8_eq_0: "(w :: uint) mod 8 = 0 \<longleftrightarrow> unat w mod 8 = 0"
  by (simp add: unat_word_pos(1) [symmetric] unat_eq_0)

section \<open>Contracts of the operations\<close>

subsection \<open>Push\<close>

text \<open>
  The buffer \<open>Push\<close> writes into, and the effect of the write in one equation for both packings.
\<close>

definition grown :: "BitVector \<Rightarrow> byte list" where
  "grown v = (if unat (Len v) mod 8 = 0 then Buf v @ [0] else Buf v)"

definition pushed :: "byte \<Rightarrow> BitVector \<Rightarrow> BitVector" where
  "pushed val v =
     (let n = unat (Len v)
      in v\<lparr>Buf := (grown v)[n div 8 := grown v ! (n div 8) OR
                  push_bit (bit_pos (BytePacking v) n) (val AND 1)],
          Len := Len v + 1\<rparr>)"

lemma Push_eq_pushed:
  "Push val v =
     (if unat (Len v) div 8 < length (grown v) then Inr (pushed val v) else Inl IndexOutOfRange)"
  by (cases "BytePacking v")
    (simp_all add: Push_def pushed_def grown_def Let_def go_index_def go_update_def
      unat_word_pos word_mod8_eq_0 bit_pos_def)

lemma pushed_simps [simp]:
  "Len (pushed val v) = Len v + 1" "BytePacking (pushed val v) = BytePacking v"
  "length (Buf (pushed val v)) = length (grown v)"
  by (simp_all add: pushed_def Let_def)

lemma length_grown: "bv_inv v \<Longrightarrow> length (grown v) = unat (Len v) div 8 + 1"
  by (simp add: bv_inv_def grown_def ceil_div8)

lemma bv_inv_bit_at: "bv_inv v \<Longrightarrow> i < 8 * length (Buf v) \<Longrightarrow> bit_at v i \<Longrightarrow> i < unat (Len v)"
  by (auto simp: bv_inv_def not_less [symmetric])

lemma bit_grown:
  assumes "bv_inv v" and "i < 8 * length (grown v)"
  shows "bit (grown v ! (i div 8)) (bit_pos (BytePacking v) i) = (i < unat (Len v) \<and> bit_at v i)"
proof (cases "i div 8 < length (Buf v)")
  case True
  then have "grown v ! (i div 8) = Buf v ! (i div 8)" by (simp add: grown_def nth_append)
  moreover have "i < 8 * length (Buf v)" using True by linarith
  ultimately show ?thesis
    using bv_inv_bit_at [OF assms(1)] by (auto simp: bit_at_def)
next
  case False
  have "\<not> i < unat (Len v)" using False assms(1) by (auto simp: bv_inv_def)
  moreover have "grown v ! (i div 8) = 0"
    using False assms(2) by (auto simp: grown_def nth_append split: if_splits)
  ultimately show ?thesis by simp
qed

lemma bit_at_pushed:
  assumes "bv_inv v" and "i < 8 * length (grown v)"
  shows "bit_at (pushed val v) i =
    (if i = unat (Len v) then bit val 0 else i < unat (Len v) \<and> bit_at v i)"
proof (cases "i div 8 = unat (Len v) div 8")
  case True
  then have "bit_at (pushed val v) i = (bit (grown v ! (i div 8)) (bit_pos (BytePacking v) i) \<or>
      (bit_pos (BytePacking v) i = bit_pos (BytePacking v) (unat (Len v)) \<and> bit val 0))"
    using assms by (auto simp: bit_at_def pushed_def Let_def bit_simps bit_and_1 length_grown)
  then show ?thesis using bit_grown [OF assms] bit_pos_inj [OF True] by auto
next
  case False
  then have "bit_at (pushed val v) i = bit (grown v ! (i div 8)) (bit_pos (BytePacking v) i)"
    by (simp add: bit_at_def pushed_def Let_def)
  then show ?thesis using bit_grown [OF assms] False by auto
qed

lemma Push_step:
  assumes inv: "bv_inv v" and room: "unat (Len v) + 1 < 2 ^ 64"
  obtains v' where "Push val v = Inr v'" "bv_inv v'" "bits v' = bits v @ [bit val 0]"
    "Len v' = Len v + 1" "BytePacking v' = BytePacking v"
proof
  have len: "unat (Len v + 1) = unat (Len v) + 1"
    using unat_Suc_small [OF room] .
  show "Push val v = Inr (pushed val v)"
    using length_grown [OF inv] by (simp add: Push_eq_pushed)
  have "(unat (Len v) + 1 + 7) div 8 = unat (Len v) div 8 + 1" by presburger
  then show "bv_inv (pushed val v)"
    using length_grown [OF inv] bit_at_pushed [OF inv] by (auto simp: bv_inv_def len)
  have "unat (Len v) < 8 * (unat (Len v) div 8 + 1)" by presburger
  then show "bits (pushed val v) = bits v @ [bit val 0]"
    using bit_at_pushed [OF inv] length_grown [OF inv] by (auto simp: bits_def len)
qed simp_all

subsection \<open>The writing interface\<close>

text \<open>
  A bit sink accepts one bit at a time. \<open>Extend\<close> is a client of it: it pushes the bits of a
  byte in the requested order.
\<close>

locale bit_sink =
  fixes push :: "byte \<Rightarrow> 's \<Rightarrow> 's go"
    and content :: "'s \<Rightarrow> bool list"
    and invar :: "'s \<Rightarrow> bool"
  assumes push_ok: "invar s \<Longrightarrow> length (content s) + 1 < 2 ^ 64 \<Longrightarrow>
    \<exists>s'. push b s = Inr s' \<and> invar s' \<and> content s' = content s @ [bit b 0]"
begin

lemma push_all:
  assumes "invar s" and "length (content s) + length bs < 2 ^ 64"
  shows "\<exists>s'. gfold (\<lambda>s b. push b s) s bs = Inr s' \<and> invar s' \<and>
    content s' = content s @ map (\<lambda>b. bit b 0) bs"
  using assms
proof (induction bs arbitrary: s)
  case (Cons b bs)
  then obtain s1 where s1: "push b s = Inr s1" "invar s1" "content s1 = content s @ [bit b 0]"
    using push_ok [of s b] by auto
  with Cons.IH [of s1] Cons.prems show ?case by auto
qed simp

lemma push_indexed:
  assumes "invar s" and "length (content s) + n < 2 ^ 64"
  shows "\<exists>s'. gfold (\<lambda>s i. push (f i) s) s [0..<n] = Inr s' \<and> invar s' \<and>
    content s' = content s @ map (\<lambda>i. bit (f i) 0) [0..<n]"
  using push_all [of s "map f [0..<n]"] assms by (simp add: gfold_map comp_def)

end

interpretation bv_push: bit_sink Push bits "bv_packed p" for p
proof
  fix v b
  assume "bv_packed p v" and "length (bits v) + 1 < 2 ^ 64"
  then have "bv_inv v" "BytePacking v = p" "unat (Len v) + 1 < 2 ^ 64"
    by (auto simp: bv_packed_def)
  then show "\<exists>v'. Push b v = Inr v' \<and> bv_packed p v' \<and> bits v' = bits v @ [bit b 0]"
    using Push_step [of v b] by (auto simp: bv_packed_def)
qed

definition byte_bits :: "BitNumbering \<Rightarrow> nat \<Rightarrow> byte \<Rightarrow> bool list" where
  "byte_bits order n w =
     map (\<lambda>i. bit w (case order of LSB0 \<Rightarrow> i | MSB0 \<Rightarrow> 7 - i)) [0..<n]"

lemma length_byte_bits [simp]: "length (byte_bits order n w) = n"
  by (simp add: byte_bits_def)

lemma Extend_step:
  assumes "bv_packed p v" and "unat (Len v) + unat n < 2 ^ 64" and "n \<le> 8"
  shows "\<exists>v'. Extend w n order v = Inr v' \<and> bv_packed p v' \<and>
    bits v' = bits v @ byte_bits order (unat n) w"
proof (cases order)
  case LSB0
  with bv_push.push_indexed [of p v "unat n" "\<lambda>i. drop_bit i w AND 1"] assms
  show ?thesis by (simp add: Extend_def byte_bits_def bit_simps not_less)
next
  case MSB0
  with bv_push.push_indexed [of p v "unat n" "\<lambda>i. drop_bit (7 - i) w AND 1"] assms
  show ?thesis by (simp add: Extend_def byte_bits_def bit_simps not_less)
qed

text \<open>
  A bit writer also accepts the low \<open>n\<close> bits of a byte, low-order bit first. Its client lemma
  is about writing a sequence of whole bytes.
\<close>

locale bit_writer = bit_sink +
  fixes extend :: "byte \<Rightarrow> uint \<Rightarrow> 's \<Rightarrow> 's go"
  assumes extend_ok: "invar s \<Longrightarrow> n \<le> 8 \<Longrightarrow> length (content s) + unat n < 2 ^ 64 \<Longrightarrow>
    \<exists>s'. extend w n s = Inr s' \<and> invar s' \<and> content s' = content s @ byte_bits LSB0 (unat n) w"
begin

lemma extend_bytes:
  assumes "invar s" and "length (content s) + 8 * length ws < 2 ^ 64"
  shows "\<exists>s'. gfold (\<lambda>s w. extend w 8 s) s ws = Inr s' \<and> invar s' \<and>
    content s' = content s @ concat (map (byte_bits LSB0 8) ws)"
  using assms
proof (induction ws arbitrary: s)
  case (Cons w ws)
  then obtain s1 where "extend w 8 s = Inr s1" "invar s1" "content s1 = content s @ byte_bits LSB0 8 w"
    using extend_ok [of s 8 w] by auto
  with Cons.IH [of s1] Cons.prems show ?case by auto
qed simp

end

interpretation bv_writer: bit_writer Push bits "bv_packed p" "\<lambda>w n. Extend w n LSB0" for p
  by unfold_locales (use Extend_step [where order = LSB0] in auto)

subsection \<open>The reading interface\<close>

text \<open>
  Reading is total: past the end every bit is zero. \<open>stream v\<close> is the infinite sequence of bits
  a reader of \<open>v\<close> sees.
\<close>

definition stream :: "BitVector \<Rightarrow> nat \<Rightarrow> bool" where
  "stream v i \<longleftrightarrow> i < unat (Len v) \<and> bit_at v i"

lemma Get_ok:
  assumes "bv_wf v"
  shows "Get idx v = Inr (of_bool (stream v (unat idx)),
           if unat idx < unat (Len v) then None else Some ErrOutOfRange)"
proof (cases "unat idx < unat (Len v)")
  case True
  then have "unat (idx div 8) < length (Buf v)"
    using assms by (simp add: bv_wf_def unat_word_pos)
  moreover have "drop_bit k b AND 1 = (of_bool (bit b k) :: byte)" for b :: byte and k
    by (rule bit_word_eqI) (auto simp: bit_simps)
  ultimately show ?thesis
    using True by (cases "BytePacking v")
      (simp_all add: Get_def word_le_nat_alt stream_def bit_at_def bit_pos_def unat_word_pos)
next
  case False
  then show ?thesis by (simp add: Get_def word_le_nat_alt stream_def)
qed

lemma Take_step:
  assumes wf: "bv_wf v" and "n \<le> 8" and "unat c + 8 < 2 ^ 64"
  shows "\<exists>w. Take c n order v = Inr w \<and>
    (\<forall>j<8. bit w j \<longleftrightarrow> (let i = (case order of LSB0 \<Rightarrow> j | MSB0 \<Rightarrow> 7 - j)
                         in i < unat n \<and> stream v (unat c + i)))"
proof -
  have n8: "unat n \<le> 8" using assms(2) by (simp add: word_le_nat_alt)
  let ?pos = "\<lambda>i. case order of LSB0 \<Rightarrow> i | MSB0 \<Rightarrow> 7 - i"
  let ?body = "\<lambda>out i. gbind (Get (c + of_nat i) v) (\<lambda>(val, _).
                    Inr (case order of LSB0 \<Rightarrow> out OR push_bit i val
                                     | MSB0 \<Rightarrow> out OR push_bit (7 - i) val))"
  let ?P = "\<lambda>is w. \<forall>j<8. bit (w :: byte) j \<longleftrightarrow> ?pos j \<in> set is \<and> stream v (unat c + ?pos j)"
  have step: "\<exists>w'. ?body w i = Inr w' \<and> ?P (is @ [i]) w'"
    if P: "?P is w" and "[0..<unat n] = is @ i # js" for "is" w i js
  proof -
    have "i < 8" using that(2) n8 by (metis atLeastLessThan_iff in_set_conv_decomp le_trans not_less set_upt)
    then have "unat (c + of_nat i) = unat c + i"
      using assms(3) by (intro unat_add_small) simp
    then have "?body w i = Inr (w OR push_bit (?pos i) (of_bool (stream v (unat c + i))))"
      by (cases order) (simp_all add: Get_ok [OF wf])
    moreover have "?P (is @ [i]) (w OR push_bit (?pos i) (of_bool (stream v (unat c + i))))"
      using P \<open>i < 8\<close> by (cases order) (auto simp: bit_or_iff bit_push_of_bool)
    ultimately show ?thesis by blast
  qed
  have "\<exists>w. gfold ?body 0 [0..<unat n] = Inr w \<and> ?P [0..<unat n] w"
    by (rule gfold_invariant [where P = ?P]) (simp, rule step)
  then show ?thesis using assms(2) by (simp add: Take_def not_less Let_def)
qed

text \<open>
  A bit source hands out the next \<open>n\<close> bits as a byte, low-order bit first, and moves its cursor.
  The client lemmas read back a single bit and a byte that was laid out with \<open>byte_bits\<close>.
\<close>

locale bit_source =
  fixes fetch :: "'v \<Rightarrow> uint \<Rightarrow> uint \<Rightarrow> (byte \<times> uint) go"
    and contents :: "'v \<Rightarrow> nat \<Rightarrow> bool"
    and invar :: "'v \<Rightarrow> bool"
  assumes fetch_ok: "invar v \<Longrightarrow> n \<le> 8 \<Longrightarrow> unat c + 8 < 2 ^ 64 \<Longrightarrow>
    \<exists>w. fetch v c n = Inr (w, c + n) \<and>
      (\<forall>j<8. bit w j \<longleftrightarrow> j < unat n \<and> contents v (unat c + j))"
begin

lemma fetch_bit:
  assumes "invar v" and "unat c + 8 < 2 ^ 64"
  shows "fetch v c 1 = Inr (of_bool (contents v (unat c)), c + 1)"
proof -
  obtain w where "fetch v c 1 = Inr (w, c + 1)"
    and "\<forall>j<8. bit w j \<longleftrightarrow> j < 1 \<and> contents v (unat c + j)"
    using fetch_ok [of v 1 c] assms by auto
  moreover from this(2) have "w = of_bool (contents v (unat c))"
    by (auto simp: byte_eq_iff_bits bit_simps)
  ultimately show ?thesis by simp
qed

lemma fetch_byte_bits:
  assumes "invar v" and "unat c + 8 < 2 ^ 64" and "n \<le> 8"
    and "\<And>j. j < unat n \<Longrightarrow> contents v (unat c + j) = byte_bits LSB0 (unat n) w ! j"
    and "\<And>j. unat n \<le> j \<Longrightarrow> \<not> bit w j"
  shows "fetch v c n = Inr (w, c + n)"
proof -
  obtain w' where "fetch v c n = Inr (w', c + n)"
    and "\<forall>j<8. bit w' j \<longleftrightarrow> j < unat n \<and> contents v (unat c + j)"
    using fetch_ok [of v n c] assms by auto
  moreover from this(2) assms(4,5) have "w' = w"
    by (auto simp: byte_eq_iff_bits byte_bits_def) (metis leI)
  ultimately show ?thesis by simp
qed

end

interpretation bv_reader: bit_source "\<lambda>v. Iterator v LSB0" stream bv_wf
proof
  fix v and n c :: uint
  assume "bv_wf v" "n \<le> 8" "unat c + 8 < 2 ^ 64"
  then show "\<exists>w. Iterator v LSB0 c n = Inr (w, c + n) \<and>
      (\<forall>j<8. bit w j \<longleftrightarrow> j < unat n \<and> stream v (unat c + j))"
    using Take_step [of v n c LSB0] by (auto simp: Iterator_def not_less Let_def)
qed

lemma byte_bits_nth:
  "i < n \<Longrightarrow> byte_bits order n w ! i = bit w (case order of LSB0 \<Rightarrow> i | MSB0 \<Rightarrow> 7 - i)"
  by (cases order) (simp_all add: byte_bits_def)

section \<open>Properties\<close>

text \<open>
  C31: \<open>Push\<close> refines appending one bit: on a vector that satisfies the invariant and has
  room it does not panic, keeps the invariant and the packing, and appends exactly the low bit
  of its argument.\<close>

theorem Push_appends:
  assumes "bv_inv v" and "unat (Len v) + 1 < 2 ^ 64"
  shows "\<exists>v'. Push val v = Inr v' \<and> bv_inv v' \<and> BytePacking v' = BytePacking v \<and>
    bits v' = bits v @ [bit val 0]"
  using Push_step [OF assms, of val] by blast

theorem Push_appends_witness:
  "\<exists>v'. Push 3 \<lparr>Buf = [128], BytePacking = MSB0, Len = 1\<rparr> = Inr v' \<and> bv_inv v' \<and>
    BytePacking v' = MSB0 \<and> bits v' = [True, True]"
proof -
  let ?v = "\<lparr>Buf = [128], BytePacking = MSB0, Len = 1\<rparr>"
  have inv: "bv_inv ?v" by code_simp
  show ?thesis using Push_appends [OF inv, of 3] by (simp add: bits_def bit_at_def bit_pos_def)
qed

text \<open>
  C30: What \<open>Extend\<close> writes, \<open>Take\<close> reads back: taking \<open>n\<close> bits at the old length, in the
  same order, gives the \<open>n\<close> bits of the byte that \<open>Extend\<close> was asked to add, in the positions
  of that order, and zeros elsewhere.\<close>

theorem Take_Extend:
  assumes "bv_inv v" and "n \<le> 8" and "unat (Len v) + 16 < 2 ^ 64"
  shows "\<exists>v' w'. Extend w n order v = Inr v' \<and> Take (Len v) n order v' = Inr w' \<and>
    (\<forall>j<8. bit w' j \<longleftrightarrow> bit w j \<and> (case order of LSB0 \<Rightarrow> j | MSB0 \<Rightarrow> 7 - j) < unat n)"
proof -
  have n: "unat n \<le> 8" using assms(2) by (simp add: word_le_nat_alt)
  obtain v' where v': "Extend w n order v = Inr v'" "bv_packed (BytePacking v) v'"
      "bits v' = bits v @ byte_bits order (unat n) w"
    using Extend_step [of "BytePacking v" v n w order] assms n by (auto simp: bv_packed_def)
  have len: "unat (Len v') = unat (Len v) + unat n"
    using arg_cong [OF v'(3), of length] by simp
  have "stream v' (unat (Len v) + i) = byte_bits order (unat n) w ! i" if "i < unat n" for i
    using bits_nth [of "unat (Len v) + i" v'] that len v'(3)
    by (simp add: stream_def nth_append del: bits_nth)
  then have s: "stream v' (unat (Len v) + i) \<longleftrightarrow> bit w (case order of LSB0 \<Rightarrow> i | MSB0 \<Rightarrow> 7 - i)"
    if "i < unat n" for i
    using that by (simp add: byte_bits_nth)
  obtain w' where "Take (Len v) n order v' = Inr w'" and
    w': "\<forall>j<8. bit w' j \<longleftrightarrow> (let i = (case order of LSB0 \<Rightarrow> j | MSB0 \<Rightarrow> 7 - j)
       in i < unat n \<and> stream v' (unat (Len v) + i))"
    using Take_step [of v' n "Len v" order] v'(2) assms by (auto simp: bv_packed_def bv_inv_imp_wf)
  moreover have "bit w' j \<longleftrightarrow> bit w j \<and> (case order of LSB0 \<Rightarrow> j | MSB0 \<Rightarrow> 7 - j) < unat n"
    if "j < 8" for j
    using w' that s [of "case order of LSB0 \<Rightarrow> j | MSB0 \<Rightarrow> 7 - j"] by (cases order) (auto simp: Let_def)
  ultimately show ?thesis using v'(1) by blast
qed

theorem Take_Extend_witness:
  "\<exists>v' w'. Extend 0xab 5 MSB0 \<lparr>Buf = [1], BytePacking = LSB0, Len = 4\<rparr> = Inr v' \<and>
     Take 4 5 MSB0 v' = Inr w' \<and> (\<forall>j<8. bit w' j \<longleftrightarrow> bit (0xab :: byte) j \<and> 7 - j < 5)"
proof -
  let ?v = "\<lparr>Buf = [1], BytePacking = LSB0, Len = 4\<rparr>"
  have inv: "bv_inv ?v" by code_simp
  show ?thesis using Take_Extend [OF inv, of 5 "0xab" MSB0] by simp
qed

text \<open>
  \<open>Get\<close> on a buffer that holds \<open>Len\<close> bits never panics: it returns the bit for an index
  below \<open>Len\<close>, and 0 with \<open>ErrOutOfRange\<close> for every other index.\<close>

theorem Get_total:
  assumes "bv_wf v"
  shows "Get idx v = (if idx < Len v then Inr (of_bool (bits v ! unat idx), None)
                      else Inr (0, Some ErrOutOfRange))"
  using Get_ok [OF assms, of idx] by (simp add: word_less_nat_alt stream_def)

theorem Get_total_witness:
  "Get 2 \<lparr>Buf = [0xb0], BytePacking = MSB0, Len = 4\<rparr> = Inr (1, None) \<and>
   Get 4 \<lparr>Buf = [0xb0], BytePacking = MSB0, Len = 4\<rparr> = Inr (0, Some ErrOutOfRange)"
proof -
  let ?v = "\<lparr>Buf = [0xb0], BytePacking = MSB0, Len = 4\<rparr>"
  have wf: "bv_wf ?v" by (simp add: bv_wf_def)
  show ?thesis using Get_total [OF wf, of 2] Get_total [OF wf, of 4]
    by (simp add: bit_at_def bit_pos_def)
qed

text \<open>
  Successive calls of the closure that \<open>Iterator\<close> returns read the vector from front to
  back: each call returns the next \<open>n\<close> bits, low-order bit first, advances the cursor by \<open>n\<close>, and
  reads zeros once the end has been reached.\<close>

theorem Iterator_reads:
  assumes "bv_wf v" and "n \<le> 8" and "unat c + 8 < 2 ^ 64"
  shows "\<exists>w. Iterator v LSB0 c n = Inr (w, c + n) \<and>
    (\<forall>j<8. bit w j \<longleftrightarrow> j < unat n \<and> unat c + j < unat (Len v) \<and> bits v ! (unat c + j))"
  using bv_reader.fetch_ok [OF assms] by (auto simp: stream_def)

theorem Iterator_reads_witness:
  "\<exists>w. Iterator (NewBitVector [160, 3] LSB0) LSB0 5 8 = Inr (w, 13) \<and>
    (\<forall>j<8. bit w j \<longleftrightarrow> j < 8 \<and> 5 + j < 16 \<and> bits (NewBitVector [160, 3] LSB0) ! (5 + j))"
proof -
  let ?v = "NewBitVector [160, 3] LSB0"
  have wf: "bv_wf ?v" by (simp add: bv_wf_def NewBitVector_def)
  show ?thesis using Iterator_reads [OF wf, of 8 5] by (simp add: NewBitVector_def)
qed

text \<open>
  The comment on \<open>Len\<close> allows undefined bits after the last one, but \<open>Push\<close> ors into
  them: pushing 0 onto a one-bit vector whose remaining bits are set appends a 1.\<close>

theorem Push_undefined_bits:
  "\<exists>v'. Push 0 \<lparr>Buf = [255], BytePacking = LSB0, Len = 1\<rparr> = Inr v' \<and> Get 1 v' = Inr (1, None)"
  by (simp add: Push_def Get_def Let_def go_index_def go_update_def word_le_nat_alt)

end
