(* ===== verification/RlePlus.thy ===== *)
theory RlePlus
  imports BitVector "HOL-Library.Multiset"
begin

text \<open>
  The RLE+ bit-set codec of \<^verbatim>\<open>src/main/extern/rleplus/rleplus.go\<close>: \<open>RunLengths\<close>,
  \<open>Encode\<close> and \<open>Decode\<close>, with the two functions of Go's \<^verbatim>\<open>encoding/binary\<close> they use. The
  encoder is refined against the BNF grammar in the source's comment and \<open>Decode\<close> is shown to
  terminate on every buffer and to invert \<open>Encode\<close>.
\<close>

section \<open>Definitions\<close>

definition Version :: byte where
  "Version = 0"

datatype rle_error = ErrRunLengthTooLarge | ErrDecode | ErrWrongVersion

subsection \<open>Unsigned varints\<close>

text \<open>
  \<open>uvarint x\<close> is the byte sequence \<^verbatim>\<open>binary.PutUvarint\<close> writes for \<open>x\<close>; \<open>PutUvarint\<close> panics
  when the buffer it is given is too short. \<open>Uvarint\<close> is \<^verbatim>\<open>binary.Uvarint\<close>: the value and the
  number of bytes read, 0 and a negative count on overflow, 0 and 0 on a truncated buffer.
\<close>

function uvarint :: "uint64 \<Rightarrow> byte list" where
  "uvarint x =
     (if x \<ge> 0x80 then (ucast x OR 0x80) # uvarint (drop_bit 7 x) else [ucast x])"
  by pat_completeness auto
termination
proof (relation "measure unat")
  fix x :: uint64
  assume "x \<ge> 0x80"
  then show "(drop_bit 7 x, x) \<in> measure unat"
    by (simp add: word_le_nat_alt unat_div drop_bit_eq_div)
qed simp

declare uvarint.simps [simp del]

definition PutUvarint :: "nat \<Rightarrow> uint64 \<Rightarrow> byte list go" where
  "PutUvarint cap x =
     (if length (uvarint x) \<le> cap then Inr (uvarint x) else Inl IndexOutOfRange)"

fun uvarint_loop :: "nat \<Rightarrow> uint64 \<Rightarrow> byte list \<Rightarrow> uint64 \<times> int" where
  "uvarint_loop i x [] = (0, 0)"
| "uvarint_loop i x (b # bs) =
     (if b < 0x80
      then (if i > 9 \<or> i = 9 \<and> b > 1 then (0, - (int i + 1))
            else (x OR push_bit (7 * i) (ucast b), int i + 1))
      else uvarint_loop (i + 1) (x OR push_bit (7 * i) (ucast (b AND 0x7f))) bs)"

definition Uvarint :: "byte list \<Rightarrow> uint64 \<times> int" where
  "Uvarint buf = uvarint_loop 0 0 buf"

subsection \<open>Run lengths\<close>

text \<open>
  One iteration of the loop over \<open>ints[1:]\<close>. The slice \<open>runs\<close> is never empty there, so the
  increment of its last element is in range.
\<close>

fun run_step :: "uint64 \<times> uint64 list \<Rightarrow> uint64 \<Rightarrow> uint64 \<times> uint64 list" where
  "run_step (prev, runs) cur =
     (let delta = cur - prev
      in (cur,
          if delta = 1 then runs[length runs - 1 := runs ! (length runs - 1) + 1]
          else if delta > 1 then runs @ [delta - 1] @ [1]
          else runs))"

text \<open>
  \<open>RunLengths\<close> sorts its argument in place: the last component of the result is the caller's
  slice after the call.
\<close>

definition RunLengths :: "uint64 list \<Rightarrow> byte \<times> uint64 list \<times> uint64 list" where
  "RunLengths ints =
     (if ints = [] then (0, [], ints)
      else let ints = sort ints;
               prev = hd ints;
               firstBit = (if prev = 0 then 1 else 0);
               runs = (if firstBit = 0 then [prev] else []) @ [1];
               (_, runs) = foldl run_step (prev, runs) (tl ints)
           in (firstBit, runs, ints))"

subsection \<open>Encode\<close>

fun encode_runs :: "BitVector \<Rightarrow> uint64 list \<Rightarrow> (BitVector \<times> rle_error option) go" where
  "encode_runs v [] = Inr (v, None)"
| "encode_runs v (run # runs) =
     (if run = 1 then gbind (Push 1 v) (\<lambda>v. encode_runs v runs)
      else if run < 16 then
        gbind (Push 0 v) (\<lambda>v. gbind (Push 1 v) (\<lambda>v.
        gbind (Extend (ucast run) 4 LSB0 v) (\<lambda>v. encode_runs v runs)))
      else if run \<ge> 16 then
        gbind (Push 0 v) (\<lambda>v. gbind (Push 0 v) (\<lambda>v.
        gbind (PutUvarint 10 run) (\<lambda>buf.
        gbind (gfold (\<lambda>v b. Extend b 8 LSB0 v) v buf) (\<lambda>v. encode_runs v runs))))
      else Inr (v, Some ErrRunLengthTooLarge))"

text \<open>The last component of the result is again the caller's slice after the call.\<close>

definition Encode :: "uint64 list \<Rightarrow> (byte list \<times> uint \<times> rle_error option \<times> uint64 list) go" where
  "Encode ints =
     (let v = \<lparr>Buf = [], BytePacking = LSB0, Len = 0\<rparr>;
          (firstBit, runs, ints') = RunLengths ints
      in gbind (Extend Version 2 LSB0 v) (\<lambda>v.
         gbind (Push firstBit v) (\<lambda>v.
         gbind (encode_runs v runs) (\<lambda>(v, err).
         Inr (case err of None \<Rightarrow> (Buf v, Len v, None, ints') | Some e \<Rightarrow> ([], 0, Some e, ints'))))))"

subsection \<open>Decode\<close>

lemma gbind_cong [fundef_cong]:
  "m = m' \<Longrightarrow> (\<And>x. m' = Inr x \<Longrightarrow> f x = g x) \<Longrightarrow> gbind m f = gbind m' g"
  by (cases m') simp_all

text \<open>The loop that collects the bytes of a long block, at most eleven.\<close>

function read_varint :: "BitVector \<Rightarrow> uint \<Rightarrow> byte list \<Rightarrow> ((byte list \<times> rle_error option) \<times> uint) go" where
  "read_varint v cursor buf =
     gbind (Iterator v LSB0 cursor 8) (\<lambda>(b, cursor).
       if b AND 0x80 = 0 then Inr ((buf @ [b], None), cursor)
       else if length (buf @ [b]) > 10 then Inr (([], Some ErrDecode), cursor)
       else read_varint v cursor (buf @ [b]))"
  by pat_completeness auto
termination
  by (relation "measure (\<lambda>(v, cursor, buf). 11 - length buf)") auto

declare read_varint.simps [simp del]

text \<open>
  One turn of the outer loop up to the emission of the run: the run length and the \<open>done\<close> flag,
  or an error, with the iterator's cursor after it. A bit other than 0 and 1 would leave
  \<open>runLength\<close> as it was.
\<close>

definition read_block ::
  "BitVector \<Rightarrow> uint \<Rightarrow> goint \<Rightarrow> ((rle_error + goint \<times> bool) \<times> uint) go" where
  "read_block v cursor runLength =
     gbind (Iterator v LSB0 cursor 1) (\<lambda>(y, cursor).
       if y = 1 then Inr (Inr (1, False), cursor)
       else if y = 0 then
         gbind (Iterator v LSB0 cursor 1) (\<lambda>(val, cursor).
           if val = 1 then
             gbind (Iterator v LSB0 cursor 4) (\<lambda>(r, cursor). Inr (Inr (ucast r, False), cursor))
           else
             gbind (read_varint v cursor []) (\<lambda>((buf, err), cursor).
               case err of
                 Some e \<Rightarrow> Inr (Inl e, cursor)
               | None \<Rightarrow> (let x = fst (Uvarint buf) in Inr (Inr (x, x = 0), cursor))))
       else Inr (Inr (runLength, False), cursor))"

text \<open>\<open>for j := 0; j < runLength; j++\<close> with a signed \<open>runLength\<close>: nothing for a negative one.\<close>

definition emit :: "uint64 \<Rightarrow> goint \<Rightarrow> uint64 list" where
  "emit curIdx runLength = map (\<lambda>j. curIdx + of_nat j) [0..<nat (sint runLength)]"

text \<open>
  The outer loop has no bound of its own, so it is a partial function: \<open>None\<close> would mean that
  it does not return.
\<close>

partial_function (option) decode_loop ::
  "BitVector \<Rightarrow> uint \<Rightarrow> uint64 \<Rightarrow> byte \<Rightarrow> goint \<Rightarrow> uint64 list \<Rightarrow> (uint64 list \<times> rle_error option) go option" where
  "decode_loop v cursor curIdx curBit runLength ints =
     (case read_block v cursor runLength of
        Inl p \<Rightarrow> Some (Inl p)
      | Inr (r, cursor) \<Rightarrow>
          (case r of
             Inl e \<Rightarrow> Some (Inr ([], Some e))
           | Inr (runLength, stop) \<Rightarrow>
               (let ints = (if curBit = 1 then ints @ emit curIdx runLength else ints)
                in if stop then Some (Inr (ints, None))
                   else decode_loop v cursor (curIdx + runLength) (1 - curBit) runLength ints)))"

declare decode_loop.simps [code]

definition Decode :: "byte list \<Rightarrow> (uint64 list \<times> rle_error option) go option" where
  "Decode buf =
     (if buf = [] then Some (Inr ([], None))
      else let v = NewBitVector buf LSB0
           in case Iterator v LSB0 0 2 of
                Inl p \<Rightarrow> Some (Inl p)
              | Inr (ver, cursor) \<Rightarrow>
                  if ver \<noteq> Version then Some (Inr ([], Some ErrWrongVersion))
                  else (case Iterator v LSB0 cursor 1 of
                          Inl p \<Rightarrow> Some (Inl p)
                        | Inr (curBit, cursor) \<Rightarrow> decode_loop v cursor 0 curBit 0 []))"

section \<open>Varints\<close>

lemma uvarint_nonempty [simp]: "uvarint x \<noteq> []"
  by (subst uvarint.simps) simp

lemma bit_0x7f: "bit (0x7f :: 'a::len word) i \<longleftrightarrow> i < 7 \<and> i < LENGTH('a)"
  using bit_mask_iff [where 'a = "'a word", of 7 i] by (auto simp: mask_eq_exp_minus_1)

lemma bit_0x80: "bit (0x80 :: 'a::len word) i \<longleftrightarrow> i = 7 \<and> i < LENGTH('a)"
  using bit_exp_iff [where 'a = "'a word", of 7 i] by auto

lemma bit_0x7f_int: "bit (0x7f :: int) i \<longleftrightarrow> i < 7"
  using bit_mask_iff [where 'a = int, of 7 i] by (auto simp: mask_eq_exp_minus_1)

lemma bit_0x80_int: "bit (0x80 :: int) i \<longleftrightarrow> i = 7"
  using bit_exp_iff [where 'a = int, of 7 i] by auto

lemmas byte_bit_simps =
  bit_or_iff bit_and_iff bit_push_bit_iff bit_unsigned_iff bit_drop_bit_eq bit_0x7f bit_0x80
  bit_0x7f_int bit_0x80_int

lemma bit7_byte: "bit (b :: byte) 7 \<longleftrightarrow> \<not> b < 0x80"
proof -
  have "bit b 7 \<longleftrightarrow> bit (uint b) 7" by (simp add: bit_unsigned_iff)
  also have "\<dots> \<longleftrightarrow> odd (uint b div 128)" by (simp add: bit_iff_odd)
  also have "uint b div 128 = (if uint b < 128 then 0 else 1)"
    using uint_lt2p [of b] uint_ge_0 [of b] by (simp; linarith)
  finally show ?thesis by (simp add: word_less_def split: if_splits)
qed

lemma uvarint_split:
  "(x OR push_bit (7 * i) (ucast ((ucast y OR 0x80 :: byte) AND 0x7f))) OR
     push_bit (7 + 7 * i) (drop_bit 7 y)
   = x OR push_bit (7 * i) (y :: uint64)"
proof (rule bit_word_eqI)
  fix n assume "n < LENGTH(64)"
  then show "bit ((x OR push_bit (7 * i) (ucast ((ucast y OR 0x80 :: byte) AND 0x7f))) OR
      push_bit (7 + 7 * i) (drop_bit 7 y)) n = bit (x OR push_bit (7 * i) (y :: uint64)) n"
    by (cases "n - 7 * i < 7") (auto simp: byte_bit_simps)
qed

lemma ucast_or_0x80_ge: "\<not> (ucast (x :: uint64) OR 0x80 :: byte) < 0x80"
  using bit7_byte [of "ucast x OR 0x80"] by (simp add: byte_bit_simps)

lemma uvarint_loop_uvarint:
  assumes "unat x < 2 ^ (64 - 7 * i)" and "i \<le> 9"
  shows "uvarint_loop i acc (uvarint x @ rest) =
    (acc OR push_bit (7 * i) x, int i + int (length (uvarint x))) \<and> i + length (uvarint x) \<le> 10"
  using assms
proof (induction x arbitrary: i acc rule: uvarint.induct)
  case (1 x)
  show ?case
  proof (cases "x \<ge> 0x80")
    case True
    then have x: "128 \<le> unat x" by (simp add: word_le_nat_alt)
    have "i \<noteq> 9" using x "1.prems" by auto
    then have i: "i + 1 \<le> 9" using "1.prems" by simp
    have "64 - 7 * i = (64 - 7 * (i + 1)) + 7" using i by simp
    then have "(2::nat) ^ (64 - 7 * i) = 2 ^ (64 - 7 * (i + 1)) * 2 ^ 7"
      by (simp only: power_add)
    then have "unat (drop_bit 7 x) < 2 ^ (64 - 7 * (i + 1))"
      using "1.prems" by (simp add: drop_bit_eq_div unat_div less_mult_imp_div_less)
    from "1.IH" [OF True this i] show ?thesis
      using True ucast_or_0x80_ge [of x] by (subst (1 2 3) uvarint.simps) (simp add: uvarint_split)
  next
    case False
    then have x: "unat x < 128" by (simp add: word_le_nat_alt)
    then have u: "unat (ucast x :: byte) = unat x" by (simp add: unsigned_ucast_eq take_bit_eq_mod)
    have "ucast (ucast x :: byte) = x" using u by (simp add: word_unat_eq_iff unsigned_ucast_eq take_bit_eq_mod unat_mod)
    moreover have "\<not> (i = 9 \<and> (ucast x :: byte) > 1)"
      using "1.prems" u by (auto simp: word_less_nat_alt)
    moreover have "(ucast x :: byte) < 0x80" using x u by (simp add: word_less_nat_alt)
    ultimately show ?thesis using False "1.prems" by (subst (1 2 3) uvarint.simps) simp
  qed
qed

lemma Uvarint_uvarint: "Uvarint (uvarint x @ rest) = (x, int (length (uvarint x)))"
  and length_uvarint: "length (uvarint x) \<le> 10"
  using uvarint_loop_uvarint [of x 0 0 rest] unsigned_less [of x] by (auto simp: Uvarint_def)

lemma length_uvarint_pos: "0 < length (uvarint x)"
  by (simp add: length_greater_0_conv)

lemma PutUvarint_10 [simp]: "PutUvarint 10 x = Inr (uvarint x)"
  by (simp add: PutUvarint_def length_uvarint)

text \<open>The bytes have the shape the grammar's \<open>unsigned_varint\<close> asks for.\<close>

fun varint_syntax :: "byte list \<Rightarrow> bool" where
  "varint_syntax [] = False"
| "varint_syntax [b] = (\<not> bit b 7)"
| "varint_syntax (b # bs) = (bit b 7 \<and> varint_syntax bs)"

lemma varint_syntax_uvarint: "varint_syntax (uvarint x)"
proof (induction x rule: uvarint.induct)
  case (1 x)
  show ?case
  proof (cases "x \<ge> 0x80")
    case True
    have "varint_syntax (b # uvarint y)" if "varint_syntax (uvarint y)" "bit b 7" for b y
      using that by (cases "uvarint y") auto
    then show ?thesis
      using True "1.IH" by (subst uvarint.simps) (simp add: byte_bit_simps)
  next
    case False
    then have "\<not> bit x 7"
      by (simp add: bit_iff_odd word_le_nat_alt unat_div unat_arith_simps word_arith_nat_div)
    then show ?thesis using False by (subst uvarint.simps) (simp add: byte_bit_simps)
  qed
qed

section \<open>Encode against the grammar\<close>

text \<open>
  The bits of one block and of a whole encoding, read off the BNF grammar in the comment of
  \<open>Encode\<close>.
\<close>

definition block_bits :: "uint64 \<Rightarrow> bool list" where
  "block_bits run =
     (if run = 1 then [True]
      else if run < 16 then [False, True] @ byte_bits LSB0 4 (ucast run)
      else [False, False] @ concat (map (byte_bits LSB0 8) (uvarint run)))"

definition encoding_bits :: "bool \<Rightarrow> uint64 list \<Rightarrow> bool list" where
  "encoding_bits firstBit runs = [False, False, firstBit] @ concat (map block_bits runs)"

inductive rle_block :: "bool list \<Rightarrow> bool" where
  block_single: "rle_block [True]"
| block_short: "rle_block [False, True, a, b, c, d]"
| block_long: "varint_syntax bs \<Longrightarrow> rle_block ([False, False] @ concat (map (byte_bits LSB0 8) bs))"

inductive rle_blocks :: "bool list \<Rightarrow> bool" where
  no_blocks: "rle_blocks []"
| more_blocks: "rle_block b \<Longrightarrow> rle_blocks bs \<Longrightarrow> rle_blocks (b @ bs)"

inductive rle_encoding :: "bool list \<Rightarrow> bool" where
  encoding: "rle_blocks bs \<Longrightarrow> rle_encoding ([False, False] @ [first] @ bs)"

lemma length_concat_bytes: "length (concat (map (byte_bits LSB0 8) ws)) = 8 * length ws"
  by (induction ws) auto

lemma length_block_bits: "length (block_bits run) \<le> 82" "0 < length (block_bits run)"
  using length_uvarint [of run] by (auto simp: block_bits_def length_concat_bytes)

lemma length_blocks: "length (concat (map block_bits runs)) \<le> 82 * length runs"
proof (induction runs)
  case (Cons r runs)
  then show ?case using length_block_bits(1) [of r] by simp
qed simp

lemma byte_bits_2: "byte_bits LSB0 2 w = [bit w 0, bit w 1]"
  by (simp add: byte_bits_def upt_rec)

lemma byte_bits_4: "byte_bits LSB0 4 w = [bit w 0, bit w 1, bit w 2, bit w 3]"
  by (simp add: byte_bits_def upt_rec eval_nat_numeral)

lemma rle_block_bits: "rle_block (block_bits run)"
  using rle_block.intros varint_syntax_uvarint [THEN block_long]
  by (auto simp: block_bits_def byte_bits_4)

lemma rle_encoding_bits: "rle_encoding (encoding_bits firstBit runs)"
proof -
  have "rle_blocks (concat (map block_bits runs))"
    by (induction runs) (auto intro: rle_blocks.intros rle_block_bits)
  from rle_encoding.encoding [OF this, of firstBit] show ?thesis by (simp add: encoding_bits_def)
qed

text \<open>One block, through the writing interface of the bit vector.\<close>

lemma encode_run_step:
  assumes "bv_packed LSB0 v" and "length (bits v) + 82 < 2 ^ 64"
  shows "\<exists>v'. bv_packed LSB0 v' \<and> bits v' = bits v @ block_bits run \<and>
    encode_runs v (run # runs) = encode_runs v' runs"
proof -
  consider "run = 1" | "run \<noteq> 1" "run < 16" | "run \<noteq> 1" "\<not> run < 16" by blast
  then show ?thesis
  proof cases
    case 1
    with assms bv_push.push_ok [of LSB0 v 1] show ?thesis by (auto simp: block_bits_def)
  next
    case 2
    obtain v1 where v1: "Push 0 v = Inr v1" "bv_packed LSB0 v1" "bits v1 = bits v @ [False]"
      using assms bv_push.push_ok [of LSB0 v 0] by auto
    moreover obtain v2 where v2: "Push 1 v1 = Inr v2" "bv_packed LSB0 v2" "bits v2 = bits v1 @ [True]"
      using assms v1 bv_push.push_ok [of LSB0 v1 1] by auto
    moreover obtain v3 where "Extend (ucast run) 4 LSB0 v2 = Inr v3" "bv_packed LSB0 v3"
        "bits v3 = bits v2 @ byte_bits LSB0 4 (ucast run)"
      using assms v1 v2 bv_writer.extend_ok [of LSB0 v2 4 "ucast run"] by auto
    ultimately show ?thesis using 2 by (auto simp: block_bits_def)
  next
    case 3
    obtain v1 where v1: "Push 0 v = Inr v1" "bv_packed LSB0 v1" "bits v1 = bits v @ [False]"
      using assms bv_push.push_ok [of LSB0 v 0] by auto
    moreover obtain v2 where v2: "Push 0 v1 = Inr v2" "bv_packed LSB0 v2" "bits v2 = bits v1 @ [False]"
      using assms v1 bv_push.push_ok [of LSB0 v1 0] by auto
    moreover obtain v3 where "gfold (\<lambda>v b. Extend b 8 LSB0 v) v2 (uvarint run) = Inr v3" "bv_packed LSB0 v3"
        "bits v3 = bits v2 @ concat (map (byte_bits LSB0 8) (uvarint run))"
      using assms v1 v2 length_uvarint [of run] bv_writer.extend_bytes [of LSB0 v2 "uvarint run"] by auto
    ultimately show ?thesis using 3 by (auto simp: block_bits_def not_less)
  qed
qed

lemma encode_runs_ok:
  assumes "bv_packed LSB0 v" and "length (bits v) + 82 * length runs < 2 ^ 64"
  shows "\<exists>v'. encode_runs v runs = Inr (v', None) \<and> bv_packed LSB0 v' \<and>
    bits v' = bits v @ concat (map block_bits runs)"
  using assms
proof (induction runs arbitrary: v)
  case (Cons run runs)
  then obtain v1 where v1: "bv_packed LSB0 v1" "bits v1 = bits v @ block_bits run"
      "encode_runs v (run # runs) = encode_runs v1 runs"
    using encode_run_step [of v run runs] by auto
  have "length (bits v1) + 82 * length runs < 2 ^ 64"
    using Cons.prems length_block_bits(1) [of run] v1(2) by simp
  with Cons.IH [of v1] v1 show ?case by auto
qed simp

lemma Encode_ok:
  assumes "RunLengths ints = (firstBit, runs, ints')" and "82 * length runs + 3 < 2 ^ 64"
  shows "\<exists>v. bv_packed LSB0 v \<and> bits v = encoding_bits (bit firstBit 0) runs \<and>
    Encode ints = Inr (Buf v, Len v, None, ints')"
proof -
  let ?v0 = "\<lparr>Buf = [], BytePacking = LSB0, Len = 0\<rparr>"
  have "bv_packed LSB0 ?v0" "bits ?v0 = []" by (simp_all add: bv_packed_def bv_inv_def bits_def)
  then obtain v1 where v1: "Extend Version 2 LSB0 ?v0 = Inr v1" "bv_packed LSB0 v1" "bits v1 = [False, False]"
    using bv_writer.extend_ok [of LSB0 ?v0 2 Version]
    by (auto simp: byte_bits_2 Version_def)
  then obtain v2 where v2: "Push firstBit v1 = Inr v2" "bv_packed LSB0 v2" "bits v2 = [False, False, bit firstBit 0]"
    using bv_push.push_ok [of LSB0 v1 firstBit] by auto
  then obtain v3 where "encode_runs v2 runs = Inr (v3, None)" "bv_packed LSB0 v3"
      "bits v3 = encoding_bits (bit firstBit 0) runs"
    using encode_runs_ok [of v2 runs] assms(2) by (auto simp: encoding_bits_def)
  with v1 v2 show ?thesis by (auto simp: Encode_def assms(1))
qed

section \<open>Run lengths denote the set\<close>

text \<open>
  \<open>expand\<close> is the list of integers that a sequence of alternating runs denotes, as \<open>Decode\<close>
  emits it.
\<close>

fun expand :: "bool \<Rightarrow> uint64 \<Rightarrow> uint64 list \<Rightarrow> uint64 list" where
  "expand b idx [] = []"
| "expand b idx (r # rs) = (if b then emit idx r else []) @ expand (\<not> b) (idx + r) rs"

lemma expand_append:
  "expand b idx (rs @ ss) =
     expand b idx rs @ expand (b = even (length rs)) (idx + sum_list rs) ss"
proof (induction rs arbitrary: b idx)
  case (Cons r rs)
  then show ?case by (cases b) (simp_all add: add.assoc)
qed simp

lemma nat_sint_small:
  fixes w :: goint
  assumes "unat w < 2 ^ 63"
  shows "nat (sint w) = unat w"
proof -
  have "int (unat w) < int (2 ^ 63)" using assms by (simp only: of_nat_less_iff)
  then have "uint w < 2 ^ 63" by simp
  moreover have "- (2 ^ 63) \<le> uint w" by (rule order_trans [of _ 0]) simp_all
  ultimately have "sint w = uint w" by (simp add: sint_uint signed_take_bit_int_eq_self)
  then show ?thesis by simp
qed

lemma word_gt_1: "(w :: uint64) \<noteq> 0 \<Longrightarrow> w \<noteq> 1 \<Longrightarrow> 1 < w"
  by (simp add: word_less_nat_alt word_unat_eq_iff)

lemma emit_0 [simp]: "emit idx 0 = []"
  by (simp add: emit_def)

lemma emit_Suc:
  assumes "unat k < 2 ^ 63 - 1"
  shows "emit idx (k + 1) = emit idx k @ [idx + k]"
proof -
  have "unat (k + 1) = unat k + 1" using assms by (intro unat_Suc_small) simp
  then have "nat (sint (k + 1)) = Suc (unat k)" "nat (sint k) = unat k"
    using assms nat_sint_small [of k] nat_sint_small [of "k + 1"] by auto
  then show ?thesis by (simp add: emit_def)
qed

lemma emit_1 [simp]: "emit idx 1 = [idx]"
  using emit_Suc [of 0 idx] by simp

text \<open>
  The loop invariant of \<open>RunLengths\<close>: after the elements of \<open>S\<close>, the last of them \<open>prev\<close>, the
  runs end in a run of ones that ends at \<open>prev\<close>, and they denote \<open>S\<close>.
\<close>

definition runs_inv :: "bool \<Rightarrow> uint64 \<Rightarrow> uint64 list \<Rightarrow> uint64 set \<Rightarrow> nat \<Rightarrow> bool" where
  "runs_inv fb prev runs S n \<longleftrightarrow>
     (\<exists>zs k. runs = zs @ [k] \<and> unat k \<le> n \<and> fb = even (length zs) \<and>
        sum_list runs = prev + 1 \<and> expand fb 0 runs = sorted_list_of_set S \<and>
        prev \<in> S \<and> (\<forall>x\<in>S. x \<le> prev))"

lemma sorted_list_of_set_insert_max:
  assumes "finite A" and "\<forall>x\<in>A. x < a"
  shows "sorted_list_of_set (insert a A) = sorted_list_of_set A @ [a]"
proof -
  have "a \<notin> A" using assms(2) by auto
  then show ?thesis
    using assms by (simp add: sorted_list_of_set_insert sorted_insort_is_snoc less_imp_le)
qed

lemma run_step_inv:
  assumes inv: "runs_inv fb prev runs S n" and cur: "prev \<le> cur" and n: "n < 2 ^ 63 - 1"
  shows "\<exists>runs'. run_step (prev, runs) cur = (cur, runs') \<and>
    runs_inv fb cur runs' (insert cur S) (n + 1) \<and> length runs' \<le> length runs + 2"
proof -
  from inv obtain zs k where runs: "runs = zs @ [k]" and k: "unat k \<le> n"
    and fb: "fb = even (length zs)" and sum: "sum_list zs + k = prev + 1"
    and ex: "expand fb 0 runs = sorted_list_of_set S"
    and S: "prev \<in> S" "\<forall>x\<in>S. x \<le> prev" by (auto simp: runs_inv_def)
  have fin: "finite S" by simp
  have last: "\<forall>x\<in>insert cur S. x \<le> cur" using S cur by auto
  have snoc: "sorted_list_of_set (insert cur S) = sorted_list_of_set S @ [cur]" if "cur \<noteq> prev"
    using sorted_list_of_set_insert_max [OF fin, of cur] S cur that by fastforce
  consider "cur - prev = 1" | "cur - prev > 1" "cur - prev \<noteq> 1" "cur \<noteq> prev" | "cur = prev"
    using word_gt_1 [of "cur - prev"] by fastforce
  then show ?thesis
  proof cases
    case 1
    then have "cur \<noteq> prev" by auto
    note snoc = snoc [OF this]
    have "unat (k + 1) \<le> n + 1" using k n unat_Suc_small [of k] by simp
    moreover have "emit (sum_list zs) (k + 1) = emit (sum_list zs) k @ [cur]"
      using emit_Suc [of k "sum_list zs"] k n 1 sum by (simp add: algebra_simps)
    then have "expand fb 0 (zs @ [k + 1]) = sorted_list_of_set S @ [cur]"
      using ex runs fb by (simp add: expand_append)
    moreover have "sorted_list_of_set S @ [cur] = sorted_list_of_set (insert cur S)"
      by (rule snoc [symmetric])
    moreover have "sum_list zs + (k + 1) = cur + 1" using 1 sum by (simp add: algebra_simps)
    ultimately have "runs_inv fb cur (zs @ [k + 1]) (insert cur S) (n + 1)"
      unfolding runs_inv_def using fb last by (intro exI [of _ zs] exI [of _ "k + 1"]) simp
    then show ?thesis using 1 runs by simp
  next
    case 2
    let ?zs = "runs @ [cur - prev - 1]"
    have sum': "sum_list ?zs = cur" using sum runs by (simp add: algebra_simps)
    have "expand fb 0 (?zs @ [1]) = expand fb 0 ?zs @ [cur]"
      by (subst expand_append) (use fb runs sum' in simp)
    also have "expand fb 0 ?zs = expand fb 0 runs"
      by (subst expand_append) (use fb runs in simp)
    finally have "expand fb 0 (?zs @ [1]) = sorted_list_of_set (insert cur S)"
      using snoc 2 ex by auto
    moreover have "sum_list (?zs @ [1]) = cur + 1"
      using sum' by (simp only: sum_list.append sum_list.Cons sum_list.Nil add_0_right)
    ultimately have "runs_inv fb cur (?zs @ [1]) (insert cur S) (n + 1)"
      unfolding runs_inv_def using fb last runs by (intro exI [of _ ?zs] exI [of _ 1]) simp
    then show ?thesis using 2 by simp
  next
    case 3
    then show ?thesis using inv S by (auto simp: runs_inv_def insert_absorb)
  qed
qed

lemma foldl_run_step:
  assumes "runs_inv fb prev runs S n" and "sorted (prev # xs)" and "n + length xs < 2 ^ 63"
  shows "\<exists>p runs'. foldl run_step (prev, runs) xs = (p, runs') \<and>
    runs_inv fb p runs' (S \<union> set xs) (n + length xs) \<and> length runs' \<le> length runs + 2 * length xs"
  using assms
proof (induction xs arbitrary: prev runs S n)
  case (Cons x xs)
  then obtain runs1 where 1: "run_step (prev, runs) x = (x, runs1)"
      "runs_inv fb x runs1 (insert x S) (n + 1)" "length runs1 \<le> length runs + 2"
    using run_step_inv [of fb prev runs S n x] by auto
  from Cons.IH [OF 1(2)] Cons.prems obtain p runs2 where
      "foldl run_step (x, runs1) xs = (p, runs2)"
      "runs_inv fb p runs2 (insert x S \<union> set xs) (n + 1 + length xs)"
      "length runs2 \<le> length runs1 + 2 * length xs" by auto
  then show ?case using 1 by (simp add: insert_commute)
qed auto

lemma RunLengths_ok:
  assumes "length ints < 2 ^ 63"
  shows "\<exists>fb runs. RunLengths ints = (of_bool fb, runs, sort ints) \<and>
    expand fb 0 runs = sorted_list_of_set (set ints) \<and> length runs \<le> 2 * length ints"
proof (cases "sort ints")
  case Nil
  then have "ints = []" by (metis length_0_conv length_sort)
  then show ?thesis by (auto simp: RunLengths_def intro!: exI [of _ False])
next
  case (Cons prev xs)
  define fb where "fb = (prev = 0)"
  define runs0 where "runs0 = (if fb then [] else [prev]) @ [1]"
  have len: "length ints = Suc (length xs)" and set: "set ints = insert prev (set xs)"
    using arg_cong [OF Cons, of length] arg_cong [OF Cons, of set] by simp_all
  have "runs_inv fb prev runs0 {prev} 1"
    unfolding runs_inv_def runs0_def
    by (rule exI [of _ "if fb then [] else [prev]"], rule exI [of _ 1]) (auto simp: fb_def)
  moreover have "sorted (prev # xs)" using sorted_sort [of ints] Cons by simp
  ultimately obtain p runs where r: "foldl run_step (prev, runs0) xs = (p, runs)"
      "runs_inv fb p runs ({prev} \<union> set xs) (1 + length xs)"
      "length runs \<le> length runs0 + 2 * length xs"
    using foldl_run_step [of fb prev runs0 "{prev}" 1 xs] assms len by auto
  have "expand fb 0 runs = sorted_list_of_set (set ints)"
    using r(2) unfolding runs_inv_def set by (metis insert_is_Un)
  moreover have "length runs \<le> 2 * length ints" using r(3) len by (simp add: runs0_def split: if_splits)
  moreover have "RunLengths ints = (of_bool fb, runs, sort ints)"
    using r(1) len by (auto simp: RunLengths_def Cons fb_def runs0_def Let_def split: prod.splits)
  ultimately show ?thesis by blast
qed

lemma run_step_same: "run_step (p, r) p = (p, r)"
  by simp

lemma foldl_run_step_remdups:
  "foldl run_step (p, r) xs = foldl run_step (p, r) (tl (remdups_adj (p # xs)))"
proof (induction xs arbitrary: p r)
  case (Cons x xs)
  obtain r' where r': "run_step (p, r) x = (x, r')" by (simp add: Let_def)
  show ?case
  proof (cases "x = p")
    case True
    then show ?thesis using Cons.IH [of p r] run_step_same [of p r] by (simp del: run_step.simps)
  next
    case False
    have "remdups_adj (x # xs) = x # tl (remdups_adj (x # xs))"
      by (metis hd_remdups_adj list.collapse list.sel(1) list.distinct(1) remdups_adj_Nil_iff)
    then show ?thesis using False Cons.IH [of x r'] r' 
      by (metis foldl_Cons list.sel(3) remdups_adj.simps(3))
  qed
qed simp

text \<open>\<open>RunLengths\<close> as a function of the set of its elements, for a non-empty argument.\<close>

lemma RunLengths_set:
  assumes "ints \<noteq> []" and "sorted_list_of_set (set ints) = p # xs"
  shows "RunLengths ints =
    (if p = 0 then 1 else 0, snd (foldl run_step (p, (if p = 0 then [] else [p]) @ [1]) xs), sort ints)"
proof -
  obtain q ys where s: "sort ints = q # ys"
    using assms(1) by (metis length_0_conv length_sort neq_Nil_conv)
  have "remdups_adj (sort ints) = p # xs"
    using remdups_adj_sorted [of "sort ints"] assms(2) by simp
  then have "remdups_adj (q # ys) = p # xs" by (simp only: s)
  then have "q = p" "tl (remdups_adj (q # ys)) = xs"
    by (metis hd_remdups_adj list.sel(1), simp)
  then show ?thesis
    using assms(1) s foldl_run_step_remdups [of q _ ys]
    by (simp add: RunLengths_def Let_def split: prod.splits)
qed

lemma RunLengths_cong:
  assumes "set xs = set ys"
  shows "fst (RunLengths xs) = fst (RunLengths ys) \<and> fst (snd (RunLengths xs)) = fst (snd (RunLengths ys))"
proof (cases "xs = []")
  case True
  then show ?thesis using assms by simp
next
  case False
  moreover from this have "ys \<noteq> []" using assms by auto
  moreover obtain p zs where "sorted_list_of_set (set ys) = p # zs"
    using \<open>ys \<noteq> []\<close> by (metis List.finite_set neq_Nil_conv set_empty sorted_list_of_set_eq_Nil_iff)
  ultimately show ?thesis using assms by (simp add: RunLengths_set)
qed

section \<open>Decode inverts Encode\<close>

definition matches :: "BitVector \<Rightarrow> nat \<Rightarrow> bool list \<Rightarrow> bool" where
  "matches v c bs \<longleftrightarrow> (\<forall>j<length bs. stream v (c + j) = bs ! j)"

lemma matches_append:
  "matches v c (xs @ ys) \<longleftrightarrow> matches v c xs \<and> matches v (c + length xs) ys"
  by (simp add: matches_def all_less_add nth_append add.assoc)

lemma matches_Cons: "matches v c (b # bs) \<longleftrightarrow> stream v c = b \<and> matches v (c + 1) bs"
  using matches_append [of v c "[b]" bs] by (simp add: matches_def)

lemma fetch_matching:
  assumes "bv_wf v" and "unat c + 8 < 2 ^ 64" and "n \<le> 8"
    and "matches v (unat c) (byte_bits LSB0 (unat n) w)" and "\<And>j. unat n \<le> j \<Longrightarrow> \<not> bit w j"
  shows "Iterator v LSB0 c n = Inr (w, c + n)"
  using bv_reader.fetch_byte_bits [of v c n w] assms by (auto simp: matches_def)

lemma byte_bits_high: "8 \<le> j \<Longrightarrow> \<not> bit (w :: byte) j"
  using bit_imp_le_length [of w j] by auto

lemma read_varint_matching:
  assumes "bv_wf v" and "varint_syntax ws" and "length buf + length ws \<le> 10"
    and "matches v (unat c) (concat (map (byte_bits LSB0 8) ws))"
    and "unat c + 8 * length ws + 8 < 2 ^ 64"
  shows "read_varint v c buf = Inr ((buf @ ws, None), c + of_nat (8 * length ws))"
  using assms(2-)
proof (induction ws arbitrary: buf c rule: varint_syntax.induct)
  case (2 b)
  then have "Iterator v LSB0 c 8 = Inr (b, c + 8)"
    using assms(1) by (intro fetch_matching) (auto simp: byte_bits_high)
  moreover have "b AND 0x80 = 0" using 2 by (auto simp: byte_eq_iff_bits byte_bit_simps)
  ultimately show ?case by (subst read_varint.simps) simp
next
  case (3 b b' bs)
  have "matches v (unat c) (byte_bits LSB0 8 b)"
    and m: "matches v (unat c + 8) (concat (map (byte_bits LSB0 8) (b' # bs)))"
    using "3.prems" by (simp_all add: matches_append)
  then have "Iterator v LSB0 c 8 = Inr (b, c + 8)"
    using assms(1) "3.prems" by (intro fetch_matching) (auto simp: byte_bits_high)
  moreover have "b AND 0x80 \<noteq> 0" using "3.prems" by (auto simp: byte_eq_iff_bits byte_bit_simps)
  moreover have "unat (c + 8) = unat c + 8" using unat_add_small [of c 8] "3.prems" by simp
  then have "read_varint v (c + 8) (buf @ [b]) =
      Inr (((buf @ [b]) @ b' # bs, None), c + 8 + of_nat (8 * length (b' # bs)))"
    using "3.prems" m by (intro "3.IH") auto
  ultimately show ?case using "3.prems" by (subst read_varint.simps) (simp add: algebra_simps)
qed simp

lemma ucast_small: "run < 16 \<Longrightarrow> ucast (ucast (run :: uint64) :: byte) = run"
  by (simp add: word_unat_eq_iff unsigned_ucast_eq take_bit_eq_mod unat_mod word_less_nat_alt)

lemma bit_small:
  assumes "(run :: uint64) < 16" and "4 \<le> j"
  shows "\<not> bit (ucast run :: byte) j"
proof -
  have "take_bit 4 run = run" using assms(1) by (simp add: take_bit_eq_mod word_unat_eq_iff unat_mod word_less_nat_alt)
  then have "\<not> bit run j" using assms(2) by (metis bit_take_bit_iff not_less)
  then show ?thesis by (simp add: bit_unsigned_iff)
qed

lemma read_block_matching:
  assumes wf: "bv_wf v" and m: "matches v (unat c) (block_bits run)" and c: "unat c + 100 < 2 ^ 64"
  shows "read_block v c rl = Inr (Inr (run, False), c + of_nat (length (block_bits run)))"
proof -
  have bit: "Iterator v LSB0 (c + of_nat k) 1 = Inr (of_bool (stream v (unat c + k)), c + of_nat k + 1)"
    if "k < 8" for k
    using bv_reader.fetch_bit [OF wf, of "c + of_nat k"] unat_add_small [of c k] c that by simp
  note bit0 = bit [of 0, simplified] and bit1 = bit [of 1, simplified]
  have c2: "unat (c + 2) = unat c + 2" using unat_add_small [of c 2] c by simp
  consider "run = 1" | "run \<noteq> 1" "run < 16" | "run \<noteq> 1" "\<not> run < 16" by blast
  then show ?thesis
  proof cases
    case 1
    then have "stream v (unat c)" using m by (simp add: block_bits_def matches_Cons)
    then show ?thesis using 1 bit0 by (simp add: read_block_def block_bits_def)
  next
    case 2
    then have "\<not> stream v (unat c)" "stream v (unat c + 1)"
      and "matches v (unat (c + 2)) (byte_bits LSB0 4 (ucast run))"
      using m c2 by (simp_all add: block_bits_def matches_Cons)
    moreover from this(3) have "Iterator v LSB0 (c + 2) 4 = Inr (ucast run, c + 2 + 4)"
      using wf c c2 bit_small [OF 2(2)] by (intro fetch_matching) auto
    ultimately show ?thesis
      using 2 bit0 bit1 by (simp add: read_block_def block_bits_def ucast_small algebra_simps)
  next
    case 3
    have "\<not> stream v (unat c)" "\<not> stream v (unat c + 1)"
      and "matches v (unat (c + 2)) (concat (map (byte_bits LSB0 8) (uvarint run)))"
      using 3 m c2 by (simp_all add: block_bits_def matches_Cons)
    moreover from this(3) have "read_varint v (c + 2) [] =
        Inr (([] @ uvarint run, None), c + 2 + of_nat (8 * length (uvarint run)))"
      using wf c c2 length_uvarint [of run] varint_syntax_uvarint
      by (intro read_varint_matching) auto
    moreover have "run \<noteq> 0" using 3 by auto
    ultimately show ?thesis
      using 3 bit0 bit1 Uvarint_uvarint [of run "[]"]
      by (simp add: read_block_def block_bits_def length_concat_bytes algebra_simps)
  qed
qed

text \<open>Past the last set bit the next block reads as a long block of length zero.\<close>

lemma read_block_zeros:
  assumes wf: "bv_wf v" and z: "\<And>i. unat c \<le> i \<Longrightarrow> \<not> stream v i" and c: "unat c + 100 < 2 ^ 64"
  shows "read_block v c rl = Inr (Inr (0, True), c + 10)"
proof -
  have ix: "unat (c + 1) = unat c + 1" "unat (c + 2) = unat c + 2"
    using unat_add_small [of c 1] unat_add_small [of c 2] c by simp_all
  have m: "matches v i (concat (map (byte_bits LSB0 8) [0]))" if "unat c \<le> i" for i
    using z that by (simp add: matches_def byte_bits_def)
  have "Iterator v LSB0 c 1 = Inr (0, c + 1)" "Iterator v LSB0 (c + 1) 1 = Inr (0, c + 2)"
    using bv_reader.fetch_bit [OF wf, of c] bv_reader.fetch_bit [OF wf, of "c + 1"] z c ix
    by (simp_all add: add.assoc)
  moreover have "read_varint v (c + 2) [] = Inr (([] @ [0], None), c + 2 + of_nat (8 * length [0 :: byte]))"
    using m wf ix c by (intro read_varint_matching) simp_all
  ultimately show ?thesis by (simp add: read_block_def Uvarint_def)
qed

lemma decode_loop_matching:
  assumes "bv_wf v" and "matches v (unat c) (concat (map block_bits runs))"
    and "\<And>i. unat c + length (concat (map block_bits runs)) \<le> i \<Longrightarrow> \<not> stream v i"
    and "unat c + 82 * length runs + 100 < 2 ^ 64"
  shows "decode_loop v c idx (of_bool b) rl ints = Some (Inr (ints @ expand b idx runs, None))"
  using assms(2-)
proof (induction runs arbitrary: c idx b rl ints)
  case Nil
  then have "read_block v c rl = Inr (Inr (0, True), c + 10)"
    using assms(1) by (intro read_block_zeros) auto
  then show ?case by (subst decode_loop.simps) simp
next
  case (Cons run runs)
  have len: "length (block_bits run) \<le> 82" by (rule length_block_bits)
  let ?c = "c + of_nat (length (block_bits run))"
  have c: "unat ?c = unat c + length (block_bits run)"
    using unat_add_small [of c "length (block_bits run)"] Cons.prems len by simp
  have "read_block v c rl = Inr (Inr (run, False), ?c)"
    using assms(1) Cons.prems by (intro read_block_matching) (auto simp: matches_append)
  moreover have "decode_loop v ?c (idx + run) (of_bool (\<not> b)) run ints' =
      Some (Inr (ints' @ expand (\<not> b) (idx + run) runs, None))" for ints'
    using Cons.prems len by (intro Cons.IH) (auto simp: matches_append c add.assoc)
  moreover have "1 - of_bool b = (of_bool (\<not> b) :: byte)" by simp
  ultimately show ?case by (subst decode_loop.simps) (simp add: Let_def)
qed

lemma stream_NewBitVector:
  assumes "bv_packed LSB0 v" and "8 * length (Buf v) < 2 ^ 64"
  shows "stream (NewBitVector (Buf v) LSB0) = stream v"
    and "bv_wf (NewBitVector (Buf v) LSB0)"
proof -
  let ?v = "NewBitVector (Buf v) LSB0"
  have len: "unat (Len ?v) = 8 * length (Buf v)"
    using assms(2) by (simp add: NewBitVector_def unat_word_ariths unat_of_nat)
  then show "bv_wf ?v" by (simp add: bv_wf_def NewBitVector_def)
  have "bit_at ?v i = bit_at v i" for i
    using assms(1) by (simp add: bit_at_def NewBitVector_def bv_packed_def)
  then show "stream ?v = stream v"
    using assms(1) bv_inv_bit_at [of v] bv_inv_imp_wf [of v]
    by (auto simp: stream_def len bv_packed_def bv_wf_def fun_eq_iff)
qed

lemma matches_Nil: "matches v c []"
  by (simp add: matches_def)

lemma Decode_matching:
  assumes v: "v = NewBitVector buf LSB0" and "buf \<noteq> []" and wf: "bv_wf v"
    and m: "matches v 0 (encoding_bits fb runs)"
    and z: "\<And>i. length (encoding_bits fb runs) \<le> i \<Longrightarrow> \<not> stream v i"
    and len: "82 * length runs + 103 < 2 ^ 64"
  shows "Decode buf = Some (Inr (expand fb 0 runs, None))"
proof -
  have "matches v 0 [False, False]" and m': "stream v 2 = fb"
      "matches v 3 (concat (map block_bits runs))"
    using m by (simp_all add: encoding_bits_def matches_Cons matches_Nil eval_nat_numeral)
  then have "matches v 0 (byte_bits LSB0 2 0)" by (simp add: byte_bits_2)
  note m' = this m'
  have "Iterator v LSB0 0 2 = Inr (0, 2)"
    using fetch_matching [of v 0 2 0] wf m' by simp
  moreover have "Iterator v LSB0 2 1 = Inr (of_bool fb, 3)"
    using bv_reader.fetch_bit [OF wf, of 2] m' by simp
  moreover have "decode_loop v 3 0 (of_bool fb) 0 [] = Some (Inr ([] @ expand fb 0 runs, None))"
    using wf m' z len by (intro decode_loop_matching) (auto simp: encoding_bits_def)
  ultimately show ?thesis using assms(2) by (simp add: Decode_def v [symmetric] Version_def Let_def)
qed

lemma matches_bits:
  assumes "bits v = bs" shows "matches v 0 bs" "\<And>i. length bs \<le> i \<Longrightarrow> \<not> stream v i"
  using assms by (auto simp: matches_def stream_def)

lemma Encode_Decode:
  assumes "length ints < 2 ^ 50"
  shows "\<exists>buf len. Encode ints = Inr (buf, len, None, sort ints) \<and>
    Decode buf = Some (Inr (sorted_list_of_set (set ints), None))"
proof -
  obtain fb runs where r: "RunLengths ints = (of_bool fb, runs, sort ints)"
      "expand fb 0 runs = sorted_list_of_set (set ints)" "length runs \<le> 2 * length ints"
    using RunLengths_ok [of ints] assms by auto
  then obtain v where v: "bv_packed LSB0 v" "bits v = encoding_bits fb runs"
      "Encode ints = Inr (Buf v, Len v, None, sort ints)"
    using Encode_ok [OF r(1)] assms by auto
  have l: "unat (Len v) = length (encoding_bits fb runs)" using v(2) by (metis length_bits)
  also have "\<dots> \<le> 3 + 82 * length runs"
    using length_blocks [of runs] by (simp add: encoding_bits_def)
  finally have buf: "8 * length (Buf v) < 2 ^ 64" "Buf v \<noteq> []"
    using v(1) r(3) assms l by (auto simp: bv_packed_def bv_inv_def encoding_bits_def)
  have "Decode (Buf v) = Some (Inr (expand fb 0 runs, None))"
    using matches_bits [OF v(2)] stream_NewBitVector [OF v(1) buf(1)] buf(2) r(3) assms
    by (intro Decode_matching [OF refl]) (auto simp: matches_def)
  then show ?thesis using v(3) r(2) by simp
qed

section \<open>Decode always returns\<close>

lemma read_varint_progress:
  assumes "bv_wf v" and "length buf \<le> 10" and "unat c + 8 * (12 - length buf) < 2 ^ 64"
  shows "\<exists>r c'. read_varint v c buf = Inr (r, c') \<and> unat c \<le> unat c' \<and>
    unat c' \<le> unat c + 8 * (11 - length buf)"
  using assms
proof (induction v c buf rule: read_varint.induct)
  case (1 v c buf)
  have "unat c + 8 < 2 ^ 64" using "1.prems" by simp
  then obtain b where b: "Iterator v LSB0 c 8 = Inr (b, c + 8)"
    using bv_reader.fetch_ok [of v 8 c] "1.prems" by auto
  have c: "unat (c + 8) = unat c + 8" using unat_add_small [of c 8] "1.prems" by simp
  show ?case
  proof (cases "b AND 0x80 = 0 \<or> length (buf @ [b]) > 10")
    case True
    then show ?thesis using b c "1.prems" by (subst read_varint.simps) auto
  next
    case False
    then have "\<exists>r c'. read_varint v (c + 8) (buf @ [b]) = Inr (r, c') \<and> unat (c + 8) \<le> unat c' \<and>
        unat c' \<le> unat (c + 8) + 8 * (11 - length (buf @ [b]))"
      using b c "1.prems" by (intro "1.IH" [OF b refl]) auto
    then show ?thesis using False b c by (subst read_varint.simps) auto
  qed
qed

lemma read_block_progress:
  assumes wf: "bv_wf v" and c: "unat c + 200 < 2 ^ 64"
  shows "\<exists>r c'. read_block v c rl = Inr (r, c') \<and> unat c < unat c' \<and> unat c' \<le> unat c + 100"
proof -
  have ix: "unat (c + 1) = unat c + 1" "unat (c + 2) = unat c + 2" "unat (c + 6) = unat c + 6"
    using unat_add_small [of c 1] unat_add_small [of c 2] unat_add_small [of c 6] c by simp_all
  have b0: "Iterator v LSB0 c 1 = Inr (of_bool (stream v (unat c)), c + 1)"
    and b1: "Iterator v LSB0 (c + 1) 1 = Inr (of_bool (stream v (unat c + 1)), c + 2)"
    using bv_reader.fetch_bit [OF wf, of c] bv_reader.fetch_bit [OF wf, of "c + 1"] c ix
    by (simp_all add: add.assoc)
  obtain w where b4: "Iterator v LSB0 (c + 2) 4 = Inr (w, c + 6)"
    using bv_reader.fetch_ok [of v 4 "c + 2"] wf c ix by (auto simp: add.assoc)
  obtain buf err c' where "read_varint v (c + 2) [] = Inr ((buf, err), c')"
      "unat (c + 2) \<le> unat c'" "unat c' \<le> unat (c + 2) + 88"
    using read_varint_progress [of v "[]" "c + 2"] wf c ix by auto
  then show ?thesis
    using b0 b1 b4 ix by (auto simp: read_block_def Let_def split: option.splits)
qed

lemma decode_loop_returns:
  assumes "bv_wf v" and "unat (Len v) + 300 < 2 ^ 64" and "unat c \<le> unat (Len v) + 100"
  shows "\<exists>r. decode_loop v c idx b rl ints = Some (Inr r)"
  using assms(3)
proof (induction "unat (Len v) + 101 - unat c" arbitrary: c idx b rl ints rule: less_induct)
  case less
  show ?case
  proof (cases "unat (Len v) \<le> unat c")
    case True
    then have "read_block v c rl = Inr (Inr (0, True), c + 10)"
      using assms less.prems by (intro read_block_zeros) (auto simp: stream_def)
    then show ?thesis by (subst decode_loop.simps) simp
  next
    case False
    then obtain r c' where r: "read_block v c rl = Inr (r, c')" "unat c < unat c'" "unat c' \<le> unat c + 100"
      using read_block_progress [of v c rl] assms by auto
    then have "\<exists>r. decode_loop v c' idx b rl ints = Some (Inr r)" for idx b rl ints
      using less.hyps [of c'] False by auto
    then show ?thesis
      using r(1) by (subst decode_loop.simps) (auto split: sum.splits simp: Let_def)
  qed
qed

lemma Decode_returns:
  assumes "length buf < 2 ^ 60"
  shows "\<exists>ints err. Decode buf = Some (Inr (ints, err))"
proof (cases "buf = []")
  case False
  let ?v = "NewBitVector buf LSB0"
  have len: "unat (Len ?v) = 8 * length buf"
    using assms by (simp add: NewBitVector_def unat_word_ariths unat_of_nat)
  then have wf: "bv_wf ?v" by (simp add: bv_wf_def NewBitVector_def)
  obtain w where "Iterator ?v LSB0 0 2 = Inr (w, 2)"
    using bv_reader.fetch_ok [of ?v 2 0] wf by auto
  moreover obtain b where "Iterator ?v LSB0 2 1 = Inr (b, 3)"
    using bv_reader.fetch_bit [OF wf, of 2] by auto
  moreover obtain r where "decode_loop ?v 3 0 b 0 [] = Some (Inr r)"
    using decode_loop_returns [of ?v 3 0 b 0 "[]"] wf len assms by auto
  ultimately show ?thesis using False by (cases r) (simp add: Decode_def Let_def)
qed (simp add: Decode_def)

section \<open>Properties\<close>

text \<open>
  C1: \<open>Decode\<close> inverts \<open>Encode\<close>: for every slice of fewer than \<open>2^50\<close> integers, \<open>Encode\<close> returns
  no error, does not panic, leaves the slice sorted, and \<open>Decode\<close> of the bytes returns without an
  error the strictly increasing list of the integers that were encoded.\<close>

theorem Decode_inverts_Encode:
  assumes "length ints < 2 ^ 50"
  shows "\<exists>buf len. Encode ints = Inr (buf, len, None, sort ints) \<and>
    Decode buf = Some (Inr (sorted_list_of_set (set ints), None))"
  using Encode_Decode [OF assms] .

theorem Decode_inverts_Encode_witness:
  "\<exists>buf len. Encode [7, 0, 0xffffffffffffffff, 7] = Inr (buf, len, None, [0, 7, 7, 0xffffffffffffffff]) \<and>
    Decode buf = Some (Inr ([0, 7, 0xffffffffffffffff], None))"
proof -
  have "sorted_list_of_set (set [7, 0, 0xffffffffffffffff, 7 :: uint64]) = [0, 7, 0xffffffffffffffff]"
    by (simp only: sorted_list_of_set_sort_remdups) simp
  then show ?thesis using Decode_inverts_Encode [of "[7, 0, 0xffffffffffffffff, 7]"] by simp
qed

text \<open>
  C2: \<open>Decode\<close> terminates and does not panic on every buffer of fewer than \<open>2^60\<close> bytes, well
  formed or not.\<close>

theorem Decode_terminates:
  assumes "length buf < 2 ^ 60"
  shows "\<exists>ints err. Decode buf = Some (Inr (ints, err))"
  using Decode_returns [OF assms] .

theorem Decode_terminates_witness: "\<exists>ints err. Decode [0x58, 0xff, 0xff, 3] = Some (Inr (ints, err))"
  using Decode_terminates [of "[0x58, 0xff, 0xff, 3]"] by simp

text \<open>
  C11: The bits \<open>Encode\<close> produces are a sentence of the BNF grammar in its comment, with the
  version header 00, and \<open>Len\<close> counts exactly them; no run length makes it fail.\<close>

theorem Encode_in_grammar:
  assumes "length ints < 2 ^ 50"
  shows "\<exists>buf len. Encode ints = Inr (buf, len, None, sort ints) \<and>
    rle_encoding (bits \<lparr>Buf = buf, BytePacking = LSB0, Len = len\<rparr>)"
proof -
  obtain fb runs where r: "RunLengths ints = (of_bool fb, runs, sort ints)" "length runs \<le> 2 * length ints"
    using RunLengths_ok [of ints] assms by auto
  obtain v where v: "bv_packed LSB0 v" "bits v = encoding_bits fb runs"
      "Encode ints = Inr (Buf v, Len v, None, sort ints)"
    using Encode_ok [OF r(1)] r(2) assms by auto
  moreover have "\<lparr>Buf = Buf v, BytePacking = LSB0, Len = Len v\<rparr> = v"
    using v(1) by (simp add: bv_packed_def)
  ultimately show ?thesis using rle_encoding_bits [of fb runs] by auto
qed

theorem Encode_in_grammar_witness:
  "\<exists>buf len. Encode [1, 2, 3, 40] = Inr (buf, len, None, [1, 2, 3, 40]) \<and>
    rle_encoding (bits \<lparr>Buf = buf, BytePacking = LSB0, Len = len\<rparr>)"
  using Encode_in_grammar [of "[1, 2, 3, 40]"] by simp

text \<open>
  C12: The encoding is canonical: two slices get the same bytes and bit count exactly when they
  hold the same set of integers; order and duplicates do not matter.\<close>

theorem Encode_canonical:
  assumes "length xs < 2 ^ 50" and "length ys < 2 ^ 50"
    and "Encode xs = Inr (bx, lx, ex, xs')" and "Encode ys = Inr (by', ly, ey, ys')"
  shows "bx = by' \<and> lx = ly \<longleftrightarrow> set xs = set ys"
proof
  assume "bx = by' \<and> lx = ly"
  then have "sorted_list_of_set (set xs) = sorted_list_of_set (set ys)"
    using Encode_Decode [OF assms(1)] Encode_Decode [OF assms(2)] assms(3,4) by auto
  then show "set xs = set ys" by (metis List.finite_set sorted_list_of_set.set_sorted_key_list_of_set)
next
  assume "set xs = set ys"
  moreover obtain fx rx fy ry where "RunLengths xs = (fx, rx, sort xs)" "RunLengths ys = (fy, ry, sort ys)"
    using RunLengths_ok [of xs] RunLengths_ok [of ys] assms(1,2) by auto
  ultimately have "RunLengths xs = (fx, rx, sort xs)" "RunLengths ys = (fx, rx, sort ys)"
    using RunLengths_cong [of xs ys] by auto
  then show "bx = by' \<and> lx = ly"
    using assms(3,4) by (auto simp: Encode_def gbind_Inr_iff split: option.splits)
qed

theorem Encode_canonical_witness:
  "\<exists>b1 l1 e1 s1 b2 l2 e2 s2. Encode [3, 1, 3] = Inr (b1, l1, e1, s1) \<and>
     Encode [1, 3] = Inr (b2, l2, e2, s2) \<and> b1 = b2 \<and> l1 = l2"
proof -
  obtain b1 l1 b2 l2 where e: "Encode [3, 1, 3] = Inr (b1, l1, None, sort [3, 1, 3])"
      "Encode [1, 3] = Inr (b2, l2, None, sort [1, 3])"
    using Encode_Decode [of "[3, 1, 3]"] Encode_Decode [of "[1, 3]"] by auto
  show ?thesis using Encode_canonical [OF _ _ e] e by auto
qed

text \<open>
  C13: \<open>RunLengths\<close> returns alternating run lengths, the first of them a run of ones exactly when
  0 is in the set, whose expansion is the set: read as runs of zeros and ones they enumerate the
  integers of the argument in increasing order, each once. It sorts the caller's slice in place.\<close>

theorem RunLengths_denotes:
  assumes "length ints < 2 ^ 63" and "RunLengths ints = (firstBit, runs, ints')"
  shows "expand (firstBit = 1) 0 runs = sorted_list_of_set (set ints) \<and>
    (firstBit = 1 \<longleftrightarrow> 0 \<in> set ints) \<and> mset ints' = mset ints \<and> sorted ints'"
proof -
  obtain fb where r: "firstBit = of_bool fb" "expand fb 0 runs = sorted_list_of_set (set ints)" "ints' = sort ints"
    using RunLengths_ok [OF assms(1)] assms(2) by auto
  have "firstBit = 1 \<longleftrightarrow> 0 \<in> set ints"
  proof (cases "sort ints")
    case Nil
    then have "ints = []" by (metis length_0_conv length_sort)
    then show ?thesis using assms(2) by (auto simp: RunLengths_def)
  next
    case (Cons p xs)
    have "0 \<in> set (sort ints) \<longleftrightarrow> p = 0"
      using sorted_sort [of ints] unfolding Cons by (auto simp: word_le_0_iff)
    then have "0 \<in> set ints \<longleftrightarrow> p = 0" by simp
    then show ?thesis
      using assms(2) Cons by (auto simp: RunLengths_def Let_def split: prod.splits if_splits)
  qed
  then show ?thesis using r by (simp add: of_bool_def split: if_splits)
qed

theorem RunLengths_denotes_witness:
  "RunLengths [4, 2, 0, 5, 2] = (1, [1, 1, 1, 1, 2], [0, 2, 2, 4, 5]) \<and>
   expand True 0 [1, 1, 1, 1, 2] = [0, 2, 4, 5]"
proof -
  have r: "RunLengths [4, 2, 0, 5, 2] = (1, [1, 1, 1, 1, 2], [0, 2, 2, 4, 5])" by code_simp
  have "sorted_list_of_set (set [4, 2, 0, 5, 2 :: uint64]) = [0, 2, 4, 5]"
    by (simp only: sorted_list_of_set_sort_remdups) simp
  then show ?thesis using RunLengths_denotes [OF _ r] r by simp
qed

text \<open>
  A non-empty buffer whose two low-order header bits are not the version 00 is rejected with
  \<open>ErrWrongVersion\<close> and no integers.\<close>

theorem Decode_version:
  assumes "buf \<noteq> []" and "length buf < 2 ^ 60" and "hd buf AND 3 \<noteq> 0"
  shows "Decode buf = Some (Inr ([], Some ErrWrongVersion))"
proof -
  let ?v = "NewBitVector buf LSB0"
  have len: "unat (Len ?v) = 8 * length buf"
    using assms by (simp add: NewBitVector_def unat_word_ariths unat_of_nat)
  then have wf: "bv_wf ?v" by (simp add: bv_wf_def NewBitVector_def)
  have "8 \<le> 8 * length buf" using assms(1) by (simp add: Suc_le_eq)
  then have st: "stream ?v j \<longleftrightarrow> bit (hd buf) j" if "j < 2" for j
    using that assms(1) len by (simp add: stream_def bit_at_def bit_pos_def NewBitVector_def hd_conv_nth)
  obtain w where w: "Iterator ?v LSB0 0 2 = Inr (w, 2)"
    "\<forall>j<8. bit w j \<longleftrightarrow> j < 2 \<and> stream ?v j"
    using bv_reader.fetch_ok [of ?v 2 0] wf by auto
  have "(3 :: byte) = mask 2" by (simp add: mask_eq_exp_minus_1)
  then have "w = hd buf AND 3"
    using w(2) st by (auto simp: byte_eq_iff_bits bit_and_iff bit_mask_iff)
  then show ?thesis using assms w(1) by (simp add: Decode_def Let_def Version_def)
qed

theorem Decode_version_witness: "Decode [0xff] = Some (Inr ([], Some ErrWrongVersion))"
  by (rule Decode_version) simp_all

text \<open>
  A long block whose varint overflows 64 bits is taken for the end of the encoding: \<open>Uvarint\<close>
  reports the overflow in its second result, which \<open>Decode\<close> drops, and the corrupt buffer decodes
  to the empty set without an error.\<close>

theorem Decode_accepts_overflow:
  "Uvarint (replicate 9 0x80 @ [2]) = (0, -10) \<and>
   Decode [4, 16, 16, 16, 16, 16, 16, 16, 16, 80, 0] = Some (Inr ([], None))"
  by code_simp

text \<open>
  A run of \<open>2^63\<close> or more ones emits nothing, since the run length is converted to a signed
  \<open>int\<close> before the loop that emits it: the encoding of such a run followed by a gap of one and a
  one decodes to the last integer alone.\<close>

theorem Decode_drops_huge_run:
  "emit idx (2 ^ 63) = [] \<and>
   Decode [4, 16, 16, 16, 16, 16, 16, 16, 16, 48, 96] = Some (Inr ([2 ^ 63 + 1], None))"
proof
  show "emit idx (2 ^ 63) = []" by (simp add: emit_def)
  show "Decode [4, 16, 16, 16, 16, 16, 16, 16, 16, 48, 96] = Some (Inr ([2 ^ 63 + 1], None))"
    by code_simp
qed

end
