(* ===== verification/HttpServer.thy ===== *)
theory HttpServer
  imports Prelude
begin

text \<open>
  The HTTP server wrapper of \<^verbatim>\<open>src/main/httptest/server.go\<close>: construction, \<open>Start\<close>, the
  connection-state hook installed by \<open>wrap\<close>, \<open>Close\<close> and \<open>CloseClientConnections\<close>. Every method
  body that runs under \<^verbatim>\<open>s.mu\<close> is one atomic step; blocking on the wait group or on a channel
  is a state in which no step of that thread is enabled. The network operations of the Go
  library are parameters.
\<close>

section \<open>State and operations\<close>

text \<open>The connection states of \<^verbatim>\<open>net/http\<close>; a connection is known by its identity.\<close>

datatype ConnState = StateNew | StateActive | StateIdle | StateHijacked | StateClosed

type_synonym conn = nat

text \<open>
  \<open>Listener\<close> is the address of the open listener, \<open>None\<close> for a nil one. \<open>connClosed\<close> records the
  connections on which \<^verbatim>\<open>Close\<close> was called, \<open>oldCalls\<close> the calls of the hook that \<open>wrap\<close> found
  installed, \<open>serving\<close> that the goroutine of \<open>goServe\<close> is inside \<^verbatim>\<open>Serve\<close>. A nil \<open>conns\<close> map
  reads as the empty one.
\<close>

record Server =
  URL :: string
  Listener :: "string option"
  listenerClosed :: bool
  keepAlives :: bool
  wg :: int
  closed :: bool
  conns :: "conn \<rightharpoonup> ConnState"
  oldHook :: bool
  wrapped :: bool
  serving :: bool
  connClosed :: "conn \<Rightarrow> bool"
  oldCalls :: "(conn \<times> ConnState) list"

subsection \<open>Construction\<close>

definition HasPrefix :: "string \<Rightarrow> string \<Rightarrow> bool" where
  "HasPrefix s pre \<longleftrightarrow> take (length pre) s = pre"

fun strSliceContainsPrefix :: "string list \<Rightarrow> string \<Rightarrow> bool" where
  "strSliceContainsPrefix [] pre = False"
| "strSliceContainsPrefix (s # v) pre = (if HasPrefix s pre then True else strSliceContainsPrefix v pre)"

text \<open>
  The flag is registered only when an argument mentions it; parsing it is the flag package's
  business, so the value is a parameter and is empty when the flag is not registered.
\<close>

definition init_serveFlag :: "string list \<Rightarrow> string \<Rightarrow> string" where
  "init_serveFlag args flagValue =
     (if strSliceContainsPrefix args ''-httptest.serve='' \<or> strSliceContainsPrefix args ''--httptest.serve=''
      then flagValue else '''')"

text \<open>
  \<open>resolve\<close>, \<open>listen\<close> and \<open>listenTCP\<close> stand for \<^verbatim>\<open>net.ResolveTCPAddr\<close>, \<^verbatim>\<open>net.Listen\<close> and
  \<^verbatim>\<open>net.ListenTCP\<close>, with \<open>None\<close> for an error. The error of the last call is ignored.
\<close>

definition newLocalListener ::
  "(string \<Rightarrow> string option) \<Rightarrow> (string \<Rightarrow> string option) \<Rightarrow> (string \<Rightarrow> string option) \<Rightarrow> string
   \<Rightarrow> string option go" where
  "newLocalListener resolve listen listenTCP serveFlag =
     (case resolve ''127.0.0.1:12666'' of
        None \<Rightarrow> Inr None
      | Some tcpAddr \<Rightarrow>
          if serveFlag \<noteq> '''' then
            (case listen serveFlag of
               None \<Rightarrow> Inl (PanicMessage ''httptest: failed to listen'')
             | Some l \<Rightarrow> Inr (Some l))
          else Inr (listenTCP tcpAddr))"

definition NewUnstartedServer :: "string option \<Rightarrow> bool \<Rightarrow> Server" where
  "NewUnstartedServer l hook =
     \<lparr>URL = '''', Listener = l, listenerClosed = False, keepAlives = True, wg = 0, closed = False,
      conns = Map.empty, oldHook = hook, wrapped = False, serving = False,
      connClosed = (\<lambda>_. False), oldCalls = []\<rparr>"

text \<open>\<open>NewServer\<close> no longer starts the server: the call of \<open>Start\<close> is commented out.\<close>

definition NewServer ::
  "(string \<Rightarrow> string option) \<Rightarrow> (string \<Rightarrow> string option) \<Rightarrow> (string \<Rightarrow> string option) \<Rightarrow> string
   \<Rightarrow> bool \<Rightarrow> Server go" where
  "NewServer resolve listen listenTCP serveFlag hook =
     gbind (newLocalListener resolve listen listenTCP serveFlag)
       (\<lambda>l. Inr (NewUnstartedServer l hook))"

subsection \<open>The connection hook\<close>

definition closeConn :: "conn \<Rightarrow> Server \<Rightarrow> Server" where
  "closeConn c s = s\<lparr>connClosed := (connClosed s)(c := True)\<rparr>"

definition wgDone :: "Server \<Rightarrow> Server go" where
  "wgDone s = (if wg s \<le> 0 then Inl NegativeWaitGroup else Inr (s\<lparr>wg := wg s - 1\<rparr>))"

definition forgetConn :: "conn \<Rightarrow> Server \<Rightarrow> Server go" where
  "forgetConn c s =
     (case conns s c of
        Some _ \<Rightarrow> wgDone (s\<lparr>conns := (conns s)(c := None)\<rparr>)
      | None \<Rightarrow> Inr s)"

definition callOldHook :: "conn \<Rightarrow> ConnState \<Rightarrow> Server \<Rightarrow> Server" where
  "callOldHook c cs s = (if oldHook s then s\<lparr>oldCalls := oldCalls s @ [(c, cs)]\<rparr> else s)"

definition badTransition :: go_panic where
  "badTransition = PanicMessage ''invalid state transition''"

text \<open>
  The hook runs with the mutex held. It returns the new state and the panic it raised, if any:
  what it changed before a panic stays changed, as the deferred unlock does not undo it.
\<close>

definition connHook :: "conn \<Rightarrow> ConnState \<Rightarrow> Server \<Rightarrow> Server \<times> go_panic option" where
  "connHook c cs s =
     (case cs of
        StateNew \<Rightarrow>
          (let s = s\<lparr>wg := wg s + 1\<rparr>
           in if conns s c \<noteq> None then (s, Some badTransition)
              else let s = s\<lparr>conns := (conns s)(c \<mapsto> cs)\<rparr>;
                       s = (if closed s then closeConn c s else s)
                   in (callOldHook c cs s, None))
      | StateActive \<Rightarrow>
          (case conns s c of
             Some oldState \<Rightarrow>
               if oldState \<noteq> StateNew \<and> oldState \<noteq> StateIdle then (s, Some badTransition)
               else (callOldHook c cs (s\<lparr>conns := (conns s)(c \<mapsto> cs)\<rparr>), None)
           | None \<Rightarrow> (callOldHook c cs s, None))
      | StateIdle \<Rightarrow>
          (let finish = (\<lambda>s. (callOldHook c cs (if closed s then closeConn c s else s), None))
           in case conns s c of
                Some oldState \<Rightarrow>
                  if oldState \<noteq> StateActive then (s, Some badTransition)
                  else finish (s\<lparr>conns := (conns s)(c \<mapsto> cs)\<rparr>)
              | None \<Rightarrow> finish s)
      | _ \<Rightarrow>
          (case forgetConn c s of
             Inl p \<Rightarrow> (s\<lparr>conns := (conns s)(c := None)\<rparr>, Some p)
           | Inr s \<Rightarrow> (callOldHook c cs s, None)))"

subsection \<open>Start, goServe and Close\<close>

text \<open>
  \<open>Start\<close> up to the point where \<open>goServe\<close> blocks in \<^verbatim>\<open>wg.Wait\<close>: a nil listener is
  dereferenced, the hook is installed, the counter is incremented and the serving goroutine
  runs.
\<close>

definition Start :: "Server \<Rightarrow> Server go" where
  "Start s =
     (if URL s \<noteq> '''' then Inl (PanicMessage ''Server already started'')
      else case Listener s of
        None \<Rightarrow> Inl NilDereference
      | Some addr \<Rightarrow>
          Inr (s\<lparr>URL := ''http://'' @ addr, wrapped := True, wg := wg s + 1,
                keepAlives := True, serving := True\<rparr>))"

text \<open>
  The goroutine of \<open>goServe\<close> after \<^verbatim>\<open>Serve\<close> has returned: it adds one to the counter, where
  the counter should go down.
\<close>

definition serveReturned :: "Server \<Rightarrow> Server" where
  "serveReturned s = s\<lparr>serving := False, wg := wg s + 1\<rparr>"

text \<open>\<^verbatim>\<open>wg.Wait\<close> returns when the counter is zero; \<open>goServe\<close> then runs its deferred \<^verbatim>\<open>wg.Done\<close>.\<close>

definition waitReturns :: "Server \<Rightarrow> bool" where
  "waitReturns s \<longleftrightarrow> wg s = 0"

definition goServeReturn :: "Server \<Rightarrow> Server go option" where
  "goServeReturn s = (if waitReturns s then Some (wgDone s) else None)"

text \<open>
  The locked part of \<open>Close\<close>. Idle and new connections are closed, in whatever order the map is
  traversed. After it, \<open>Close\<close> waits for the counter.
\<close>

definition Close :: "Server \<Rightarrow> Server" where
  "Close s =
     (if closed s then s
      else s\<lparr>closed := True, listenerClosed := True, keepAlives := False,
             connClosed := (\<lambda>c. connClosed s c \<or> conns s c = Some StateIdle \<or> conns s c = Some StateNew)\<rparr>)"

definition CloseReturns :: "Server \<Rightarrow> bool" where
  "CloseReturns s \<longleftrightarrow> closed s \<and> waitReturns s"

section \<open>Steps\<close>

text \<open>
  What can happen to a started server: the HTTP server reports a connection state (a panic of
  the hook on a connection's goroutine is recovered there and leaves what it changed), some
  goroutine calls \<open>Close\<close>, \<^verbatim>\<open>Serve\<close> returns, or a tracked connection is closed by
  \<open>CloseClientConnections\<close>.
\<close>

inductive srv_step :: "Server \<Rightarrow> Server \<Rightarrow> bool" where
  hook: "connHook c cs s = (t, p) \<Longrightarrow> srv_step s t"
| close: "srv_step s (Close s)"
| serve: "serving s \<Longrightarrow> srv_step s (serveReturned s)"
| drop: "conns s c \<noteq> None \<Longrightarrow> srv_step s (closeConn c s)"

inductive_simps srv_step_iff: "srv_step s t"

definition srv_started :: "Server \<Rightarrow> bool" where
  "srv_started s \<longleftrightarrow> (\<exists>l hook. Start (NewUnstartedServer l hook) = Inr s)"

section \<open>Invariants\<close>

text \<open>
  Every tracked connection holds one unit of the wait group, on top of the unit \<open>Start\<close> took;
  tracked states are not terminal; after \<open>Close\<close>, a tracked connection that is not serving a
  request has been closed.
\<close>

definition idle_like :: "ConnState option \<Rightarrow> bool" where
  "idle_like st \<longleftrightarrow> st = Some StateIdle \<or> st = Some StateNew"

definition srv_inv :: "Server \<Rightarrow> bool" where
  "srv_inv s \<longleftrightarrow> finite (dom (conns s)) \<and> wg s \<ge> 1 + int (card (dom (conns s))) \<and>
     (\<forall>c. conns s c \<noteq> Some StateHijacked \<and> conns s c \<noteq> Some StateClosed) \<and>
     (closed s \<longrightarrow> (\<forall>c. idle_like (conns s c) \<longrightarrow> connClosed s c))"

lemma callOldHook_simps [simp]:
  "conns (callOldHook c cs s) = conns s" "wg (callOldHook c cs s) = wg s"
  "closed (callOldHook c cs s) = closed s" "connClosed (callOldHook c cs s) = connClosed s"
  by (simp_all add: callOldHook_def)

lemma closeConn_simps [simp]:
  "conns (closeConn c s) = conns s" "wg (closeConn c s) = wg s" "closed (closeConn c s) = closed s"
  "connClosed (closeConn c s) = (connClosed s)(c := True)"
  by (simp_all add: closeConn_def)

lemma card_dom_upd_new: "finite (dom m) \<Longrightarrow> m c = None \<Longrightarrow> card (dom (m(c \<mapsto> v))) = card (dom m) + 1"
  by (simp add: domIff)

lemma card_dom_del: "finite (dom m) \<Longrightarrow> m c \<noteq> None \<Longrightarrow> card (dom m) = card (dom (m(c := None))) + 1"
  by (metis Suc_eq_plus1 card_Suc_Diff1 domIff dom_fun_upd)

lemma srv_inv_track:
  assumes "srv_inv s" and "conns s c \<noteq> None" and "st = StateActive \<or> st = StateIdle \<and> \<not> closed s"
  shows "srv_inv (s\<lparr>conns := (conns s)(c \<mapsto> st)\<rparr>)"
  using assms by (auto simp: srv_inv_def idle_like_def insert_absorb domIff)

lemma connHook_inv:
  assumes "srv_inv s"
  shows "srv_inv (fst (connHook c cs s))"
proof (cases cs)
  case StateNew
  then show ?thesis
    using assms card_dom_upd_new [of "conns s" c StateNew]
    by (auto simp: connHook_def Let_def srv_inv_def idle_like_def)
next
  case StateActive
  then show ?thesis
    using assms by (auto simp: connHook_def srv_inv_def idle_like_def insert_absorb domIff split: option.splits)
next
  case StateIdle
  then show ?thesis
    using assms by (auto simp: connHook_def Let_def srv_inv_def idle_like_def insert_absorb domIff split: option.splits)
next
  case StateHijacked
  then show ?thesis
    using assms card_dom_del [of "conns s" c]
    by (auto simp: connHook_def forgetConn_def wgDone_def srv_inv_def idle_like_def split: option.splits)
next
  case StateClosed
  then show ?thesis
    using assms card_dom_del [of "conns s" c]
    by (auto simp: connHook_def forgetConn_def wgDone_def srv_inv_def idle_like_def split: option.splits)
qed

lemma Start_started:
  assumes "Start (NewUnstartedServer l hook) = Inr s"
  shows "conns s = Map.empty" "wg s = 1" "\<not> closed s" "connClosed s = (\<lambda>_. False)" "serving s"
  using assms by (cases l; simp add: Start_def NewUnstartedServer_def; fastforce)+

interpretation srv: invariant srv_started srv_step srv_inv
proof
  fix s assume "srv_started s"
  then obtain l hook where "Start (NewUnstartedServer l hook) = Inr s"
    by (auto simp: srv_started_def)
  then show "srv_inv s"
    by (simp add: Start_started srv_inv_def)
next
  fix s t assume "srv_inv s" and "srv_step s t"
  from this(2,1) show "srv_inv t"
  proof cases
    case (hook c cs p)
    then show ?thesis using connHook_inv [of s c cs] \<open>srv_inv s\<close> by simp
  next
    case close
    then show ?thesis using \<open>srv_inv s\<close> by (auto simp: Close_def srv_inv_def idle_like_def)
  next
    case serve
    then show ?thesis using \<open>srv_inv s\<close> by (auto simp: serveReturned_def srv_inv_def)
  next
    case (drop c)
    then show ?thesis using \<open>srv_inv s\<close> by (auto simp: srv_inv_def)
  qed
qed

section \<open>The documented connection protocol\<close>

text \<open>
  The transitions that the documentation of \<^verbatim>\<open>http.ConnState\<close> allows: a connection begins as new,
  goes to active or closed; from active to idle, hijacked or closed; from idle to active or
  closed; hijacked and closed are terminal. \<open>track\<close> follows a trace of reports by it, without
  looking at the server.
\<close>

fun legal_next :: "ConnState option \<Rightarrow> ConnState \<Rightarrow> bool" where
  "legal_next None StateNew = True"
| "legal_next (Some StateNew) StateActive = True"
| "legal_next (Some StateNew) StateClosed = True"
| "legal_next (Some StateActive) StateIdle = True"
| "legal_next (Some StateActive) StateHijacked = True"
| "legal_next (Some StateActive) StateClosed = True"
| "legal_next (Some StateIdle) StateActive = True"
| "legal_next (Some StateIdle) StateClosed = True"
| "legal_next _ _ = False"

definition next_phase :: "ConnState \<Rightarrow> ConnState option" where
  "next_phase cs = (if cs = StateHijacked \<or> cs = StateClosed then None else Some cs)"

fun track :: "(conn \<rightharpoonup> ConnState) \<Rightarrow> (conn \<times> ConnState) list \<Rightarrow> (conn \<rightharpoonup> ConnState) option" where
  "track ph [] = Some ph"
| "track ph ((c, cs) # evs) =
     (if legal_next (ph c) cs then track (ph(c := next_phase cs)) evs else None)"

text \<open>The server handling a trace of reports, stopped by the first panic.\<close>

fun runHooks :: "(conn \<times> ConnState) list \<Rightarrow> Server \<Rightarrow> Server \<times> go_panic option" where
  "runHooks [] s = (s, None)"
| "runHooks ((c, cs) # evs) s =
     (case connHook c cs s of (t, Some p) \<Rightarrow> (t, Some p) | (t, None) \<Rightarrow> runHooks evs t)"

fun_cases legal_nextE: "legal_next st cs"

lemma connHook_legal:
  assumes inv: "srv_inv s" and legal: "legal_next (conns s c) cs"
  shows "snd (connHook c cs s) = None \<and>
    conns (fst (connHook c cs s)) = (conns s)(c := next_phase cs) \<and>
    wg (fst (connHook c cs s)) - int (card (dom ((conns s)(c := next_phase cs)))) =
      wg s - int (card (dom (conns s)))"
proof -
  have fin: "finite (dom (conns s))" and pos: "0 < wg s"
    using inv by (auto simp: srv_inv_def)
  note dels = card_dom_del [OF fin, of c] and upds = card_dom_upd_new [OF fin, of c]
  have same: "card (dom ((conns s)(c \<mapsto> st))) = card (dom (conns s))" if "conns s c \<noteq> None" for st
    using that by (simp add: insert_absorb domIff)
  from legal show ?thesis
    by (elim legal_nextE)
      (use pos dels upds same in \<open>auto simp: connHook_def Let_def forgetConn_def wgDone_def next_phase_def
        simp del: dom_fun_upd\<close>)
qed

lemma runHooks_legal:
  assumes "srv_inv s" and "track (conns s) evs = Some ph"
  shows "\<exists>t. runHooks evs s = (t, None) \<and> conns t = ph \<and> srv_inv t \<and>
    wg t - int (card (dom ph)) = wg s - int (card (dom (conns s)))"
  using assms
proof (induction evs arbitrary: s)
  case (Cons e evs)
  obtain c cs where e: "e = (c, cs)" by force
  let ?t = "fst (connHook c cs s)"
  have legal: "legal_next (conns s c) cs" and tr: "track ((conns s)(c := next_phase cs)) evs = Some ph"
    using Cons.prems(2) by (auto simp: e split: if_splits)
  note h = connHook_legal [OF Cons.prems(1) legal]
  have "srv_inv ?t" using Cons.prems(1) by (rule connHook_inv)
  moreover have "track (conns ?t) evs = Some ph" using h tr by metis
  ultimately obtain t where "runHooks evs ?t = (t, None)" "conns t = ph" "srv_inv t"
      "wg t - int (card (dom ph)) = wg ?t - int (card (dom (conns ?t)))"
    using Cons.IH by blast
  moreover have "runHooks (e # evs) s = runHooks evs ?t"
    using h by (cases "connHook c cs s") (simp add: e)
  ultimately show ?case using h by (metis (no_types))
qed simp

section \<open>CloseClientConnections\<close>

text \<open>
  \<open>CloseClientConnections\<close> starts one goroutine per tracked connection; each closes its connection
  and sends on a channel of capacity \<open>nconn\<close>. The caller receives \<open>nconn\<close> times or gives up when the
  timer fires. \<open>pending\<close> are the goroutines that have not sent yet, \<open>inChan\<close> the values in the
  channel; a send needs a free slot.
\<close>

record closing =
  srv :: Server
  nconn :: nat
  pending :: "conn list"
  inChan :: nat
  received :: nat
  gaveUp :: bool

definition CloseClientConnections :: "conn list \<Rightarrow> Server \<Rightarrow> closing" where
  "CloseClientConnections cs s =
     \<lparr>srv = s, nconn = length cs, pending = cs, inChan = 0, received = 0, gaveUp = False\<rparr>"

definition canSend :: "closing \<Rightarrow> bool" where
  "canSend k \<longleftrightarrow> inChan k < nconn k"

inductive closing_step :: "closing \<Rightarrow> closing \<Rightarrow> bool" where
  closeConnChan: "pending k = xs @ c # ys \<Longrightarrow> canSend k \<Longrightarrow>
     closing_step k (k\<lparr>srv := closeConn c (srv k), pending := xs @ ys, inChan := inChan k + 1\<rparr>)"
| receive: "\<not> gaveUp k \<Longrightarrow> received k < nconn k \<Longrightarrow> 0 < inChan k \<Longrightarrow>
     closing_step k (k\<lparr>inChan := inChan k - 1, received := received k + 1\<rparr>)"
| timer: "\<not> gaveUp k \<Longrightarrow> received k < nconn k \<Longrightarrow> closing_step k (k\<lparr>gaveUp := True\<rparr>)"

definition closing_done :: "closing \<Rightarrow> bool" where
  "closing_done k \<longleftrightarrow> gaveUp k \<or> received k = nconn k"

definition closing_inv :: "conn set \<Rightarrow> closing \<Rightarrow> bool" where
  "closing_inv S k \<longleftrightarrow> length (pending k) + inChan k + received k = nconn k \<and>
     (\<forall>c\<in>S. c \<in> set (pending k) \<or> connClosed (srv k) c)"

interpretation closing: invariant "\<lambda>k. k = CloseClientConnections cs s" closing_step "closing_inv (set cs)" for cs s
proof
  fix k assume "k = CloseClientConnections cs s"
  then show "closing_inv (set cs) k" by (simp add: CloseClientConnections_def closing_inv_def)
next
  fix k l assume "closing_inv (set cs) k" and "closing_step k l"
  from this(2,1) show "closing_inv (set cs) l"
    by cases (auto simp: closing_inv_def)
qed

text \<open>
  \<open>doServerContent\<close>, which nothing calls: it reads chunks of at most 512 bytes (\<open>chunks\<close>) until an
  error, prints them, closes the connection and releases a unit of the wait group.
\<close>

definition doServerContent :: "conn \<Rightarrow> string list \<Rightarrow> Server \<Rightarrow> string list \<times> Server go" where
  "doServerContent c chunks s = (map (\<lambda>b. ''Received data: '' @ b) chunks, wgDone (closeConn c s))"

section \<open>Properties\<close>

text \<open>A concrete started server, for the examples.\<close>

definition exServer :: Server where
  "exServer = (NewUnstartedServer (Some ''a'') False)\<lparr>URL := ''http://a'', wrapped := True, wg := 1, serving := True\<rparr>"

lemma exServer_started: "srv_started exServer"
  unfolding srv_started_def
  by (intro exI [of _ "Some ''a''"] exI [of _ False])
    (simp add: Start_def NewUnstartedServer_def exServer_def)

lemma exServer_closed: "reachable srv_started srv_step (serveReturned (Close exServer))"
proof -
  have "reachable srv_started srv_step (Close exServer)"
    using exServer_started by (blast intro: reachable_init reachable_step srv_step.close)
  moreover have "serving (Close exServer)" by (simp add: Close_def exServer_def)
  ultimately show ?thesis by (blast intro: reachable_step srv_step.serve)
qed

text \<open>
  C36: After \<open>Start\<close> the wait group never reaches zero, whatever connections come and go and even
  after \<open>Close\<close>: \<open>goServe\<close> waits for a unit that only its own deferred \<^verbatim>\<open>Done\<close> would release, so
  neither \<open>Start\<close> nor any call of \<open>Close\<close> ever returns.\<close>

theorem Start_and_Close_block:
  assumes "reachable srv_started srv_step s"
  shows "goServeReturn s = None \<and> \<not> CloseReturns s \<and> wg s \<ge> 1 + int (card (dom (conns s)))"
  using srv.inv_reachable [OF assms]
  by (auto simp: srv_inv_def goServeReturn_def CloseReturns_def waitReturns_def)

theorem Start_and_Close_block_witness:
  "reachable srv_started srv_step (serveReturned (Close exServer)) \<and>
   goServeReturn (serveReturned (Close exServer)) = None \<and> \<not> CloseReturns (serveReturned (Close exServer))"
  using Start_and_Close_block [OF exServer_closed] exServer_closed by simp

text \<open>
  C37: Once \<open>Close\<close> has been called, every tracked connection that is new or idle has been closed,
  also one that was accepted or became idle after the call.\<close>

theorem closed_server_closes_idle:
  assumes "reachable srv_started srv_step s" and "closed s"
    and "conns s c = Some StateIdle \<or> conns s c = Some StateNew"
  shows "connClosed s c"
  using srv.inv_reachable [OF assms(1)] assms(2,3) by (auto simp: srv_inv_def idle_like_def)

theorem closed_server_closes_idle_witness:
  "\<exists>s. reachable srv_started srv_step s \<and> closed s \<and> conns s 5 = Some StateNew \<and> connClosed s 5"
proof -
  let ?s = "fst (connHook 5 StateNew (Close exServer))"
  have r: "reachable srv_started srv_step ?s"
    using exServer_started
    by (metis prod.collapse reachable_init reachable_step srv_step.close srv_step.hook)
  moreover have "closed ?s" "conns ?s 5 = Some StateNew"
    by (simp_all add: connHook_def Let_def Close_def exServer_def NewUnstartedServer_def)
  ultimately show ?thesis using closed_server_closes_idle [OF r, of 5] by blast
qed

text \<open>
  C38: Under the connection protocol that \<^verbatim>\<open>net/http\<close> documents the hook never panics, the server's
  map is exactly the set of live connections with their states, and the wait group counts them.\<close>

theorem hook_follows_protocol:
  assumes "srv_started s" and "track Map.empty evs = Some ph"
  shows "\<exists>t. runHooks evs s = (t, None) \<and> conns t = ph \<and> wg t = 1 + int (card (dom ph))"
proof -
  obtain l hook where "Start (NewUnstartedServer l hook) = Inr s"
    using assms(1) by (auto simp: srv_started_def)
  note st = Start_started [OF this]
  show ?thesis
    using runHooks_legal [OF srv.inv_init [OF assms(1)], of evs ph] assms(2) st by auto
qed

theorem hook_follows_protocol_witness:
  "\<exists>t. runHooks [(1, StateNew), (2, StateNew), (1, StateActive), (2, StateClosed), (1, StateIdle)] exServer = (t, None) \<and>
    conns t = (Map.empty(1 := Some StateIdle)) \<and> wg t = 2"
proof -
  let ?evs = "[(1, StateNew), (2, StateNew), (1, StateActive), (2, StateClosed), (1, StateIdle)]"
  have tr: "track Map.empty ?evs = Some (Map.empty(1 := Some StateIdle))"
    by (auto simp: next_phase_def)
  show ?thesis using hook_follows_protocol [OF exServer_started tr] by simp
qed

text \<open>
  A report that the documented protocol does not allow for a tracked connection makes the hook
  panic with "invalid state transition" and leaves the tracked states alone.\<close>

theorem hook_rejects_bad_transition:
  assumes "conns s c = Some st" and "\<not> legal_next (Some st) cs" and "cs \<noteq> StateHijacked" and "cs \<noteq> StateClosed"
  shows "snd (connHook c cs s) = Some badTransition \<and> conns (fst (connHook c cs s)) = conns s"
  using assms by (cases st; cases cs) (simp_all add: connHook_def Let_def)

theorem hook_rejects_bad_transition_witness:
  "snd (connHook 1 StateIdle (exServer\<lparr>conns := Map.empty(1 \<mapsto> StateNew)\<rparr>)) = Some badTransition"
  using hook_rejects_bad_transition [of "exServer\<lparr>conns := Map.empty(1 \<mapsto> StateNew)\<rparr>" 1 StateNew StateIdle]
  by simp

text \<open>
  No goroutine of \<open>CloseClientConnections\<close> blocks on its channel, even after the caller has given
  up waiting: as long as one has not sent, the channel has a free slot; and when the caller has
  received all values, every connection it was started for is closed.\<close>

theorem closers_never_block:
  assumes "reachable (\<lambda>k. k = CloseClientConnections cs s) closing_step k"
  shows "(pending k \<noteq> [] \<longrightarrow> canSend k) \<and>
    (received k = nconn k \<longrightarrow> (\<forall>c\<in>set cs. connClosed (srv k) c))"
proof -
  have inv: "closing_inv (set cs) k" using closing.inv_reachable [OF assms] .
  then have "pending k = []" if "received k = nconn k" using that by (auto simp: closing_inv_def)
  then show ?thesis using inv by (cases "pending k") (auto simp: closing_inv_def canSend_def)
qed

theorem closers_never_block_witness:
  "\<exists>k. reachable (\<lambda>k. k = CloseClientConnections [4, 7] exServer) closing_step k \<and> pending k = [7] \<and> canSend k"
proof -
  let ?start = "CloseClientConnections [4, 7] exServer"
  let ?k = "?start\<lparr>srv := closeConn 4 (srv ?start), pending := [] @ [7], inChan := inChan ?start + 1\<rparr>"
  have "closing_step ?start ?k"
    by (rule closing_step.closeConnChan [of _ "[]"]) (simp_all add: CloseClientConnections_def canSend_def)
  then have r: "reachable (\<lambda>k. k = ?start) closing_step ?k"
    by (blast intro: reachable_init reachable_step)
  show ?thesis using closers_never_block [OF r] r by force
qed

text \<open>
  When the port is taken, \<open>newLocalListener\<close> ignores the error of \<^verbatim>\<open>net.ListenTCP\<close> and returns a
  nil listener, and \<open>Start\<close> panics with a nil dereference; with an address, \<open>Start\<close> succeeds exactly
  once.\<close>

theorem Start_without_listener:
  assumes "resolve ''127.0.0.1:12666'' = Some addr"
  shows "newLocalListener resolve listen listenTCP '''' = Inr (listenTCP addr) \<and>
    (listenTCP addr = None \<longrightarrow>
       gbind (NewServer resolve listen listenTCP '''' hook) Start = Inl NilDereference) \<and>
    (listenTCP addr = Some l \<longrightarrow>
       (\<exists>s. gbind (NewServer resolve listen listenTCP '''' hook) Start = Inr s \<and>
            URL s = ''http://'' @ l \<and> Start s = Inl (PanicMessage ''Server already started'')))"
  using assms by (simp add: newLocalListener_def NewServer_def Start_def NewUnstartedServer_def)

theorem Start_without_listener_witness:
  "gbind (NewServer Some Some (\<lambda>_. None) '''' False) Start = Inl NilDereference"
  using Start_without_listener [of Some "''127.0.0.1:12666''" Some "\<lambda>_. None" False "''''"] by simp

end
