(* ===== verification/HttpRequest.thy ===== *)
theory HttpRequest
  imports HttpServer
begin

text \<open>
  The constructor of server requests for tests (\<open>src/main/httptest/httptest.go\<close>). The request parser
  of \<open>net/http\<close> is a parameter: it is given the text the constructor builds and returns an error or
  a request.
\<close>

section \<open>Requests\<close>

text \<open>
  A body by the dynamic type of the reader: the three whose remaining length is known, with it, or
  another reader; \<open>closer\<close> tells whether the reader can be closed itself (\<open>io.ReadCloser\<close>). The first
  three types have no \<open>Close\<close> method.
\<close>

datatype bodyReader =
    BytesBuffer nat
  | BytesReader nat
  | StringsReader nat
  | OtherReader (closer: bool)

text \<open>The body of a request: as parsed, the reader itself, or the reader wrapped by \<open>NopCloser\<close>.\<close>

datatype requestBody = NoBody | Direct bodyReader | NopCloser bodyReader

record tlsState =
  tls_Version :: nat
  tls_HandshakeComplete :: bool
  tls_ServerName :: string

record httpReq =
  rq_Method :: string
  rq_RequestURI :: string
  rq_Proto :: string
  rq_ProtoMajor :: nat
  rq_ProtoMinor :: nat
  rq_Close :: bool
  rq_ContentLength :: goint
  rq_Body :: requestBody
  rq_RemoteAddr :: string
  rq_Host :: string
  rq_TLS :: "tlsState option"

section \<open>\<open>NewRequest\<close>\<close>

definition crlf :: string where
  "crlf = [CHR 0x0D, CHR 0x0A]"

definition requestText :: "string \<Rightarrow> string \<Rightarrow> string" where
  "requestText method target =
     (if method = '''' then ''GET'' else method) @ '' '' @ target @ '' HTTP/1.0'' @ crlf @ crlf"

definition contentLength :: "bodyReader \<Rightarrow> goint" where
  "contentLength b =
     (case b of BytesBuffer n \<Rightarrow> of_nat n | BytesReader n \<Rightarrow> of_nat n | StringsReader n \<Rightarrow> of_nat n
      | OtherReader c \<Rightarrow> -1)"

definition setBody :: "bodyReader option \<Rightarrow> httpReq \<Rightarrow> httpReq" where
  "setBody body req =
     (case body of
        None \<Rightarrow> req
      | Some b \<Rightarrow> req\<lparr>rq_ContentLength := contentLength b,
                      rq_Body := (case b of OtherReader True \<Rightarrow> Direct b | _ \<Rightarrow> NopCloser b)\<rparr>)"

definition NewRequest ::
  "(string \<Rightarrow> string + httpReq) \<Rightarrow> string \<Rightarrow> string \<Rightarrow> bodyReader option \<Rightarrow> httpReq go" where
  "NewRequest readRequest method target body =
     (case readRequest (requestText method target) of
        Inl err \<Rightarrow> Inl (PanicMessage (''invalid NewRequest arguments; '' @ err))
      | Inr req \<Rightarrow>
          (let req1 = setBody body (req\<lparr>rq_Proto := ''HTTP/1.1'', rq_ProtoMinor := 1, rq_Close := False\<rparr>);
               req2 = req1\<lparr>rq_RemoteAddr := ''192.0.2.1:1234'',
                           rq_Host := (if rq_Host req1 = '''' then ''example.com'' else rq_Host req1)\<rparr>
           in Inr (if HasPrefix target ''https://''
                   then req2\<lparr>rq_TLS := Some \<lparr>tls_Version = 0x0303, tls_HandshakeComplete = True,
                                              tls_ServerName = rq_Host req2\<rparr>\<rparr>
                   else req2)))"

section \<open>Properties\<close>

text \<open>
  The documented contract of \<open>NewRequest\<close>. It panics exactly when the request line it builds does
  not parse. Otherwise the request is an HTTP/1.1 request that keeps the connection open and has a
  host, that of an absolute target or \<open>example.com\<close>; it has a TLS state, for that host, exactly when
  the target has the scheme \<open>https\<close>; its length is that of the body for the three reader types of the
  library and \<open>-1\<close> for others, a nil body leaves the parsed one; the empty method means \<open>GET\<close>.
\<close>

theorem NewRequest_contract:
  assumes "\<forall>text req. readRequest text = Inr req \<longrightarrow> rq_TLS req = None"
  shows "(case readRequest (requestText method target) of
      Inl err \<Rightarrow> NewRequest readRequest method target body = Inl (PanicMessage (''invalid NewRequest arguments; '' @ err))
    | Inr req \<Rightarrow> \<exists>r. NewRequest readRequest method target body = Inr r \<and>
        rq_Method r = rq_Method req \<and> rq_Proto r = ''HTTP/1.1'' \<and> rq_ProtoMinor r = 1 \<and> \<not> rq_Close r \<and>
        rq_Host r = (if rq_Host req = '''' then ''example.com'' else rq_Host req) \<and> rq_Host r \<noteq> '''' \<and>
        (rq_TLS r \<noteq> None \<longleftrightarrow> HasPrefix target ''https://'') \<and>
        (\<forall>t. rq_TLS r = Some t \<longrightarrow> tls_ServerName t = rq_Host r) \<and>
        (case body of
           None \<Rightarrow> rq_ContentLength r = rq_ContentLength req \<and> rq_Body r = rq_Body req
         | Some (OtherReader c) \<Rightarrow> sint (rq_ContentLength r) = -1
         | Some b \<Rightarrow> rq_ContentLength r = contentLength b \<and> rq_Body r = NopCloser b)) \<and>
    NewRequest readRequest '''' target body = NewRequest readRequest ''GET'' target body"
proof -
  have "requestText '''' target = requestText ''GET'' target" by (simp add: requestText_def)
  then show ?thesis
    using assms
    by (cases "readRequest (requestText method target)"; cases body)
      (auto simp: NewRequest_def Let_def setBody_def contentLength_def split: bodyReader.split sum.split)
qed

text \<open>A parser of request lines with a path or an absolute target, enough for an example.\<close>

definition demo_readRequest :: "string \<Rightarrow> string + httpReq" where
  "demo_readRequest text =
     (let meth = takeWhile (\<lambda>c. c \<noteq> CHR '' '') text;
          uri = takeWhile (\<lambda>c. c \<noteq> CHR '' '') (drop (length meth + 1) text);
          host = (if HasPrefix uri ''https://'' then takeWhile (\<lambda>c. c \<noteq> CHR ''/'') (drop 8 uri) else '''')
      in if uri = '''' then Inl ''malformed HTTP request''
         else Inr \<lparr>rq_Method = meth, rq_RequestURI = uri, rq_Proto = ''HTTP/1.0'', rq_ProtoMajor = 1,
           rq_ProtoMinor = 0, rq_Close = True, rq_ContentLength = 0, rq_Body = NoBody, rq_RemoteAddr = '''',
           rq_Host = host, rq_TLS = None\<rparr>)"

theorem NewRequest_contract_witness:
  "\<exists>r. NewRequest demo_readRequest '''' ''https://node/rpc'' (Some (BytesBuffer 5)) = Inr r \<and>
     rq_Host r = ''node'' \<and> rq_TLS r \<noteq> None \<and> rq_ContentLength r = 5"
proof -
  have "demo_readRequest t = Inr req \<Longrightarrow> rq_TLS req = None" for t req
    by (auto simp: demo_readRequest_def Let_def split: if_splits)
  moreover have "\<exists>req. demo_readRequest (requestText '''' ''https://node/rpc'') = Inr req \<and> rq_Host req = ''node''"
    by (simp add: demo_readRequest_def requestText_def HasPrefix_def crlf_def)
  ultimately show ?thesis
    using NewRequest_contract [of demo_readRequest "''''" "''https://node/rpc''" "Some (BytesBuffer 5)"]
    by (auto simp: HasPrefix_def contentLength_def)
qed

end
