(* ===== verification/RpcTypes.thy ===== *)
theory RpcTypes
  imports Prelude
begin

text \<open>
  The vocabulary of package \<open>rpc\<close> (\<open>src/main/rpc/util.go\<close> and the struct types of
  \<open>handler.go\<close>, \<open>client.go\<close> and \<open>websocket.go\<close>): Go types as \<open>reflect\<close> sees them, Go values,
  JSON documents, requests, responses and frames, and what a request or a response becomes when
  it crosses the wire. The base64 codec is the standard library's \<open>StdEncoding\<close>.
\<close>

section \<open>Base64\<close>

definition b64chars :: string where
  "b64chars = ''ABCDEFGHIJKLMNOPQRSTUVWXYZabcdefghijklmnopqrstuvwxyz0123456789+/''"

text \<open>The position of a character in a list, if it occurs there.\<close>

fun index_of :: "'a \<Rightarrow> 'a list \<Rightarrow> nat option" where
  "index_of x [] = None"
| "index_of x (y # ys) = (if x = y then Some 0 else map_option Suc (index_of x ys))"

definition b64char :: "nat \<Rightarrow> char" where
  "b64char n = b64chars ! (n mod 64)"

definition b64val :: "char \<Rightarrow> nat option" where
  "b64val c = index_of c b64chars"

text \<open>\<open>EncodeToString\<close>: three bytes become four characters, the last group is padded.\<close>

fun b64encode :: "byte list \<Rightarrow> string" where
  "b64encode [] = []"
| "b64encode [a] = [b64char (unat a div 4), b64char (unat a mod 4 * 16), CHR ''='', CHR ''='']"
| "b64encode [a, b] =
     [b64char (unat a div 4), b64char (unat a mod 4 * 16 + unat b div 16),
      b64char (unat b mod 16 * 4), CHR ''='']"
| "b64encode (a # b # c # bs) =
     [b64char (unat a div 4), b64char (unat a mod 4 * 16 + unat b div 16),
      b64char (unat b mod 16 * 4 + unat c div 64), b64char (unat c mod 64)] @ b64encode bs"

text \<open>
  \<open>Decode\<close>: line breaks are skipped, padding is allowed only in the last group, and the unused
  bits of that group are not checked (the encoding is not \<open>Strict\<close>).
\<close>

fun b64quads :: "string \<Rightarrow> byte list option" where
  "b64quads [] = Some []"
| "b64quads (p # q # r # s # cs) =
     (case (b64val p, b64val q) of
        (Some x, Some y) \<Rightarrow>
          let a = word_of_nat (x * 4 + y div 16) in
          (if r = CHR ''='' \<and> s = CHR ''='' then (if cs = [] then Some [a] else None)
           else case b64val r of
             None \<Rightarrow> None
           | Some z \<Rightarrow>
               let b = word_of_nat (y mod 16 * 16 + z div 4) in
               (if s = CHR ''='' then (if cs = [] then Some [a, b] else None)
                else case b64val s of
                  None \<Rightarrow> None
                | Some w \<Rightarrow> map_option (\<lambda>bs. a # b # word_of_nat (z mod 4 * 64 + w) # bs) (b64quads cs)))
      | _ \<Rightarrow> None)"
| "b64quads _ = None"

definition b64decode :: "string \<Rightarrow> byte list option" where
  "b64decode cs = b64quads (filter (\<lambda>c. c \<noteq> CHR 0x0A \<and> c \<noteq> CHR 0x0D) cs)"

definition DecodedLen :: "nat \<Rightarrow> nat" where
  "DecodedLen n = n div 4 * 3"

lemma index_of_nth: "distinct xs \<Longrightarrow> i < length xs \<Longrightarrow> index_of (xs ! i) xs = Some i"
proof (induction xs arbitrary: i)
  case (Cons x xs)
  then show ?case by (cases i) auto
qed simp

lemma b64chars_props:
  "length b64chars = 64" "distinct b64chars" "CHR ''='' \<notin> set b64chars"
  "CHR 0x0A \<notin> set b64chars" "CHR 0x0D \<notin> set b64chars"
  by (code_simp)+

lemma b64val_char [simp]: "n < 64 \<Longrightarrow> b64val (b64char n) = Some n"
  by (simp add: b64val_def b64char_def index_of_nth b64chars_props)

lemma b64char_in: "b64char n \<in> set b64chars"
  by (simp add: b64char_def b64chars_props)

lemma b64char_neq [simp]:
  "b64char n \<noteq> CHR ''=''" "b64char n \<noteq> CHR 0x0A" "b64char n \<noteq> CHR 0x0D"
  using b64char_in [of n] b64chars_props by metis+

lemma unat_byte_less: "unat (a :: byte) < 256"
  using unsigned_less [of a, where 'a = nat] by simp

lemma byte_split2: "word_of_nat (unat a div 4 * 4 + unat a mod 4) = (a :: byte)"
  by simp

lemma b64_group:
  fixes a b c :: byte
  shows "unat a div 4 < 64 \<and> unat a mod 4 * 16 + unat b div 16 < 64 \<and> unat a mod 4 * 16 < 64
    \<and> unat b mod 16 * 4 + unat c div 64 < 64 \<and> unat b mod 16 * 4 < 64 \<and> unat c mod 64 < 64
    \<and> unat b div 16 < 16 \<and> unat c div 64 < 4"
proof -
  have "x div 4 < 64 \<and> x mod 4 * 16 + y div 16 < 64 \<and> x mod 4 * 16 < 64 \<and> y mod 16 * 4 + z div 64 < 64
    \<and> y mod 16 * 4 < 64 \<and> z mod 64 < 64 \<and> y div 16 < 16 \<and> z div 64 < 4"
    if "x < 256" "y < 256" "z < 256" for x y z :: nat
  proof -
    have "x div 4 < 64" "y div 16 < 16" "z div 64 < 4"
      using that by (simp_all add: less_mult_imp_div_less)
    moreover have "x mod 4 < 4" "y mod 16 < 16" "z mod 64 < 64" by simp_all
    ultimately show ?thesis by linarith
  qed
  from this [OF unat_byte_less [of a] unat_byte_less [of b] unat_byte_less [of c]]
  show ?thesis .
qed

lemma b64quads_encode: "b64quads (b64encode bs) = Some bs"
proof (induction bs rule: b64encode.induct)
  case (2 a)
  then show ?case using b64_group [of a 0 0] by simp
next
  case (3 a b)
  then show ?case using b64_group [of a b 0] by (simp add: Let_def)
next
  case (4 a b c bs)
  then show ?case using b64_group [of a b c] b64_group [of b c] by (simp add: Let_def)
qed simp

lemma b64encode_no_break: "\<forall>c\<in>set (b64encode bs). c \<noteq> CHR 0x0A \<and> c \<noteq> CHR 0x0D"
  by (induction bs rule: b64encode.induct) auto

lemma b64decode_encode: "b64decode (b64encode bs) = Some bs"
  using b64encode_no_break [of bs] by (simp add: b64decode_def b64quads_encode filter_id_conv)

lemma length_b64encode: "length (b64encode bs) = (length bs + 2) div 3 * 4"
proof (induction bs rule: b64encode.induct)
  case (4 a b c bs)
  have "(n + 5) div 3 = Suc ((n + 2) div 3)" for n :: nat by presburger
  from this [of "length bs"] have "(length (a # b # c # bs) + 2) div 3 = Suc ((length bs + 2) div 3)"
    by (simp add: add.commute)
  with 4 show ?case by simp
qed auto

section \<open>Types and values as \<open>reflect\<close> sees them\<close>

text \<open>
  A Go type is one of those the sources test for (the \<open>error\<close> and \<open>context.Context\<close> interfaces,
  channels, functions, pointers, structs) or any other type, by its name.
\<close>

datatype gotype =
    ErrorT
  | ContextT
  | ChanT gotype
  | FuncT "gotype list" "gotype list"
  | PtrT gotype
  | StructT "(string \<times> gotype) list"
  | NamedT string

fun is_chan :: "gotype \<Rightarrow> bool" where
  "is_chan (ChanT t) = True"
| "is_chan _ = False"

text \<open>
  A dynamic value: the nil interface, an error (by its text), a channel, a context, a \<open>uint64\<close>, a
  receiver or any other value \<open>'v\<close>.
\<close>

datatype 'v goval =
    GNil
  | GError string
  | GChan nat
  | GCtx nat
  | GUint uint64
  | GVal 'v

section \<open>Function results (\<open>util.go\<close>)\<close>

text \<open>\<open>processFuncOut\<close>: the positions of the value and of the error, \<open>-1\<close> when absent, and the count.\<close>

definition processFuncOut :: "gotype list \<Rightarrow> (int \<times> int \<times> nat) go" where
  "processFuncOut outs =
     (case outs of
        [] \<Rightarrow> Inr (-1, -1, 0)
      | [t] \<Rightarrow> Inr (if t = ErrorT then (-1, 0, 1) else (0, -1, 1))
      | [t, e] \<Rightarrow> if e \<noteq> ErrorT then Inl (PanicMessage ''expected error as second return value'')
                  else Inr (0, 1, 2)
      | _ \<Rightarrow> Inl (PanicMessage ''too many return values''))"

lemma processFuncOut_cases:
  assumes "processFuncOut outs = Inr (v, e, n)"
  obtains "outs = []" "v = -1" "e = -1" "n = 0"
  | "outs = [ErrorT]" "v = -1" "e = 0" "n = 1"
  | t where "outs = [t]" "t \<noteq> ErrorT" "v = 0" "e = -1" "n = 1"
  | t where "outs = [t, ErrorT]" "v = 0" "e = 1" "n = 2"
  using assms by (auto simp: processFuncOut_def split: list.splits if_splits)

text \<open>
  \<open>processFuncOut\<close> accepts exactly the signatures with no result, one result, or a result
  and an \<open>error\<close>; the positions it returns are in range, never coincide, point at the \<open>error\<close>
  result and at a result, and \<open>-1\<close> stands for absence only.
\<close>

theorem processFuncOut_spec:
  "processFuncOut outs = Inr (v, e, n) \<longleftrightarrow>
     n = length outs \<and> n \<le> 2 \<and>
     (if n = 2 then outs ! 1 = ErrorT \<and> v = 0 \<and> e = 1
      else if n = 1 then (if outs ! 0 = ErrorT then v = -1 \<and> e = 0 else v = 0 \<and> e = -1)
      else v = -1 \<and> e = -1)"
proof -
  consider "outs = []" | t where "outs = [t]" | t u where "outs = [t, u]"
    | t u w ts where "outs = t # u # w # ts"
    by (metis list.exhaust)
  then show ?thesis by cases (auto simp: processFuncOut_def)
qed

section \<open>JSON\<close>

text \<open>
  A document is a JSON value (a number literal that is not an integer is kept as text). A byte
  slice that should hold one is \<open>Malformed\<close> or a document; a nil slice is \<open>None\<close>.
\<close>

datatype json =
    JNull
  | JBool bool
  | JInt int
  | JReal string
  | JStr string
  | JArr "json list"
  | JObj "(string \<times> json) list"

datatype raw = Malformed | Doc json

text \<open>
  \<open>json.Unmarshal\<close> into an \<open>int64\<close> and into a \<open>uint64\<close>: \<open>null\<close> leaves the zero value without an
  error, an integer literal must be in range, everything else is an error (\<open>None\<close>).
\<close>

definition unmarshal_int64 :: "raw option \<Rightarrow> goint option" where
  "unmarshal_int64 d =
     (case d of
        Some (Doc (JInt n)) \<Rightarrow> if - (2 ^ 63) \<le> n \<and> n < 2 ^ 63 then Some (word_of_int n) else None
      | Some (Doc JNull) \<Rightarrow> Some 0
      | _ \<Rightarrow> None)"

definition unmarshal_uint64 :: "raw option \<Rightarrow> uint64 option" where
  "unmarshal_uint64 d =
     (case d of
        Some (Doc (JInt n)) \<Rightarrow> if 0 \<le> n \<and> n < 2 ^ 64 then Some (word_of_int n) else None
      | Some (Doc JNull) \<Rightarrow> Some 0
      | _ \<Rightarrow> None)"

lemma unmarshal_uint64_uint [simp]: "unmarshal_uint64 (Some (Doc (JInt (uint w)))) = Some w"
  using unsigned_less [of w, where 'a = int] by (simp add: unmarshal_uint64_def)

lemma unmarshal_nil [simp]: "unmarshal_int64 None = None" "unmarshal_uint64 None = None"
  by (simp_all add: unmarshal_int64_def unmarshal_uint64_def)

section \<open>Messages\<close>

text \<open>
  \<open>Param\<close>: the raw data received and the value to send. Its methods are called
  \<open>MarshalJson\<close> and \<open>UnmarshalJson\<close>; the interfaces of \<open>encoding/json\<close> ask for \<open>MarshalJSON\<close>
  and \<open>UnmarshalJSON\<close>, so the codec sees a plain struct of two exported fields.
\<close>

record 'v Param =
  p_Data :: "raw option"
  p_V :: "'v goval option"

record 'v request =
  req_Jsonrpc :: string
  req_ID :: "goint option"
  req_Method :: string
  req_Params :: "'v Param list"
  req_Meta :: "(string \<times> string) list option"

record respError =
  re_Code :: int
  re_Message :: string

record 'v response =
  resp_Jsonrpc :: string
  resp_Result :: "'v goval"
  resp_ID :: goint
  resp_Error :: "respError option"

record 'v frame =
  fr_Jsonrpc :: string
  fr_ID :: "goint option"
  fr_Meta :: "(string \<times> string) list option"
  fr_Method :: string
  fr_Params :: "'v Param list"
  fr_Result :: "raw option"
  fr_Error :: "respError option"

record clientResponse =
  cr_Jsonrpc :: string
  cr_Result :: "raw option"
  cr_ID :: "goint option"
  cr_Error :: "respError option"

text \<open>
  What the sources take from elsewhere: the codec of \<open>encoding/json\<close> on user-defined types (which
  may bring their own marshalling methods) and their zero values, and the spans of the tracing
  library. \<open>env_decode\<close> returns the text of the error or the value; \<open>env_callSpan\<close> is
  \<open>trace.StartSpan\<close>, with the new context and \<open>propagation.Binary\<close> of its span.
\<close>

record ('v, 'sc) env =
  env_decode :: "gotype \<Rightarrow> raw option \<Rightarrow> string + 'v goval"
  env_marshal :: "'v goval \<Rightarrow> json option"
  env_zero :: "gotype \<Rightarrow> 'v goval"
  env_callSpan :: "nat \<Rightarrow> nat \<times> byte list"
  env_fromBinary :: "byte list \<Rightarrow> 'sc option"
  env_startSpan :: "nat \<Rightarrow> 'sc \<Rightarrow> nat"

text \<open>\<open>json.Marshal\<close>: the cases fixed by the language are spelled out, a channel has no encoding.\<close>

definition marshal :: "('v, 'sc) env \<Rightarrow> 'v goval \<Rightarrow> json option" where
  "marshal E x =
     (case x of
        GNil \<Rightarrow> Some JNull
      | GUint w \<Rightarrow> Some (JInt (uint w))
      | GChan c \<Rightarrow> None
      | _ \<Rightarrow> env_marshal E x)"

text \<open>\<open>MarshalJson\<close> and \<open>UnmarshalJson\<close> of \<open>Param\<close>, which only the client calls, by name.\<close>

definition MarshalJson :: "('v, 'sc) env \<Rightarrow> 'v Param \<Rightarrow> json option" where
  "MarshalJson E p = (case p_V p of None \<Rightarrow> None | Some v \<Rightarrow> marshal E v)"

definition UnmarshalJson :: "'v Param \<Rightarrow> json option \<Rightarrow> 'v Param" where
  "UnmarshalJson p j = p\<lparr>p_Data := Some (case j of None \<Rightarrow> Malformed | Some d \<Rightarrow> Doc d)\<rparr>"

text \<open>
  The wire. A parameter is encoded as its two fields: \<open>Data\<close> as base64 text (nil as \<open>null\<close>) and
  \<open>V\<close>, a \<open>reflect.Value\<close> without exported fields, as an empty object; \<open>omitempty\<close> drops an empty
  \<open>Params\<close> and an empty \<open>Meta\<close>. A response with a nil \<open>Result\<close> has no \<open>result\<close> member.
\<close>

definition wireParam :: "'v Param \<Rightarrow> 'v Param" where
  "wireParam p = \<lparr>p_Data = p_Data p, p_V = None\<rparr>"

definition frame_of_request :: "'v request \<Rightarrow> 'v frame" where
  "frame_of_request r =
     \<lparr>fr_Jsonrpc = req_Jsonrpc r, fr_ID = req_ID r,
      fr_Meta = (if req_Meta r = Some [] then None else req_Meta r),
      fr_Method = req_Method r, fr_Params = map wireParam (req_Params r),
      fr_Result = None, fr_Error = None\<rparr>"

definition frame_of_response :: "('v, 'sc) env \<Rightarrow> 'v response \<Rightarrow> 'v frame option" where
  "frame_of_response E r =
     (case marshal E (resp_Result r) of
        None \<Rightarrow> None
      | Some j \<Rightarrow> Some
          \<lparr>fr_Jsonrpc = resp_Jsonrpc r, fr_ID = Some (resp_ID r), fr_Meta = None, fr_Method = '''',
           fr_Params = [], fr_Result = (if resp_Result r = GNil then None else Some (Doc j)),
           fr_Error = resp_Error r\<rparr>)"

text \<open>\<open>respError.Error\<close>: the format string holds no verbs, so the placeholders stay as they are.\<close>

definition respError_Error :: "respError \<Rightarrow> string" where
  "respError_Error e =
     (if -32768 \<le> re_Code e \<and> re_Code e \<le> -32000 then ''RPC error #{e.Code}:#{e.Message}''
      else re_Message e)"

text \<open>
  A parameter made by the client's stub (value marshalled by \<open>MarshalJson\<close>, stored by
  \<open>UnmarshalJson\<close>) arrives as the document of its value; one that carries only \<open>V\<close>, as those of
  every cancellation and channel notification do, arrives empty and is not an integer.
\<close>

lemma wireParam_stub:
  "p_Data (wireParam (UnmarshalJson p (MarshalJson E p))) =
     Some (case MarshalJson E p of None \<Rightarrow> Malformed | Some j \<Rightarrow> Doc j)"
  by (simp add: wireParam_def UnmarshalJson_def)

lemma wireParam_value_only:
  "unmarshal_int64 (p_Data (wireParam \<lparr>p_Data = None, p_V = x\<rparr>)) = None"
  "unmarshal_uint64 (p_Data (wireParam \<lparr>p_Data = None, p_V = x\<rparr>)) = None"
  by (simp_all add: wireParam_def)

text \<open>Every error in the reserved range of JSON-RPC has the same text.\<close>

lemma respError_Error_collapses:
  assumes "re_Code e \<in> {-32768..-32000}" "re_Code e' \<in> {-32768..-32000}"
  shows "respError_Error e = respError_Error e'"
  using assms by (simp add: respError_Error_def)

section \<open>An example environment\<close>

text \<open>The environment the witnesses use: integers are the only values.\<close>

definition demo_env :: "(int, byte list) env" where
  "demo_env = \<lparr>env_decode = (\<lambda>t d. case d of Some (Doc (JInt n)) \<Rightarrow> Inr (GVal n) | _ \<Rightarrow> Inl ''EOF''),
     env_marshal = (\<lambda>v. case v of GVal n \<Rightarrow> Some (JInt n) | _ \<Rightarrow> None),
     env_zero = (\<lambda>t. GVal 0), env_callSpan = (\<lambda>ctx. (ctx + 1, [0, 1])),
     env_fromBinary = (\<lambda>bs. if bs = [] then None else Some bs),
     env_startSpan = (\<lambda>ctx sc. ctx + 1)\<rparr>"

end
