(* ===== verification/RpcHandler.thy ===== *)
theory RpcHandler
  imports RpcTypes
begin

text \<open>
  The serving side of package \<open>rpc\<close> (\<open>src/main/rpc/handler.go\<close>, \<open>src/main/rpc/server.go\<close>): method
  registration, the request handler and the HTTP entry point. \<open>handle\<close> acts on its caller only
  through the functions it is given (\<open>w\<close>, \<open>rpcError\<close>, \<open>done\<close>), so it is modelled as the sequence of
  those calls, with the method invocation among them, and the panic that ends it, if one does.
\<close>

section \<open>Registered methods\<close>

text \<open>
  A method as \<open>reflect\<close> gives it: name, parameter types with the receiver first, result types, how
  the function value prints, and the function, which returns its results or panics with a text.
\<close>

record 'v goMethod =
  mt_Name :: string
  mt_In :: "gotype list"
  mt_Out :: "gotype list"
  mt_Fmt :: string
  mt_Call :: "'v goval list \<Rightarrow> string + 'v goval list"

record 'v rpcHandler =
  rh_paramReceivers :: "gotype list"
  rh_nParams :: nat
  rh_receiver :: "'v goval"
  rh_handlerFunc :: "'v goMethod"
  rh_hasCtx :: nat
  rh_errOut :: int
  rh_valOut :: int

type_synonym 'v handlers = "string \<rightharpoonup> 'v rpcHandler"

text \<open>
  \<open>register\<close>: the handler of one method, one iteration of the loop over the methods of \<open>r\<close>, and
  the loop. A method of \<open>r\<close> has at least its receiver as parameter.
\<close>

definition handlerOf :: "'v goval \<Rightarrow> 'v goMethod \<Rightarrow> int \<Rightarrow> int \<Rightarrow> 'v rpcHandler" where
  "handlerOf val method valOut errOut =
     (let ins0 = mt_In method;
          hasCtx = (if 2 \<le> length ins0 \<and> ins0 ! 1 = ContextT then 1 else 0);
          ins = length ins0 - 1 - hasCtx;
          recvs = map (\<lambda>i. ins0 ! (i + 1 + hasCtx)) [0..<ins]
      in \<lparr>rh_paramReceivers = recvs, rh_nParams = ins, rh_receiver = val,
          rh_handlerFunc = method, rh_hasCtx = hasCtx, rh_errOut = errOut, rh_valOut = valOut\<rparr>)"

definition registerMethod ::
  "string \<Rightarrow> 'v goval \<Rightarrow> 'v handlers \<Rightarrow> 'v goMethod \<Rightarrow> 'v handlers go" where
  "registerMethod namespace val h method =
     gbind (processFuncOut (mt_Out method)) (\<lambda>(valOut, errOut, n).
       Inr (h(namespace @ ''.'' @ mt_Name method \<mapsto> handlerOf val method valOut errOut)))"

definition register ::
  "'v handlers \<Rightarrow> string \<Rightarrow> 'v goval \<Rightarrow> 'v goMethod list \<Rightarrow> 'v handlers go" where
  "register h namespace val methods = gfold (registerMethod namespace val) h methods"

definition NewServer_Methods :: "'v handlers" where
  "NewServer_Methods = Map.empty"

section \<open>Handling one request\<close>

text \<open>\<open>getSpan\<close>: the remote span of the request, if its metadata hold a usable one.\<close>

definition getSpan :: "('v, 'sc) env \<Rightarrow> nat \<Rightarrow> 'v request \<Rightarrow> nat" where
  "getSpan E ctx req =
     (case req_Meta req of
        None \<Rightarrow> ctx
      | Some meta \<Rightarrow>
          (case map_of meta ''SpanContext'' of
             None \<Rightarrow> ctx
           | Some esc \<Rightarrow>
               (case b64decode esc of
                  None \<Rightarrow> ctx
                | Some bs \<Rightarrow>
                    let bsc = bs @ replicate (DecodedLen (length esc) - length bs) 0 in
                    (case env_fromBinary E bsc of
                       None \<Rightarrow> ctx
                     | Some sc \<Rightarrow> env_startSpan E ctx sc))))"

definition quote :: "string \<Rightarrow> string" where
  "quote s = CHR 0x27 # s @ [CHR 0x27]"

text \<open>
  \<open>doCall\<close>: a panic of the method, or of \<open>Call\<close> itself on a zero \<open>reflect.Value\<close> (what
  \<open>reflect.ValueOf\<close> gives for a nil interface), is turned into an error.
\<close>

definition doCall :: "string \<Rightarrow> 'v goMethod \<Rightarrow> 'v goval list \<Rightarrow> string + 'v goval list" where
  "doCall methodName f params =
     (case (if GNil \<in> set params then Inl ''reflect: Call using zero Value argument''
            else mt_Call f params) of
        Inl i \<Rightarrow> Inl (''panic in rpc method '' @ quote methodName @ '': '' @ i)
      | Inr out \<Rightarrow> Inr out)"

datatype 'v action =
    RpcError int string
  | Invoke "'v goval list"
  | Respond "'v response"
  | Done bool

text \<open>Reading \<open>xs[i]\<close> with an \<open>int\<close> index.\<close>

definition go_at :: "'a list \<Rightarrow> int \<Rightarrow> 'a go" where
  "go_at xs i = (if 0 \<le> i \<and> nat i < length xs then Inr (xs ! nat i) else Inl IndexOutOfRange)"

text \<open>The loop over the parameters: the decoded values so far, or the text of the first error.\<close>

definition decodeParam ::
  "('v, 'sc) env \<Rightarrow> 'v rpcHandler \<Rightarrow> 'v request \<Rightarrow> string + 'v goval list \<Rightarrow> nat
    \<Rightarrow> (string + 'v goval list) go" where
  "decodeParam E h req acc i =
     (case acc of
        Inl e \<Rightarrow> Inr (Inl e)
      | Inr vs \<Rightarrow>
          gbind (go_at (rh_paramReceivers h) (int i)) (\<lambda>t.
          gbind (go_at (req_Params req) (int i)) (\<lambda>p.
            Inr (case env_decode E t (p_Data p) of Inl e \<Rightarrow> Inl e | Inr v \<Rightarrow> Inr (vs @ [v])))))"

definition decodeParams ::
  "('v, 'sc) env \<Rightarrow> 'v rpcHandler \<Rightarrow> 'v request \<Rightarrow> (string + 'v goval list) go" where
  "decodeParams E h req = gfold (decodeParam E h req) (Inr []) [0..<rh_nParams h]"

text \<open>The response built from the results of the call.\<close>

definition buildResponse :: "'v rpcHandler \<Rightarrow> 'v request \<Rightarrow> 'v goval list \<Rightarrow> 'v response go" where
  "buildResponse h req callResult =
     (case req_ID req of
        None \<Rightarrow> Inl NilDereference
      | Some i \<Rightarrow>
          gbind (if rh_errOut h = -1 then Inr None
                 else gbind (go_at callResult (rh_errOut h)) (\<lambda>e.
                   case e of
                     GNil \<Rightarrow> Inr None
                   | GError msg \<Rightarrow> Inr (Some \<lparr>re_Code = 1, re_Message = msg\<rparr>)
                   | _ \<Rightarrow> Inl TypeAssertion))
            (\<lambda>err.
          gbind (if rh_valOut h = -1 then Inr GNil else go_at callResult (rh_valOut h))
            (\<lambda>res. Inr \<lparr>resp_Jsonrpc = ''2.0'', resp_Result = res, resp_ID = i, resp_Error = err\<rparr>)))"

text \<open>
  \<open>handle\<close>. The deferred \<open>done\<close> runs at every exit after it was deferred, a panic included.
  The handler's own context is \<open>ctx\<close>; \<open>canChan\<close> says that \<open>chOut\<close> is not nil.
\<close>

definition outChannel :: "'v rpcHandler \<Rightarrow> bool go" where
  "outChannel h =
     (if rh_valOut h = -1 then Inr False
      else gbind (go_at (mt_Out (rh_handlerFunc h)) (rh_valOut h)) (\<lambda>t. Inr (is_chan t)))"

definition rpcMethodNotFound :: int where "rpcMethodNotFound = -32601"
definition rpcInvalidParams :: int where "rpcInvalidParams = -32602"
definition rpcParseError :: int where "rpcParseError = -32700"

text \<open>The part of \<open>handle\<close> between the deferral of \<open>done\<close> and its end.\<close>

definition handleBody ::
  "('v, 'sc) env \<Rightarrow> nat \<Rightarrow> 'v rpcHandler \<Rightarrow> 'v request \<Rightarrow> bool \<Rightarrow> bool
    \<Rightarrow> 'v action list \<times> go_panic option" where
  "handleBody E ctx h req canChan isChan =
     (if \<not> canChan \<and> isChan then
        ([RpcError rpcMethodNotFound (''method '' @ quote (req_Method req) @
            '' not supported in this mode (no out channel support)'')], None)
      else case decodeParams E h req of
        Inl p \<Rightarrow> ([], Some p)
      | Inr (Inl e) \<Rightarrow>
          ([RpcError rpcParseError
              (''unmarshaling params for '' @ quote (mt_Fmt (rh_handlerFunc h)) @ '': '' @ e)], None)
      | Inr (Inr vs) \<Rightarrow>
          let callParams = rh_receiver h # (if rh_hasCtx h = 1 then [GCtx ctx] else []) @ vs in
          (case doCall (req_Method req) (rh_handlerFunc h) callParams of
             Inl e \<Rightarrow> ([Invoke callParams,
                        RpcError 0 (''fatal error calling '' @ quote (req_Method req) @ '': '' @ e)], None)
           | Inr callResult \<Rightarrow>
               (case buildResponse h req callResult of
                  Inl p \<Rightarrow> ([Invoke callParams], Some p)
                | Inr resp \<Rightarrow> ([Invoke callParams, Respond resp], None))))"

definition handle ::
  "('v, 'sc) env \<Rightarrow> 'v handlers \<Rightarrow> nat \<Rightarrow> 'v request \<Rightarrow> bool \<Rightarrow> 'v action list \<times> go_panic option" where
  "handle E hs ctx0 req canChan =
     (let ctx = getSpan E ctx0 req in
      case hs (req_Method req) of
        None \<Rightarrow> ([RpcError rpcMethodNotFound (''method '' @ quote (req_Method req) @ '' not found''),
                  Done False], None)
      | Some h \<Rightarrow>
          (if length (req_Params req) \<noteq> rh_nParams h then
             ([RpcError rpcInvalidParams ''wrong param count'', Done False], None)
           else case outChannel h of
             Inl p \<Rightarrow> ([], Some p)
           | Inr isChan \<Rightarrow>
               (case handleBody E ctx h req canChan isChan of
                  (as, p) \<Rightarrow> (as @ [Done isChan], p))))"

section \<open>Well-formed handlers\<close>

text \<open>
  The Go type system makes a method return as many results as it declares, and an \<open>error\<close>
  (or nil) where it declares one; the receiver of a registered method is a value.
\<close>

definition wf_method :: "'v goMethod \<Rightarrow> bool" where
  "wf_method f \<longleftrightarrow> mt_In f \<noteq> [] \<and>
     (\<forall>args out. mt_Call f args = Inr out \<longrightarrow> length out = length (mt_Out f) \<and>
        (\<forall>i<length out. mt_Out f ! i = ErrorT \<longrightarrow> out ! i = GNil \<or> (\<exists>e. out ! i = GError e)))"

definition wf_handler :: "'v rpcHandler \<Rightarrow> bool" where
  "wf_handler h \<longleftrightarrow> wf_method (rh_handlerFunc h) \<and> rh_nParams h = length (rh_paramReceivers h) \<and>
     processFuncOut (mt_Out (rh_handlerFunc h)) =
       Inr (rh_valOut h, rh_errOut h, length (mt_Out (rh_handlerFunc h)))"

definition wf_handlers :: "'v handlers \<Rightarrow> bool" where
  "wf_handlers hs \<longleftrightarrow> (\<forall>h\<in>ran hs. wf_handler h)"

lemma wf_handlersD: "wf_handlers hs \<Longrightarrow> hs n = Some h \<Longrightarrow> wf_handler h"
  by (auto simp: wf_handlers_def ran_def)

lemma outChannel_wf: "wf_handler h \<Longrightarrow> \<exists>b. outChannel h = Inr b"
  by (auto simp: wf_handler_def outChannel_def go_at_def elim!: processFuncOut_cases)

lemma decodeParams_wf:
  assumes "rh_nParams h = length (rh_paramReceivers h)" "length (req_Params req) = rh_nParams h"
  shows "\<exists>r. decodeParams E h req = Inr r \<and> (\<forall>vs. r = Inr vs \<longrightarrow> length vs = rh_nParams h \<and>
    (\<forall>i<rh_nParams h. env_decode E (rh_paramReceivers h ! i) (p_Data (req_Params req ! i)) = Inr (vs ! i)))
    \<and> ((\<forall>i<rh_nParams h. \<exists>v. env_decode E (rh_paramReceivers h ! i) (p_Data (req_Params req ! i)) = Inr v)
        \<longrightarrow> (\<exists>vs. r = Inr vs))"
proof -
  let ?d = "\<lambda>i. env_decode E (rh_paramReceivers h ! i) (p_Data (req_Params req ! i))"
  let ?P = "\<lambda>ys r. (\<forall>vs. r = Inr vs \<longrightarrow> length vs = length ys \<and> (\<forall>i<length ys. ?d i = Inr (vs ! i)))
    \<and> ((\<forall>i<length ys. \<exists>v. ?d i = Inr v) \<longrightarrow> (\<exists>vs. r = Inr vs))"
  have "\<exists>r. gfold (decodeParam E h req) (Inr []) [0..<rh_nParams h] = Inr r \<and> ?P [0..<rh_nParams h] r"
  proof (rule gfold_invariant)
    fix s :: "string + 'a goval list" and ys :: "nat list" and x zs
    assume P: "?P ys s" and eq: "[0..<rh_nParams h] = ys @ x # zs"
    then have "x = length ys" "x < rh_nParams h"
      by (metis add.left_neutral length_append length_Cons length_upt less_add_Suc1 minus_nat.diff_0
          nth_append_length nth_upt add_Suc_right)+
    moreover have "\<exists>s'. decodeParam E h req s x = Inr s' \<and>
        s' = (case s of Inl e \<Rightarrow> Inl e | Inr vs \<Rightarrow> (case ?d x of Inl e \<Rightarrow> Inl e | Inr v \<Rightarrow> Inr (vs @ [v])))"
      using assms \<open>x < rh_nParams h\<close> by (auto simp: decodeParam_def go_at_def split: sum.splits)
    ultimately show "\<exists>s'. decodeParam E h req s x = Inr s' \<and> ?P (ys @ [x]) s'"
      using P by (fastforce simp: nth_append less_Suc_eq split: sum.splits)
  qed auto
  then show ?thesis by (auto simp: decodeParams_def)
qed

lemma buildResponse_wf:
  assumes "wf_handler h" "doCall n (rh_handlerFunc h) args = Inr out"
  shows "case req_ID req of
      None \<Rightarrow> buildResponse h req out = Inl NilDereference
    | Some i \<Rightarrow> buildResponse h req out = Inr
        \<lparr>resp_Jsonrpc = ''2.0'',
         resp_Result = (if rh_valOut h = -1 then GNil else out ! nat (rh_valOut h)),
         resp_ID = i,
         resp_Error = (if rh_errOut h = -1 then None
           else case out ! nat (rh_errOut h) of
             GError e \<Rightarrow> Some \<lparr>re_Code = 1, re_Message = e\<rparr> | _ \<Rightarrow> None)\<rparr>"
proof -
  from assms(2) have "mt_Call (rh_handlerFunc h) args = Inr out"
    by (auto simp: doCall_def split: sum.splits if_splits)
  with assms(1) have len: "length out = length (mt_Out (rh_handlerFunc h))"
    and err: "\<And>i. i < length out \<Longrightarrow> mt_Out (rh_handlerFunc h) ! i = ErrorT \<Longrightarrow>
      out ! i = GNil \<or> (\<exists>e. out ! i = GError e)"
    and po: "processFuncOut (mt_Out (rh_handlerFunc h)) =
       Inr (rh_valOut h, rh_errOut h, length (mt_Out (rh_handlerFunc h)))"
    unfolding wf_handler_def wf_method_def by metis+
  from po show ?thesis
    by (rule processFuncOut_cases)
      (use len err [of 0] err [of 1] in \<open>auto simp: buildResponse_def go_at_def split: option.split\<close>)
qed

section \<open>The protocol of \<open>handle\<close>\<close>

fun is_reply :: "'v action \<Rightarrow> bool" where
  "is_reply (RpcError c e) = True"
| "is_reply (Respond r) = True"
| "is_reply _ = False"

fun is_invoke :: "'v action \<Rightarrow> bool" where
  "is_invoke (Invoke args) = True"
| "is_invoke _ = False"

fun is_done :: "'v action \<Rightarrow> bool" where
  "is_done (Done b) = True"
| "is_done _ = False"

text \<open>What \<open>handleBody\<close> can do, one case per exit.\<close>

lemma handleBody_cases:
  assumes "wf_handler h" "length (req_Params req) = rh_nParams h"
    and "handleBody E ctx h req canChan isChan = (as, p)"
  obtains c e where "as = [RpcError c e]" "p = None"
  | args e where "as = [Invoke args, RpcError 0 e]" "p = None"
  | args out where "as = [Invoke args]" "p = Some NilDereference" "req_ID req = None"
      "doCall (req_Method req) (rh_handlerFunc h) args = Inr out"
  | args r i where "as = [Invoke args, Respond r]" "p = None" "req_ID req = Some i" "resp_ID r = i"
proof -
  from assms decodeParams_wf [of h req E] obtain r where r: "decodeParams E h req = Inr r"
    by (auto simp: wf_handler_def)
  let ?args = "\<lambda>vs. rh_receiver h # (if rh_hasCtx h = 1 then [GCtx ctx] else []) @ vs"
  consider "\<not> canChan \<and> isChan" | e where "\<not> (\<not> canChan \<and> isChan)" "r = Inl e"
    | vs where "\<not> (\<not> canChan \<and> isChan)" "r = Inr vs"
    by (cases r) auto
  then show ?thesis
  proof cases
    case 3
    show ?thesis
    proof (cases "doCall (req_Method req) (rh_handlerFunc h) (?args vs)")
      case (Inl e)
      then show ?thesis using that(2) assms(3) r 3 by (auto simp: handleBody_def Let_def)
    next
      case (Inr out)
      from buildResponse_wf [OF assms(1) Inr, of req] show ?thesis
        using that(3,4) Inr assms(3) r 3
        by (cases "req_ID req") (auto simp: handleBody_def Let_def)
    qed
  qed (use that(1) assms(3) r in \<open>auto simp: handleBody_def\<close>)
qed

text \<open>
  C10: the protocol of the request handler over well-formed handlers. Whatever the request,
  \<open>handle\<close> calls \<open>done\<close> exactly once and as its last act, invokes the method at most once, and
  replies (a response or an error) exactly once unless it panics; a reply of the method carries
  the id of the request. It panics in one situation only, with a nil dereference: the request is
  a notification and the method was invoked.
\<close>

theorem handle_protocol:
  assumes "wf_handlers hs"
  shows "case handle E hs ctx req canChan of (as, p) \<Rightarrow>
      (\<exists>bs keep. as = bs @ [Done keep] \<and> filter is_done bs = []) \<and>
      length (filter is_invoke as) \<le> 1 \<and>
      length (filter is_reply as) = (if p = None then 1 else 0) \<and>
      (\<forall>r. Respond r \<in> set as \<longrightarrow> req_ID req = Some (resp_ID r)) \<and>
      (p \<noteq> None \<longrightarrow> p = Some NilDereference \<and> req_ID req = None \<and> (\<exists>args. Invoke args \<in> set as))"
proof (cases "hs (req_Method req)")
  case None
  then show ?thesis by (simp add: handle_def) blast
next
  case (Some h)
  with assms have wf: "wf_handler h" by (rule wf_handlersD)
  then obtain b where b: "outChannel h = Inr b" using outChannel_wf by blast
  show ?thesis
  proof (cases "length (req_Params req) = rh_nParams h")
    case True
    obtain as p where body: "handleBody E (getSpan E ctx req) h req canChan b = (as, p)" by fastforce
    with Some True b have "handle E hs ctx req canChan = (as @ [Done b], p)"
      by (simp add: handle_def Let_def)
    then show ?thesis
      by (simp, intro conjI) (rule handleBody_cases [OF wf True body]; force)+
  qed (use Some in \<open>auto simp: handle_def\<close>)
qed

section \<open>Registration\<close>

lemma handlerOf_sel [simp]:
  "rh_handlerFunc (handlerOf val f v e) = f" "rh_receiver (handlerOf val f v e) = val"
  "rh_valOut (handlerOf val f v e) = v" "rh_errOut (handlerOf val f v e) = e"
  by (simp_all add: handlerOf_def Let_def)

lemma handlerOf_params:
  assumes "mt_In f = t # ts"
  shows "ts = (if rh_hasCtx (handlerOf val f v e) = 1 then [ContextT] else [])
           @ rh_paramReceivers (handlerOf val f v e)"
    and "rh_nParams (handlerOf val f v e) = length (rh_paramReceivers (handlerOf val f v e))"
proof -
  have ex: "map ((!) xs) [0..<length xs] = xs" for xs :: "gotype list" by (rule map_nth)
  have "map (\<lambda>i. (t # ts) ! Suc (Suc i)) [0..<length ts - Suc 0] = tl ts"
    by (cases ts) (simp_all add: ex)
  then show "ts = (if rh_hasCtx (handlerOf val f v e) = 1 then [ContextT] else [])
           @ rh_paramReceivers (handlerOf val f v e)"
    using assms ex [of ts] by (cases ts) (auto simp: handlerOf_def Let_def)
qed (simp add: handlerOf_def Let_def)

lemma handlerOf_wf:
  assumes "wf_method f" "processFuncOut (mt_Out f) = Inr (v, e, n)"
  shows "wf_handler (handlerOf val f v e)"
proof -
  from assms(2) have "n = length (mt_Out f)" by (auto elim!: processFuncOut_cases)
  moreover from assms(1) obtain t ts where "mt_In f = t # ts"
    by (cases "mt_In f") (auto simp: wf_method_def)
  ultimately show ?thesis
    using assms handlerOf_params(2) [of f t ts] by (simp add: wf_handler_def)
qed

text \<open>The accepted result types: none, one, or two of which the second is \<open>error\<close>.\<close>

definition okOut :: "'v goMethod \<Rightarrow> bool" where
  "okOut f \<longleftrightarrow> length (mt_Out f) \<le> 2 \<and> (length (mt_Out f) = 2 \<longrightarrow> mt_Out f ! 1 = ErrorT)"

lemma okOut_iff: "okOut f \<longleftrightarrow> \<not> isl (processFuncOut (mt_Out f))"
proof -
  consider "mt_Out f = []" | t where "mt_Out f = [t]" | t u where "mt_Out f = [t, u]"
    | t u w ts where "mt_Out f = t # u # w # ts"
    by (metis list.exhaust)
  then show ?thesis by cases (simp_all add: okOut_def processFuncOut_def)
qed

lemma registerMethod_cases:
  "if okOut f
   then \<exists>v e. registerMethod ns val hs f = Inr (hs(ns @ ''.'' @ mt_Name f \<mapsto> handlerOf val f v e)) \<and>
          (wf_method f \<longrightarrow> wf_handler (handlerOf val f v e))
   else \<exists>msg. registerMethod ns val hs f = Inl (PanicMessage msg)"
proof (cases "processFuncOut (mt_Out f)")
  case (Inl p)
  then show ?thesis
    by (auto simp: okOut_iff registerMethod_def processFuncOut_def split: list.splits if_splits)
next
  case (Inr r)
  then show ?thesis
    by (cases r) (auto simp: okOut_iff registerMethod_def intro: handlerOf_wf)
qed

lemma register_ok:
  assumes "\<forall>f\<in>set fs. okOut f \<and> wf_method f" "distinct (map mt_Name fs)"
  shows "\<exists>hs'. register hs ns val fs = Inr hs' \<and>
    (\<forall>f\<in>set fs. \<exists>v e. hs' (ns @ ''.'' @ mt_Name f) = Some (handlerOf val f v e) \<and>
       wf_handler (handlerOf val f v e)) \<and>
    (\<forall>n. n \<notin> (\<lambda>f. ns @ ''.'' @ mt_Name f) ` set fs \<longrightarrow> hs' n = hs n)"
  using assms
proof (induction fs arbitrary: hs)
  case (Cons f fs)
  from Cons.prems registerMethod_cases [of f ns val hs] obtain v e where
    f: "registerMethod ns val hs f = Inr (hs(ns @ ''.'' @ mt_Name f \<mapsto> handlerOf val f v e))"
       "wf_handler (handlerOf val f v e)" by auto
  define hs1 where "hs1 = hs(ns @ ''.'' @ mt_Name f \<mapsto> handlerOf val f v e)"
  from Cons.prems Cons.IH [of hs1] obtain hs' where
    hs': "register hs1 ns val fs = Inr hs'"
      "\<forall>g\<in>set fs. \<exists>v e. hs' (ns @ ''.'' @ mt_Name g) = Some (handlerOf val g v e) \<and>
         wf_handler (handlerOf val g v e)"
      "\<forall>n. n \<notin> (\<lambda>f. ns @ ''.'' @ mt_Name f) ` set fs \<longrightarrow> hs' n = hs1 n"
    by auto
  have "hs' (ns @ ''.'' @ mt_Name f) = Some (handlerOf val f v e)"
    using hs'(3) Cons.prems(2) by (auto simp: image_iff hs1_def)
  moreover have "register hs ns val (f # fs) = Inr hs'"
    using f(1) hs'(1) by (simp add: register_def hs1_def)
  moreover have "hs' n = hs n" if "n \<notin> (\<lambda>f. ns @ ''.'' @ mt_Name f) ` set (f # fs)" for n
    using hs'(3) that by (simp add: hs1_def)
  ultimately show ?case using f(2) hs'(2) by auto
qed (auto simp: register_def)

text \<open>What the handler of a method records of its signature.\<close>

definition records :: "'v goval \<Rightarrow> 'v goMethod \<Rightarrow> 'v rpcHandler \<Rightarrow> bool" where
  "records val f h \<longleftrightarrow> rh_handlerFunc h = f \<and> rh_receiver h = val \<and>
     rh_hasCtx h = (if take 1 (tl (mt_In f)) = [ContextT] then 1 else 0) \<and>
     rh_paramReceivers h = drop (rh_hasCtx h) (tl (mt_In f)) \<and> rh_nParams h = length (rh_paramReceivers h) \<and>
     rh_valOut h = (if mt_Out f = [] \<or> mt_Out f = [ErrorT] then -1 else 0) \<and>
     rh_errOut h = (if mt_Out f = [ErrorT] then 0 else if length (mt_Out f) = 2 then 1 else -1)"

lemma handlerOf_records:
  assumes "wf_handler (handlerOf val f v e)"
  shows "records val f (handlerOf val f v e)"
proof -
  from assms obtain t ts where ins: "mt_In f = t # ts"
    by (cases "mt_In f") (auto simp: wf_handler_def wf_method_def)
  have ctx: "rh_hasCtx (handlerOf val f v e) = (if take 1 ts = [ContextT] then 1 else 0)"
    using ins by (cases ts) (auto simp: handlerOf_def Let_def)
  with handlerOf_params [OF ins, of val v e] have
    "rh_paramReceivers (handlerOf val f v e) = drop (rh_hasCtx (handlerOf val f v e)) ts"
    by (cases "take 1 ts = [ContextT]") auto
  moreover from assms have "processFuncOut (mt_Out f) = Inr (v, e, length (mt_Out f))" by (simp add: wf_handler_def)
  ultimately show ?thesis
    using ctx ins handlerOf_params(2) [OF ins, of val v e] by (auto simp: records_def elim!: processFuncOut_cases)
qed

text \<open>
  C21: registration. If every method has no result, one, or two of which the second is an \<open>error\<close>,
  \<open>register\<close> returns; each method is then found under \<open>namespace.Name\<close> with itself and its receiver, its
  leading context split off exactly when its first parameter is one, the types of the other parameters
  in order, and the positions of its value and of its error; all other names are found as before, and
  well-formedness is kept. If some method has other results, \<open>register\<close> panics.
\<close>

theorem register_spec:
  assumes "distinct (map mt_Name fs)" "\<forall>f\<in>set fs. wf_method f" "wf_handlers hs"
  shows "if \<forall>f\<in>set fs. length (mt_Out f) \<le> 2 \<and> (length (mt_Out f) = 2 \<longrightarrow> mt_Out f ! 1 = ErrorT)
    then \<exists>hs'. register hs ns val fs = Inr hs' \<and> wf_handlers hs' \<and>
      (\<forall>f\<in>set fs. \<exists>h. hs' (ns @ ''.'' @ mt_Name f) = Some h \<and> records val f h) \<and>
      (\<forall>n. n \<notin> (\<lambda>f. ns @ ''.'' @ mt_Name f) ` set fs \<longrightarrow> hs' n = hs n)
    else \<exists>msg. register hs ns val fs = Inl (PanicMessage msg)"
  unfolding okOut_def [symmetric]
proof (cases "\<forall>f\<in>set fs. okOut f")
  case True
  with assms register_ok [of fs hs ns val] obtain hs' where hs': "register hs ns val fs = Inr hs'"
    "\<forall>f\<in>set fs. \<exists>v e. hs' (ns @ ''.'' @ mt_Name f) = Some (handlerOf val f v e) \<and>
       wf_handler (handlerOf val f v e)"
    "\<forall>n. n \<notin> (\<lambda>f. ns @ ''.'' @ mt_Name f) ` set fs \<longrightarrow> hs' n = hs n" by auto
  then have found: "\<forall>f\<in>set fs. \<exists>h. hs' (ns @ ''.'' @ mt_Name f) = Some h \<and> records val f h"
    using handlerOf_records by meson
  have "wf_handler h" if "hs' n = Some h" for n h
    using hs'(2,3) assms(3) that by (cases "n \<in> (\<lambda>f. ns @ ''.'' @ mt_Name f) ` set fs")
      (auto intro: wf_handlersD)
  then have "wf_handlers hs'" by (auto simp: wf_handlers_def ran_def)
  with hs' found True show "if \<forall>f\<in>set fs. okOut f
    then \<exists>hs'. register hs ns val fs = Inr hs' \<and> wf_handlers hs' \<and>
      (\<forall>f\<in>set fs. \<exists>h. hs' (ns @ ''.'' @ mt_Name f) = Some h \<and> records val f h) \<and>
      (\<forall>n. n \<notin> (\<lambda>f. ns @ ''.'' @ mt_Name f) ` set fs \<longrightarrow> hs' n = hs n)
    else \<exists>msg. register hs ns val fs = Inl (PanicMessage msg)" by simp
next
  case False
  have "\<exists>msg. register hs ns val fs = Inl (PanicMessage msg)" if "\<exists>f\<in>set fs. \<not> okOut f" for hs
    using that
  proof (induction fs arbitrary: hs)
    case (Cons f fs)
    then show ?case
      using registerMethod_cases [of f ns val hs] by (cases "okOut f") (auto simp: register_def)
  qed simp
  with False show "if \<forall>f\<in>set fs. okOut f
    then \<exists>hs'. register hs ns val fs = Inr hs' \<and> wf_handlers hs' \<and>
      (\<forall>f\<in>set fs. \<exists>h. hs' (ns @ ''.'' @ mt_Name f) = Some h \<and> records val f h) \<and>
      (\<forall>n. n \<notin> (\<lambda>f. ns @ ''.'' @ mt_Name f) ` set fs \<longrightarrow> hs' n = hs n)
    else \<exists>msg. register hs ns val fs = Inl (PanicMessage msg)" by auto
qed

section \<open>The HTTP entry point (\<open>server.go\<close>)\<close>

text \<open>
  The reply to an HTTP request: the status, once written, and the documents in the body, each
  as the frame a client reads. \<open>rpcErrorResponse\<close> is the response that \<open>rpcError\<close> encodes, none
  for a notification; \<open>WriteHeader\<close> after the first one has no effect.
\<close>

record 'v httpReply =
  ht_status :: "nat option"
  ht_header :: "(string \<times> string) list"
  ht_body :: "'v frame list"

definition WriteHeader :: "nat \<Rightarrow> 'v httpReply \<Rightarrow> 'v httpReply" where
  "WriteHeader c st = (case ht_status st of None \<Rightarrow> st\<lparr>ht_status := Some c\<rparr> | Some _ \<Rightarrow> st)"

definition rpcErrorResponse :: "'v request \<Rightarrow> int \<Rightarrow> string \<Rightarrow> 'v response option" where
  "rpcErrorResponse req code err =
     map_option (\<lambda>i. \<lparr>resp_Jsonrpc = ''2.0'', resp_Result = GNil, resp_ID = i,
                      resp_Error = Some \<lparr>re_Code = code, re_Message = err\<rparr>\<rparr>) (req_ID req)"

text \<open>\<open>json.NewEncoder(w).Encode(resp)\<close>: nothing is written when the encoding fails.\<close>

definition encodeTo :: "('v, 'sc) env \<Rightarrow> 'v response \<Rightarrow> 'v httpReply \<Rightarrow> 'v httpReply" where
  "encodeTo E resp st =
     (case frame_of_response E resp of
        None \<Rightarrow> st
      | Some f \<Rightarrow> (WriteHeader 200 st)\<lparr>ht_body := ht_body st @ [f]\<rparr>)"

definition rpcError :: "('v, 'sc) env \<Rightarrow> 'v request \<Rightarrow> int \<Rightarrow> string \<Rightarrow> 'v httpReply \<Rightarrow> 'v httpReply" where
  "rpcError E req code err st =
     (let st1 = WriteHeader 500 st in
      case rpcErrorResponse req code err of None \<Rightarrow> st1 | Some resp \<Rightarrow> encodeTo E resp st1)"

text \<open>
  The functions \<open>handleReader\<close> passes to \<open>handle\<close>: \<open>wf\<close> runs the callback on the response writer,
  \<open>done\<close> does nothing and \<open>chOut\<close> is nil, so a channel in the result is a call of a nil function.
\<close>

definition httpAct :: "('v, 'sc) env \<Rightarrow> 'v request \<Rightarrow> 'v httpReply \<Rightarrow> 'v action \<Rightarrow> 'v httpReply go" where
  "httpAct E req st a =
     (case a of
        RpcError code err \<Rightarrow> Inr (rpcError E req code err st)
      | Respond resp \<Rightarrow>
          (case resp_Result resp of
             GChan c \<Rightarrow> Inl NilDereference
           | _ \<Rightarrow> Inr (encodeTo E resp st))
      | Invoke args \<Rightarrow> Inr st
      | Done keep \<Rightarrow> Inr st)"

text \<open>
  \<open>handleReader\<close> on the decoded body; a decoding error comes with its text and with what had
  been decoded when it occurred.
\<close>

definition handleReader ::
  "('v, 'sc) env \<Rightarrow> 'v handlers \<Rightarrow> nat \<Rightarrow> (string \<times> 'v request) + 'v request \<Rightarrow> 'v httpReply
    \<Rightarrow> 'v httpReply go" where
  "handleReader E hs ctx r st =
     (case r of
        Inl (e, req) \<Rightarrow> Inr (rpcError E req rpcParseError (''unmarshaling request: '' @ e) st)
      | Inr req \<Rightarrow>
          (case handle E hs ctx req False of
             (as, p) \<Rightarrow> gbind (gfold (httpAct E req) st as)
               (\<lambda>st'. case p of None \<Rightarrow> Inr st' | Some q \<Rightarrow> Inl q)))"

text \<open>\<open>strings.Contains\<close>.\<close>

definition contains :: "string \<Rightarrow> string \<Rightarrow> bool" where
  "contains s pat = list_ex (\<lambda>i. take (length pat) (drop i s) = pat) [0..<Suc (length s)]"

text \<open>
  \<open>ServeHTTP\<close> and \<open>handleWS\<close>. A request to upgrade gets the headers and, when the upgrade
  succeeds (\<open>upgrade\<close>), a websocket connection serves it; every other request is handled at once.
\<close>

record 'v httpRequest =
  hq_Connection :: string
  hq_Protocol :: string
  hq_Body :: "(string \<times> 'v request) + 'v request"

datatype 'v served = OnWebsocket "'v handlers" "'v httpReply" | Replied "'v httpReply"

definition handleWS :: "'v handlers \<Rightarrow> bool \<Rightarrow> 'v httpRequest \<Rightarrow> 'v httpReply \<Rightarrow> 'v served" where
  "handleWS hs upgrade r st =
     (let st1 = st\<lparr>ht_header := ht_header st @ [(''Access-Control-Allow-Origin'', ''*'')] @
            (if hq_Protocol r \<noteq> '''' then [(''Sec-WebSocket-Protocol'', hq_Protocol r)] else [])\<rparr>
      in if \<not> upgrade then Replied (WriteHeader 500 st1) else OnWebsocket hs st1)"

definition ServeHTTP ::
  "('v, 'sc) env \<Rightarrow> 'v handlers \<Rightarrow> nat \<Rightarrow> bool \<Rightarrow> 'v httpRequest \<Rightarrow> 'v served go" where
  "ServeHTTP E hs ctx upgrade r =
     (let st = \<lparr>ht_status = None, ht_header = [], ht_body = []\<rparr> in
      if contains (hq_Connection r) ''Upgrade'' then Inr (handleWS hs upgrade r st)
      else gbind (handleReader E hs ctx (hq_Body r) st) (\<lambda>st'. Inr (Replied st')))"

section \<open>Properties of the HTTP entry point\<close>

text \<open>What each exit of \<open>handle\<close> leaves in a fresh reply.\<close>

lemma marshal_GNil [simp]: "marshal E GNil = Some JNull"
  by (simp add: marshal_def)

lemma rpcError_reply:
  "req_ID req = Some i \<Longrightarrow> ht_status st = None \<Longrightarrow> ht_body st = [] \<Longrightarrow>
   rpcError E req c e st = st\<lparr>ht_status := Some 500, ht_body :=
     [\<lparr>fr_Jsonrpc = ''2.0'', fr_ID = Some i, fr_Meta = None, fr_Method = '''', fr_Params = [],
       fr_Result = None, fr_Error = Some \<lparr>re_Code = c, re_Message = e\<rparr>\<rparr>]\<rparr>"
  by (simp add: rpcError_def rpcErrorResponse_def encodeTo_def frame_of_response_def WriteHeader_def)

text \<open>The error code a request is refused with before its method runs, if it is.\<close>

definition refusal :: "('v, 'sc) env \<Rightarrow> 'v handlers \<Rightarrow> 'v request \<Rightarrow> bool \<Rightarrow> int option" where
  "refusal E hs req canChan =
     (case hs (req_Method req) of
        None \<Rightarrow> Some rpcMethodNotFound
      | Some h \<Rightarrow>
          if length (req_Params req) \<noteq> length (rh_paramReceivers h) then Some rpcInvalidParams
          else if \<not> canChan \<and> (case mt_Out (rh_handlerFunc h) of t # ts \<Rightarrow> is_chan t | [] \<Rightarrow> False)
            then Some rpcMethodNotFound
          else if list_all (\<lambda>(t, p). \<not> isl (env_decode E t (p_Data p)))
              (zip (rh_paramReceivers h) (req_Params req)) then None
          else Some rpcParseError)"

lemma outChannel_eq:
  "wf_handler h \<Longrightarrow>
   outChannel h = Inr (case mt_Out (rh_handlerFunc h) of t # ts \<Rightarrow> is_chan t | [] \<Rightarrow> False)"
  by (auto simp: wf_handler_def outChannel_def go_at_def elim!: processFuncOut_cases)

lemma decodeParams_all:
  assumes "wf_handler h" "length (req_Params req) = rh_nParams h"
  shows "list_all (\<lambda>(t, p). \<not> isl (env_decode E t (p_Data p))) (zip (rh_paramReceivers h) (req_Params req))
    \<longleftrightarrow> (\<exists>vs. decodeParams E h req = Inr (Inr vs))"
proof -
  from assms have n: "rh_nParams h = length (rh_paramReceivers h)" by (simp add: wf_handler_def)
  from decodeParams_wf [OF n assms(2), of E] obtain r where r: "decodeParams E h req = Inr r"
    "\<forall>vs. r = Inr vs \<longrightarrow> (\<forall>i<rh_nParams h. env_decode E (rh_paramReceivers h ! i) (p_Data (req_Params req ! i)) = Inr (vs ! i))"
    "(\<forall>i<rh_nParams h. \<exists>v. env_decode E (rh_paramReceivers h ! i) (p_Data (req_Params req ! i)) = Inr v)
        \<longrightarrow> (\<exists>vs. r = Inr vs)" by auto
  have "\<not> isl x \<longleftrightarrow> (\<exists>v. x = Inr v)" for x :: "string + 'a goval" by (cases x) auto
  then have "list_all (\<lambda>(t, p). \<not> isl (env_decode E t (p_Data p))) (zip (rh_paramReceivers h) (req_Params req))
    \<longleftrightarrow> (\<forall>i<rh_nParams h. \<exists>v. env_decode E (rh_paramReceivers h ! i) (p_Data (req_Params req ! i)) = Inr v)"
    using n assms(2) by (simp add: list_all_length)
  with r show ?thesis by auto
qed

lemma handle_refuses_lemma:
  assumes "wf_handlers hs"
  shows "case refusal E hs req canChan of
      Some c \<Rightarrow> \<exists>e keep. handle E hs ctx req canChan = ([RpcError c e, Done keep], None)
    | None \<Rightarrow> \<exists>args bs p. handle E hs ctx req canChan = (Invoke args # bs, p)"
proof (cases "hs (req_Method req)")
  case None
  then show ?thesis by (auto simp: refusal_def handle_def)
next
  case (Some h)
  with assms have wf: "wf_handler h" by (rule wf_handlersD)
  then have n: "rh_nParams h = length (rh_paramReceivers h)" by (simp add: wf_handler_def)
  show ?thesis
  proof (cases "length (req_Params req) = rh_nParams h")
    case True
    from decodeParams_wf [OF n True, of E] obtain r where r: "decodeParams E h req = Inr r" by auto
    show ?thesis
      using Some True n r outChannel_eq [OF wf] decodeParams_all [OF wf True, of E]
      by (cases r) (auto simp: refusal_def handle_def handleBody_def Let_def split: sum.split)
  qed (use Some n in \<open>auto simp: refusal_def handle_def\<close>)
qed

text \<open>
  C19: refusals. A request that names no registered method, has the wrong number of parameters,
  asks for a channel where none can be forwarded, or has a parameter that does not decode is
  refused with the code of that case, in this order of precedence, and its method is not invoked;
  every other request has its method invoked.
\<close>

theorem handle_refuses:
  assumes "wf_handlers hs"
  shows "case refusal E hs req canChan of
      Some c \<Rightarrow> \<exists>e keep. handle E hs ctx req canChan = ([RpcError c e, Done keep], None)
    | None \<Rightarrow> \<exists>args bs p. handle E hs ctx req canChan = (Invoke args # bs, p)"
  using handle_refuses_lemma [OF assms] .

text \<open>The results of a call, as the response carries them.\<close>

definition resultOf :: "'v rpcHandler \<Rightarrow> 'v goval list \<Rightarrow> 'v goval" where
  "resultOf h out = (if rh_valOut h = -1 then GNil else out ! nat (rh_valOut h))"

definition errorOf :: "'v rpcHandler \<Rightarrow> 'v goval list \<Rightarrow> respError option" where
  "errorOf h out = (if rh_errOut h = -1 then None
     else case out ! nat (rh_errOut h) of GError e \<Rightarrow> Some \<lparr>re_Code = 1, re_Message = e\<rparr> | _ \<Rightarrow> None)"

definition callArgs :: "('v, 'sc) env \<Rightarrow> nat \<Rightarrow> 'v rpcHandler \<Rightarrow> 'v request \<Rightarrow> 'v goval list \<Rightarrow> 'v goval list" where
  "callArgs E ctx h req vs =
     rh_receiver h # (if rh_hasCtx h = 1 then [GCtx (getSpan E ctx req)] else []) @ vs"

definition chanResult :: "'v rpcHandler \<Rightarrow> bool" where
  "chanResult h = (case mt_Out (rh_handlerFunc h) of t # ts \<Rightarrow> is_chan t | [] \<Rightarrow> False)"

text \<open>The runs of \<open>handle\<close> on a request whose parameters decode: the method returns, or it panics.\<close>

lemma decodeParams_eq:
  assumes "wf_handler h" "length (req_Params req) = length (rh_paramReceivers h)"
    and "\<forall>i<length (rh_paramReceivers h).
           env_decode E (rh_paramReceivers h ! i) (p_Data (req_Params req ! i)) = Inr (vs ! i)"
    and "length vs = length (rh_paramReceivers h)"
  shows "decodeParams E h req = Inr (Inr vs)"
proof -
  from assms(1) have n: "rh_nParams h = length (rh_paramReceivers h)" by (simp add: wf_handler_def)
  from decodeParams_wf [of h req E] n assms(2,3) obtain ws where ws: "decodeParams E h req = Inr (Inr ws)"
    "length ws = rh_nParams h"
    "\<forall>i<rh_nParams h. env_decode E (rh_paramReceivers h ! i) (p_Data (req_Params req ! i)) = Inr (ws ! i)"
    by auto
  then have "ws = vs" using assms(3,4) n by (intro nth_equalityI) auto
  with ws show ?thesis by simp
qed

lemma handle_fatal:
  assumes "wf_handlers hs" "hs (req_Method req) = Some h"
    and "length (req_Params req) = length (rh_paramReceivers h)"
    and "\<forall>i<length (rh_paramReceivers h).
           env_decode E (rh_paramReceivers h ! i) (p_Data (req_Params req ! i)) = Inr (vs ! i)"
    and "length vs = length (rh_paramReceivers h)" "canChan \<or> \<not> chanResult h"
    and "doCall (req_Method req) (rh_handlerFunc h) (callArgs E ctx h req vs) = Inl e"
  shows "handle E hs ctx req canChan = ([Invoke (callArgs E ctx h req vs),
    RpcError 0 (''fatal error calling '' @ quote (req_Method req) @ '': '' @ e), Done (chanResult h)], None)"
proof -
  from assms(1,2) have wf: "wf_handler h" by (rule wf_handlersD)
  then have n: "rh_nParams h = length (rh_paramReceivers h)" by (simp add: wf_handler_def)
  have "outChannel h = Inr (chanResult h)" using outChannel_eq [OF wf] by (simp add: chanResult_def)
  with decodeParams_eq [OF wf assms(3-5)] assms(2,3,6) assms(7) [unfolded callArgs_def] n show ?thesis
    by (auto simp: handle_def handleBody_def Let_def callArgs_def)
qed

lemma handle_success:
  assumes "wf_handlers hs" "hs (req_Method req) = Some h"
    and "length (req_Params req) = length (rh_paramReceivers h)"
    and "\<forall>i<length (rh_paramReceivers h).
           env_decode E (rh_paramReceivers h ! i) (p_Data (req_Params req ! i)) = Inr (vs ! i)"
    and "length vs = length (rh_paramReceivers h)" "canChan \<or> \<not> chanResult h"
    and "doCall (req_Method req) (rh_handlerFunc h) (callArgs E ctx h req vs) = Inr out"
  shows "handle E hs ctx req canChan =
    (case req_ID req of
       None \<Rightarrow> ([Invoke (callArgs E ctx h req vs), Done (chanResult h)], Some NilDereference)
     | Some i \<Rightarrow> ([Invoke (callArgs E ctx h req vs),
                   Respond \<lparr>resp_Jsonrpc = ''2.0'', resp_Result = resultOf h out, resp_ID = i,
                            resp_Error = errorOf h out\<rparr>,
                   Done (chanResult h)], None))"
proof -
  from assms(1,2) have wf: "wf_handler h" by (rule wf_handlersD)
  then have n: "rh_nParams h = length (rh_paramReceivers h)" by (simp add: wf_handler_def)
  note dec = decodeParams_eq [OF wf assms(3-5)]
  note out = assms(7)
  from buildResponse_wf [OF wf out, of req] have
    b: "buildResponse h req out = (case req_ID req of None \<Rightarrow> Inl NilDereference | Some i \<Rightarrow>
      Inr \<lparr>resp_Jsonrpc = ''2.0'', resp_Result = resultOf h out, resp_ID = i, resp_Error = errorOf h out\<rparr>)"
    by (simp add: resultOf_def errorOf_def split: option.splits)
  have och: "outChannel h = Inr (chanResult h)" using outChannel_eq [OF wf] by (simp add: chanResult_def)
  have "handleBody E (getSpan E ctx req) h req canChan (chanResult h) =
    (case req_ID req of
       None \<Rightarrow> ([Invoke (callArgs E ctx h req vs)], Some NilDereference)
     | Some i \<Rightarrow> ([Invoke (callArgs E ctx h req vs),
                   Respond \<lparr>resp_Jsonrpc = ''2.0'', resp_Result = resultOf h out, resp_ID = i,
                            resp_Error = errorOf h out\<rparr>], None))"
    using assms(6) out [unfolded callArgs_def] b dec
    by (auto simp: handleBody_def Let_def callArgs_def split: option.split)
  then show ?thesis
    using assms(2,3) n och by (simp add: handle_def Let_def split: option.split)
qed

text \<open>
  C18: a request over plain HTTP whose parameters decode and whose method returns. The method is
  called once, on its receiver, the context if it takes one, and the decoded parameters in order.
  A request with an id is answered with status 200 and one document: the id, the encoded value
  and the error of the method. A request without an id, a notification, panics after its method
  has run.
\<close>

theorem ServeHTTP_success:
  assumes "wf_handlers hs" "hs (req_Method req) = Some h" "\<not> contains conn ''Upgrade''"
    and "length (req_Params req) = length (rh_paramReceivers h)"
    and "\<forall>i<length (rh_paramReceivers h).
           env_decode E (rh_paramReceivers h ! i) (p_Data (req_Params req ! i)) = Inr (vs ! i)"
    and "length vs = length (rh_paramReceivers h)" "\<not> chanResult h"
    and "doCall (req_Method req) (rh_handlerFunc h) (callArgs E ctx h req vs) = Inr out"
    and "marshal E (resultOf h out) = Some j" "\<forall>c. resultOf h out \<noteq> GChan c"
  shows "filter is_invoke (fst (handle E hs ctx req False)) = [Invoke (callArgs E ctx h req vs)] \<and>
    ServeHTTP E hs ctx up \<lparr>hq_Connection = conn, hq_Protocol = proto, hq_Body = Inr req\<rparr> =
     (case req_ID req of
        None \<Rightarrow> Inl NilDereference
      | Some i \<Rightarrow> Inr (Replied \<lparr>ht_status = Some 200, ht_header = [], ht_body =
          [\<lparr>fr_Jsonrpc = ''2.0'', fr_ID = Some i, fr_Meta = None, fr_Method = '''', fr_Params = [],
            fr_Result = (if resultOf h out = GNil then None else Some (Doc j)),
            fr_Error = errorOf h out\<rparr>]\<rparr>))"
proof -
  have np: "\<not> chanResult h \<Longrightarrow> False \<or> \<not> chanResult h" by simp
  note run = handle_success [OF assms(1,2,4-6) np [OF assms(7)] assms(8)]
  have act: "httpAct E req st (Respond \<lparr>resp_Jsonrpc = ''2.0'', resp_Result = resultOf h out, resp_ID = i,
      resp_Error = err\<rparr>) = Inr (encodeTo E \<lparr>resp_Jsonrpc = ''2.0'', resp_Result = resultOf h out,
      resp_ID = i, resp_Error = err\<rparr> st)" for st i err
    using assms(10) by (auto simp: httpAct_def split: goval.split)
  have skip: "httpAct E req st (Invoke args) = Inr st" "httpAct E req st (Done k) = Inr st" for st args k
    by (simp_all add: httpAct_def)
  show ?thesis
    using run act skip assms(3,9)
    by (cases "req_ID req")
      (simp_all add: ServeHTTP_def handleReader_def encodeTo_def frame_of_response_def WriteHeader_def)
qed

text \<open>The reply to a request with an error: status 500 and one document with the id of the request.\<close>

definition errorReply :: "goint \<Rightarrow> int \<Rightarrow> string \<Rightarrow> 'v served" where
  "errorReply i c e = Replied \<lparr>ht_status = Some 500, ht_header = [], ht_body =
     [\<lparr>fr_Jsonrpc = ''2.0'', fr_ID = Some i, fr_Meta = None, fr_Method = '''', fr_Params = [],
       fr_Result = None, fr_Error = Some \<lparr>re_Code = c, re_Message = e\<rparr>\<rparr>]\<rparr>"


text \<open>
  The span context a caller puts into the metadata (\<open>propagation.Binary\<close> in base64) reaches
  \<open>FromBinary\<close> as the bytes that were sent, followed by the zero bytes of the buffer that
  \<open>DecodedLen\<close> makes too long, at most two of them.
\<close>

theorem getSpan_receives_context:
  fixes E :: "('v, 'sc) env"
  defines "padded bs \<equiv> bs @ replicate ((3 - length bs mod 3) mod 3) (0 :: byte)"
  shows "getSpan E ctx (req\<lparr>req_Meta := Some [(''SpanContext'', b64encode bs)]\<rparr>) =
     (case env_fromBinary E (padded bs) of None \<Rightarrow> ctx | Some sc \<Rightarrow> env_startSpan E ctx sc)"
proof -
  have "(n + 2) div 3 * 3 - n = (3 - n mod 3) mod 3" for n :: nat
  proof -
    have "n = 3 * (n div 3) + n mod 3" "n mod 3 < 3" by simp_all
    then consider q where "n = 3 * q" | q where "n = 3 * q + 1" | q where "n = 3 * q + 2"
      by (metis add_0_right less_2_cases numeral_3_eq_3 less_Suc_eq numeral_2_eq_2 One_nat_def)
    then show ?thesis by cases (simp_all add: mod_Suc)
  qed
  then show ?thesis
    by (simp add: getSpan_def b64decode_encode length_b64encode DecodedLen_def padded_def)
qed

section \<open>An example service\<close>

text \<open>
  The service the witnesses run: \<open>Add\<close> takes a context and two integers, \<open>Fail\<close> panics and
  \<open>Watch\<close> returns a channel.
\<close>

definition demo_Add :: "int goMethod" where
  "demo_Add = \<lparr>mt_Name = ''Add'', mt_In = [PtrT (NamedT ''Svc''), ContextT, NamedT ''int'', NamedT ''int''],
     mt_Out = [NamedT ''int'', ErrorT], mt_Fmt = ''Add'',
     mt_Call = (\<lambda>args. case args of
        [r, c, GVal x, GVal y] \<Rightarrow>
          Inr [GVal (x + y), if x + y < 0 then GError ''negative'' else GNil]
      | _ \<Rightarrow> Inl ''bad call'')\<rparr>"

definition demo_Fail :: "int goMethod" where
  "demo_Fail = \<lparr>mt_Name = ''Fail'', mt_In = [PtrT (NamedT ''Svc'')], mt_Out = [], mt_Fmt = ''Fail'',
     mt_Call = (\<lambda>args. Inl ''boom'')\<rparr>"

definition demo_Watch :: "int goMethod" where
  "demo_Watch = \<lparr>mt_Name = ''Watch'', mt_In = [PtrT (NamedT ''Svc'')],
     mt_Out = [ChanT (NamedT ''int''), ErrorT], mt_Fmt = ''Watch'', mt_Call = (\<lambda>args. Inr [GChan 7, GNil])\<rparr>"

definition demo_handlers :: "int handlers" where
  "demo_handlers =
     [''S.Add'' \<mapsto> handlerOf (GVal 0) demo_Add 0 1, ''S.Fail'' \<mapsto> handlerOf (GVal 0) demo_Fail (-1) (-1),
      ''S.Watch'' \<mapsto> handlerOf (GVal 0) demo_Watch 0 1]"

definition demo_request :: "string \<Rightarrow> goint option \<Rightarrow> int list \<Rightarrow> int request" where
  "demo_request name i args = \<lparr>req_Jsonrpc = ''2.0'', req_ID = i, req_Method = name,
     req_Params = map (\<lambda>n. \<lparr>p_Data = Some (Doc (JInt n)), p_V = None\<rparr>) args, req_Meta = None\<rparr>"

lemmas demo_defs = demo_env_def demo_Add_def demo_Fail_def demo_Watch_def demo_request_def

lemma demo_wf_methods: "wf_method demo_Add" "wf_method demo_Fail" "wf_method demo_Watch"
proof -
  show "wf_method demo_Add"
    by (auto simp: wf_method_def demo_Add_def less_Suc_eq split: list.splits goval.splits)
qed (auto simp: wf_method_def demo_Fail_def demo_Watch_def less_Suc_eq)

lemma demo_ok: "okOut demo_Add" "okOut demo_Fail" "okOut demo_Watch"
  by (simp_all add: okOut_def demo_defs)

lemma demo_wf: "wf_handlers demo_handlers"
proof -
  have "wf_handler (handlerOf (GVal 0) demo_Add 0 1)" "wf_handler (handlerOf (GVal 0) demo_Fail (-1) (-1))"
    "wf_handler (handlerOf (GVal 0) demo_Watch 0 1)"
    using demo_wf_methods by (auto intro!: handlerOf_wf simp: processFuncOut_def demo_defs)
  then show ?thesis by (auto simp: wf_handlers_def demo_handlers_def ran_def split: if_splits)
qed

theorem handle_protocol_witness:
  "case handle demo_env demo_handlers 0 (demo_request ''S.Add'' (Some 5) [2, 3]) True of (as, p) \<Rightarrow>
      (\<exists>bs keep. as = bs @ [Done keep] \<and> filter is_done bs = []) \<and>
      length (filter is_invoke as) \<le> 1 \<and>
      length (filter is_reply as) = (if p = None then 1 else 0)"
  using handle_protocol [OF demo_wf, where E = demo_env and ctx = 0 and canChan = True
      and req = "demo_request ''S.Add'' (Some 5) [2, 3]"]
  by (simp add: demo_request_def case_prod_beta)

theorem register_spec_witness:
  "\<exists>hs' h. register Map.empty ''S'' (GVal 0) [demo_Add, demo_Watch] = Inr hs' \<and> wf_handlers hs' \<and>
      hs' ''S.Add'' = Some h \<and> rh_handlerFunc h = demo_Add \<and> rh_hasCtx h = 1 \<and>
      rh_paramReceivers h = [NamedT ''int'', NamedT ''int''] \<and> rh_valOut h = 0 \<and> rh_errOut h = 1"
proof -
  have "distinct (map mt_Name [demo_Add, demo_Watch])" by (simp add: demo_defs)
  moreover have "\<forall>f\<in>set [demo_Add, demo_Watch]. wf_method f" using demo_wf_methods by simp
  moreover have "wf_handlers Map.empty" by (simp add: wf_handlers_def)
  moreover have "\<forall>f\<in>set [demo_Add, demo_Watch]. length (mt_Out f) \<le> 2 \<and> (length (mt_Out f) = 2 \<longrightarrow> mt_Out f ! 1 = ErrorT)"
    by (simp add: demo_defs)
  ultimately obtain hs' h where "register Map.empty ''S'' (GVal 0) [demo_Add, demo_Watch] = Inr hs'" "wf_handlers hs'"
    "hs' (''S'' @ ''.'' @ mt_Name demo_Add) = Some h" "records (GVal 0) demo_Add h"
    using register_spec [of "[demo_Add, demo_Watch]" Map.empty "''S''" "GVal 0"] by auto
  then show ?thesis by (auto simp: records_def demo_Add_def)
qed

theorem handle_refuses_witness:
  "(\<exists>e keep. handle demo_env demo_handlers 0 (demo_request ''S.Sub'' (Some 5) []) True
      = ([RpcError (-32601) e, Done keep], None)) \<and>
   (\<exists>e keep. handle demo_env demo_handlers 0 (demo_request ''S.Add'' (Some 5) [1]) True
      = ([RpcError (-32602) e, Done keep], None)) \<and>
   (\<exists>e keep. handle demo_env demo_handlers 0 (demo_request ''S.Watch'' (Some 5) []) False
      = ([RpcError (-32601) e, Done keep], None)) \<and>
   (\<exists>args bs p. handle demo_env demo_handlers 0 (demo_request ''S.Add'' (Some 5) [1, 2]) False
      = (Invoke args # bs, p))"
proof -
  have r: "refusal demo_env demo_handlers (demo_request ''S.Sub'' (Some 5) []) True = Some (-32601)"
    "refusal demo_env demo_handlers (demo_request ''S.Add'' (Some 5) [1]) True = Some (-32602)"
    "refusal demo_env demo_handlers (demo_request ''S.Watch'' (Some 5) []) False = Some (-32601)"
    "refusal demo_env demo_handlers (demo_request ''S.Add'' (Some 5) [1, 2]) False = None"
    by (simp_all add: refusal_def demo_handlers_def demo_defs handlerOf_def Let_def
        rpcMethodNotFound_def rpcInvalidParams_def upt_rec)
  note t = handle_refuses [OF demo_wf, where E = demo_env and ctx = 0]
  show ?thesis
    using t [where canChan = True and req = "demo_request ''S.Sub'' (Some 5) []"]
      t [where canChan = True and req = "demo_request ''S.Add'' (Some 5) [1]"]
      t [where canChan = False and req = "demo_request ''S.Watch'' (Some 5) []"]
      t [where canChan = False and req = "demo_request ''S.Add'' (Some 5) [1, 2]"]
    unfolding r by simp
qed

theorem ServeHTTP_success_witness:
  "ServeHTTP demo_env demo_handlers 0 False
     \<lparr>hq_Connection = ''keep-alive'', hq_Protocol = '''', hq_Body = Inr (demo_request ''S.Add'' (Some 5) [2, 3])\<rparr>
   = Inr (Replied \<lparr>ht_status = Some 200, ht_header = [], ht_body =
       [\<lparr>fr_Jsonrpc = ''2.0'', fr_ID = Some 5, fr_Meta = None, fr_Method = '''', fr_Params = [],
         fr_Result = Some (Doc (JInt 5)), fr_Error = None\<rparr>]\<rparr>)"
proof -
  let ?h = "handlerOf (GVal 0) demo_Add 0 1" and ?req = "demo_request ''S.Add'' (Some 5) [2, 3]"
  have h: "rh_paramReceivers ?h = [NamedT ''int'', NamedT ''int'']" "rh_hasCtx ?h = 1"
    by (simp_all add: handlerOf_def Let_def demo_defs upt_rec)
  have "filter is_invoke (fst (handle demo_env demo_handlers 0 ?req False)) = [Invoke (callArgs demo_env 0 ?h ?req [GVal 2, GVal 3])] \<and>
    ServeHTTP demo_env demo_handlers 0 False \<lparr>hq_Connection = ''keep-alive'', hq_Protocol = '''', hq_Body = Inr ?req\<rparr> =
     (case req_ID ?req of
        None \<Rightarrow> Inl NilDereference
      | Some i \<Rightarrow> Inr (Replied \<lparr>ht_status = Some 200, ht_header = [], ht_body =
          [\<lparr>fr_Jsonrpc = ''2.0'', fr_ID = Some i, fr_Meta = None, fr_Method = '''', fr_Params = [],
            fr_Result = (if resultOf ?h [GVal 5, GNil] = GNil then None else Some (Doc (JInt 5))),
            fr_Error = errorOf ?h [GVal 5, GNil]\<rparr>]\<rparr>))"
  proof (rule ServeHTTP_success [OF demo_wf])
    show "\<not> contains ''keep-alive'' ''Upgrade''" by code_simp
    show "doCall (req_Method ?req) (rh_handlerFunc ?h) (callArgs demo_env 0 ?h ?req [GVal 2, GVal 3]) = Inr [GVal 5, GNil]"
      using h by (simp add: doCall_def callArgs_def demo_defs)
  qed (use h in \<open>simp_all add: demo_handlers_def demo_defs nth_Cons' chanResult_def marshal_def resultOf_def\<close>)
  then show ?thesis by (simp add: demo_request_def resultOf_def errorOf_def)
qed


end
