(* ===== verification/RpcClient.thy ===== *)
theory RpcClient
  imports RpcTypes
begin

text \<open>
  The calling side of package \<open>rpc\<close> (\<open>src/main/rpc/client.go\<close>): the stubs that
  \<open>makeRpcFunc\<close> builds for the function fields of a struct, what a stub sends, what it makes of the
  answer, and the buffer that feeds the channel of a channel-valued call (\<open>makeOutChan\<close>).
\<close>

section \<open>Stubs\<close>

record rpcFunc =
  rf_In :: "gotype list"
  rf_Out :: "gotype list"
  rf_name :: string
  rf_nout :: nat
  rf_valOut :: int
  rf_errOut :: int
  rf_hasCtx :: nat
  rf_retCh :: bool

definition makeRpcFunc :: "string \<times> gotype \<Rightarrow> (string + rpcFunc) go" where
  "makeRpcFunc f =
     (case f of (name, ftyp) \<Rightarrow>
        (case ftyp of
           FuncT ins outs \<Rightarrow>
             gbind (processFuncOut outs) (\<lambda>(valOut, errOut, n).
               Inr (Inr \<lparr>rf_In = ins, rf_Out = outs, rf_name = name, rf_nout = n,
                 rf_valOut = valOut, rf_errOut = errOut,
                 rf_hasCtx = (if 0 < length ins \<and> ins ! 0 = ContextT then 1 else 0),
                 rf_retCh = (valOut \<noteq> -1 \<and> is_chan (outs ! nat valOut))\<rparr>))
         | _ \<Rightarrow> Inr (Inl ''handler field not a func'')))"

text \<open>The zero value of a type (\<open>reflect.New(t).Elem()\<close>).\<close>

definition zeroOf :: "('v, 'sc) env \<Rightarrow> gotype \<Rightarrow> 'v goval" where
  "zeroOf E t = (case t of ErrorT \<Rightarrow> GNil | ContextT \<Rightarrow> GNil | _ \<Rightarrow> env_zero E t)"

text \<open>
  The result slices start as invalid \<open>reflect.Value\<close>s (\<open>None\<close>). \<open>processError\<close> has an error to
  report; the line that stores it is commented out. An index out of range panics.
\<close>

definition go_put :: "'a list \<Rightarrow> int \<Rightarrow> 'a \<Rightarrow> 'a list go" where
  "go_put xs i x = (if 0 \<le> i \<and> nat i < length xs then Inr (xs[nat i := x]) else Inl IndexOutOfRange)"

definition processError :: "('v, 'sc) env \<Rightarrow> rpcFunc \<Rightarrow> string \<Rightarrow> 'v goval option list go" where
  "processError E fn err =
     gbind (if rf_valOut fn = -1 then Inr (replicate (rf_nout fn) None)
            else go_put (replicate (rf_nout fn) None) (rf_valOut fn)
                   (Some (zeroOf E (rf_Out fn ! nat (rf_valOut fn))))) (\<lambda>out.
     if rf_errOut fn = -1 then Inr out else go_put out (rf_errOut fn) (Some (zeroOf E ErrorT)))"

definition processResponse ::
  "('v, 'sc) env \<Rightarrow> rpcFunc \<Rightarrow> clientResponse \<Rightarrow> 'v goval option \<Rightarrow> 'v goval option list go" where
  "processResponse E fn resp rval =
     gbind (if rf_valOut fn = -1 then Inr (replicate (rf_nout fn) None)
            else go_put (replicate (rf_nout fn) None) (rf_valOut fn) rval) (\<lambda>out.
     if rf_errOut fn = -1 then Inr out
     else go_put out (rf_errOut fn)
       (Some (case cr_Error resp of None \<Rightarrow> zeroOf E ErrorT | Some e \<Rightarrow> GError (respError_Error e))))"

text \<open>What the closure of \<open>reflect.MakeFunc\<close> accepts: every result has to be valid.\<close>

definition makeFuncResult :: "'v goval option list \<Rightarrow> 'v goval list go" where
  "makeFuncResult out =
     (if None \<in> set out then Inl (PanicMessage ''reflect: function created by MakeFunc using closure returned zero Value'')
      else Inr (map the out))"

section \<open>One call\<close>

text \<open>
  \<open>handleRpcCall\<close> up to \<open>sendRequest\<close>: the parameters (the context left out) with their documents
  in \<open>Data\<close>, the span of the call in the metadata, the id drawn from \<open>idCtr\<close> by the caller.
  The result carries the context of the call, nil when the stub has none.
\<close>

definition stubParam :: "('v, 'sc) env \<Rightarrow> 'v goval \<Rightarrow> 'v Param" where
  "stubParam E arg =
     (let p = \<lparr>p_Data = None, p_V = Some arg\<rparr> in UnmarshalJson p (MarshalJson E p))"

definition stubRequest ::
  "('v, 'sc) env \<Rightarrow> string \<Rightarrow> rpcFunc \<Rightarrow> goint \<Rightarrow> 'v goval list \<Rightarrow> ('v request \<times> nat option) go" where
  "stubRequest E namespace fn i args =
     (let params = map (stubParam E) (drop (rf_hasCtx fn) args);
          req = \<lparr>req_Jsonrpc = ''2.0'', req_ID = Some i, req_Method = namespace @ ''.'' @ rf_name fn,
                 req_Params = params, req_Meta = None\<rparr>
      in if rf_hasCtx fn = 1 then
           (case args of
              GCtx c # _ \<Rightarrow>
                (case env_callSpan E c of
                   (c', sc) \<Rightarrow> Inr (req\<lparr>req_Meta := Some [(''SpanContext'', b64encode sc)]\<rparr>, Some c'))
            | [] \<Rightarrow> Inl IndexOutOfRange
            | _ \<Rightarrow> Inl TypeAssertion)
         else Inr (req, None))"

text \<open>
  \<open>handleRpcCall\<close> after \<open>sendRequest\<close>, whose result is an error text or a response. For a
  channel-valued stub \<open>retVal\<close> is the channel made by the sink, or the nil channel.
\<close>

definition finishCall ::
  "('v, 'sc) env \<Rightarrow> rpcFunc \<Rightarrow> 'v request \<Rightarrow> string + clientResponse \<Rightarrow> 'v goval \<Rightarrow> 'v goval list go" where
  "finishCall E fn req sent retVal =
     gbind
       (case sent of
          Inl err \<Rightarrow> processError E fn (''sendRequest failed: '' @ err)
        | Inr resp \<Rightarrow>
            (case (cr_ID resp, req_ID req) of
               (Some a, Some b) \<Rightarrow>
                 if a \<noteq> b then processError E fn ''request and response id did not match''
                 else if rf_valOut fn \<noteq> -1 \<and> \<not> rf_retCh fn then
                   (let t = rf_Out fn ! nat (rf_valOut fn) in
                    case cr_Result resp of
                      None \<Rightarrow> processResponse E fn resp (Some (zeroOf E t))
                    | Some d \<Rightarrow>
                        (case env_decode E t (Some d) of
                           Inl e \<Rightarrow> processError E fn (''unmarshaling result: '' @ e)
                         | Inr v \<Rightarrow> processResponse E fn resp (Some v)))
                 else processResponse E fn resp (if rf_retCh fn then Some retVal else None)
             | _ \<Rightarrow> Inl NilDereference))
       makeFuncResult"

text \<open>A stub built by \<open>makeRpcFunc\<close>.\<close>

definition stub_of :: "rpcFunc \<Rightarrow> bool" where
  "stub_of fn \<longleftrightarrow> makeRpcFunc (rf_name fn, FuncT (rf_In fn) (rf_Out fn)) = Inr (Inr fn)"

lemma stub_of_iff:
  "stub_of fn \<longleftrightarrow> processFuncOut (rf_Out fn) = Inr (rf_valOut fn, rf_errOut fn, rf_nout fn) \<and>
     rf_hasCtx fn = (if rf_In fn \<noteq> [] \<and> rf_In fn ! 0 = ContextT then 1 else 0) \<and>
     rf_retCh fn = (rf_valOut fn \<noteq> -1 \<and> is_chan (rf_Out fn ! nat (rf_valOut fn)))"
  by (cases fn; cases "processFuncOut (rf_Out fn)") (auto simp: stub_of_def makeRpcFunc_def)

lemma stub_of_cases:
  assumes "stub_of fn"
  obtains "rf_Out fn = []" "rf_valOut fn = -1" "rf_errOut fn = -1" "rf_nout fn = 0" "\<not> rf_retCh fn"
  | "rf_Out fn = [ErrorT]" "rf_valOut fn = -1" "rf_errOut fn = 0" "rf_nout fn = 1" "\<not> rf_retCh fn"
  | t where "rf_Out fn = [t]" "t \<noteq> ErrorT" "rf_valOut fn = 0" "rf_errOut fn = -1" "rf_nout fn = 1"
      "rf_retCh fn = is_chan t"
  | t where "rf_Out fn = [t, ErrorT]" "rf_valOut fn = 0" "rf_errOut fn = 1" "rf_nout fn = 2"
      "rf_retCh fn = is_chan t"
proof -
  from assms have po: "processFuncOut (rf_Out fn) = Inr (rf_valOut fn, rf_errOut fn, rf_nout fn)"
    and ch: "rf_retCh fn = (rf_valOut fn \<noteq> -1 \<and> is_chan (rf_Out fn ! nat (rf_valOut fn)))"
    by (simp_all add: stub_of_iff)
  from po show thesis by (rule processFuncOut_cases) (use ch that in auto)
qed

lemmas result_defs = numeral_2_eq_2 go_put_def makeFuncResult_def processError_def processResponse_def

text \<open>The two ways a call ends, for a stub of \<open>makeRpcFunc\<close>: the zero values, or a value and an error.\<close>

definition zeroResults :: "('v, 'sc) env \<Rightarrow> rpcFunc \<Rightarrow> 'v goval list" where
  "zeroResults E fn = map (zeroOf E) (rf_Out fn)"

lemma processError_zero:
  assumes "stub_of fn"
  shows "gbind (processError E fn err) makeFuncResult = Inr (zeroResults E fn)"
  using assms by (rule stub_of_cases) (simp_all add: result_defs zeroResults_def)

lemma processResponse_values:
  assumes "stub_of fn"
  shows "gbind (processResponse E fn resp (Some v)) makeFuncResult =
    Inr (map (\<lambda>i. if int i = rf_errOut fn
         then (case cr_Error resp of None \<Rightarrow> GNil | Some e \<Rightarrow> GError (respError_Error e)) else v)
       [0..<rf_nout fn])"
  using assms
  by (rule stub_of_cases) (auto simp: result_defs zeroOf_def upt_rec split: option.split)

text \<open>
  C40: every failure inside a stub looks like a success to its caller. When the request could not be
  sent, when the response has another id, and when its result does not decode, the stub returns the
  zero value of every result type, the nil error included.
\<close>

theorem call_failures_look_successful:
  assumes "stub_of fn" "req_ID req = Some i" "cr_ID resp = Some k"
    and "k \<noteq> i \<or> (\<exists>d e. rf_valOut fn \<noteq> -1 \<and> \<not> rf_retCh fn \<and> cr_Result resp = Some d \<and>
           env_decode E (rf_Out fn ! nat (rf_valOut fn)) (Some d) = Inl e)"
  shows "finishCall E fn req (Inl err) ch = Inr (zeroResults E fn) \<and>
    finishCall E fn req (Inr resp) ch = Inr (zeroResults E fn) \<and>
    (rf_errOut fn \<noteq> -1 \<longrightarrow> zeroResults E fn ! nat (rf_errOut fn) = GNil)"
proof (intro conjI impI)
  assume "rf_errOut fn \<noteq> -1"
  with assms(1) show "zeroResults E fn ! nat (rf_errOut fn) = GNil"
    by (auto simp: zeroResults_def zeroOf_def elim!: stub_of_cases)
qed (use assms processError_zero [OF assms(1)] in \<open>auto simp: finishCall_def Let_def\<close>)

text \<open>
  C39: a stub never panics on a response that has an id: it returns one value per declared result,
  whatever the response holds; a response without an id is a nil dereference.
\<close>

theorem finishCall_total:
  assumes "stub_of fn" "req_ID req = Some i"
  shows "case sent of
      Inr resp \<Rightarrow> (if cr_ID resp = None then finishCall E fn req sent ch = Inl NilDereference
                    else \<exists>out. finishCall E fn req sent ch = Inr out \<and> length out = length (rf_Out fn))
    | Inl err \<Rightarrow> \<exists>out. finishCall E fn req sent ch = Inr out \<and> length out = length (rf_Out fn)"
proof -
  have nout: "rf_nout fn = length (rf_Out fn)" using assms(1) by (rule stub_of_cases) simp_all
  note ends = processError_zero [OF assms(1)] processResponse_values [OF assms(1)]
  have no_val: "\<exists>out. gbind (processResponse E fn resp (if rf_retCh fn then Some ch else None)) makeFuncResult = Inr out
      \<and> length out = length (rf_Out fn)" if "rf_valOut fn = -1 \<or> rf_retCh fn" for resp
    using assms(1) by (rule stub_of_cases) (use that in \<open>auto simp: result_defs zeroOf_def split: option.split\<close>)
  show ?thesis
  proof (cases sent)
    case (Inr resp)
    then show ?thesis
      using assms(2) no_val [of resp]
      by (auto simp: ends nout finishCall_def Let_def zeroResults_def split: option.split sum.split)
  qed (simp add: ends finishCall_def zeroResults_def)
qed

definition demo_stub :: rpcFunc where
  "demo_stub = \<lparr>rf_In = [ContextT, NamedT ''int'', NamedT ''int''], rf_Out = [NamedT ''int'', ErrorT],
     rf_name = ''Add'', rf_nout = 2, rf_valOut = 0, rf_errOut = 1, rf_hasCtx = 1, rf_retCh = False\<rparr>"

lemma demo_stub_of: "stub_of demo_stub"
  by (simp add: stub_of_iff demo_stub_def processFuncOut_def)

definition demo_call :: "int request" where
  "demo_call = \<lparr>req_Jsonrpc = ''2.0'', req_ID = Some 5, req_Method = ''S.Add'', req_Params = [], req_Meta = None\<rparr>"

theorem call_failures_look_successful_witness:
  "finishCall demo_env demo_stub demo_call
     (Inr \<lparr>cr_Jsonrpc = ''2.0'', cr_Result = Some (Doc (JStr ''x'')), cr_ID = Some 5, cr_Error = None\<rparr>) GNil
   = Inr [GVal 0, GNil]"
  using call_failures_look_successful [OF demo_stub_of, of demo_call 5
      "\<lparr>cr_Jsonrpc = ''2.0'', cr_Result = Some (Doc (JStr ''x'')), cr_ID = Some 5, cr_Error = None\<rparr>" 5 demo_env
      "''''" GNil]
  by (simp add: demo_call_def demo_stub_def demo_env_def zeroResults_def zeroOf_def)

theorem finishCall_total_witness:
  "\<exists>out. finishCall demo_env demo_stub demo_call
     (Inr \<lparr>cr_Jsonrpc = ''2.0'', cr_Result = Some (Doc (JInt 8)), cr_ID = Some 5, cr_Error = None\<rparr>) GNil
   = Inr out \<and> length out = length (rf_Out demo_stub)"
  using finishCall_total [OF demo_stub_of, of demo_call 5 demo_env
      "Inr \<lparr>cr_Jsonrpc = ''2.0'', cr_Result = Some (Doc (JInt 8)), cr_ID = Some 5, cr_Error = None\<rparr>" GNil]
  by (simp add: demo_call_def)

section \<open>The buffer of a channel-valued call (\<open>makeOutChan\<close>)\<close>

text \<open>
  The sink that \<open>chCtor\<close> returns appends each decoded value to \<open>buf\<close> and starts a goroutine when
  the buffer was empty; the goroutine offers the front of the buffer to the unbuffered channel \<open>ch\<close>
  until the buffer is empty. \<open>bufLk\<close> is held by the sink while it appends and handed over to a new
  goroutine, so appending and picking the first front are one step; it is free while the goroutine
  waits in its \<open>select\<close>. Ghost fields record what the sink accepted and what a receiver got, and the
  number of goroutines.

  A goroutine is at its \<open>select\<close> with a front (\<open>Selecting\<close>), past a send and waiting for the lock
  (\<open>Sent\<close>), or past a receive from \<open>chCtx.Done()\<close> and waiting for the lock (\<open>Stopped\<close>).
\<close>

datatype 'v forwarder = Selecting 'v | Sent 'v | Stopped

record 'v outChan =
  oc_buf :: "'v list"
  oc_fwds :: "'v forwarder list"
  oc_ctxErr :: bool
  oc_chDone :: bool
  oc_closed :: bool
  oc_panic :: "go_panic option"
  oc_accepted :: "'v list"
  oc_received :: "'v list"

definition outChan_init :: "'v outChan" where
  "outChan_init = \<lparr>oc_buf = [], oc_fwds = [], oc_ctxErr = False, oc_chDone = False, oc_closed = False,
     oc_panic = None, oc_accepted = [], oc_received = []\<rparr>"

text \<open>The sink on a message (\<open>None\<close>: it did not decode) and on the end of the remote channel.\<close>

definition sinkMessage :: "'v option \<Rightarrow> 'v outChan \<Rightarrow> 'v outChan" where
  "sinkMessage r s =
     (case r of
        None \<Rightarrow> s
      | Some v \<Rightarrow>
          if oc_ctxErr s then s
          else (let buf = oc_buf s @ [v]; s1 = s\<lparr>oc_buf := buf, oc_accepted := oc_accepted s @ [v]\<rparr> in
                if length buf > 1 then s1
                else s1\<lparr>oc_fwds := oc_fwds s @ [Selecting (hd buf)]\<rparr>))"

definition sinkClose :: "'v outChan \<Rightarrow> 'v outChan" where
  "sinkClose s =
     (if oc_closed s then s\<lparr>oc_chDone := True, oc_panic := Some CloseOfClosedChannel\<rparr>
      else s\<lparr>oc_chDone := True, oc_closed := True\<rparr>)"

text \<open>The end of one round of the goroutine, under the lock: go on with the new front or return.\<close>

definition nextRound :: "nat \<Rightarrow> 'v list \<Rightarrow> 'v outChan \<Rightarrow> 'v outChan" where
  "nextRound k buf s =
     s\<lparr>oc_buf := buf,
       oc_fwds := (case buf of [] \<Rightarrow> take k (oc_fwds s) @ drop (Suc k) (oc_fwds s)
                   | v # _ \<Rightarrow> (oc_fwds s)[k := Selecting v])\<rparr>"

text \<open>
  The steps: the sink is called; the context of the call is cancelled; the \<open>k\<close>-th goroutine sends
  its front to a receiver, finds \<open>chCtx\<close> done, or takes the lock. A \<open>select\<close> that meets the closed
  channel panics, unless it happens to look at \<open>chCtx\<close> first.
\<close>

inductive outChan_step :: "'v outChan \<Rightarrow> 'v outChan \<Rightarrow> bool" where
  message: "oc_panic s = None \<Longrightarrow> \<not> oc_closed s \<Longrightarrow> outChan_step s (sinkMessage r s)"
| remote_close: "oc_panic s = None \<Longrightarrow> \<not> oc_closed s \<Longrightarrow> outChan_step s (sinkClose s)"
| cancel: "oc_panic s = None \<Longrightarrow> outChan_step s (s\<lparr>oc_ctxErr := True, oc_chDone := True\<rparr>)"
| send: "oc_panic s = None \<Longrightarrow> k < length (oc_fwds s) \<Longrightarrow> oc_fwds s ! k = Selecting v \<Longrightarrow>
    \<not> oc_closed s \<Longrightarrow>
    outChan_step s (s\<lparr>oc_fwds := (oc_fwds s)[k := Sent v], oc_received := oc_received s @ [v]\<rparr>)"
| send_closed: "oc_panic s = None \<Longrightarrow> k < length (oc_fwds s) \<Longrightarrow> oc_fwds s ! k = Selecting v \<Longrightarrow>
    oc_closed s \<Longrightarrow> outChan_step s (s\<lparr>oc_panic := Some SendOnClosedChannel\<rparr>)"
| stop: "oc_panic s = None \<Longrightarrow> k < length (oc_fwds s) \<Longrightarrow> oc_fwds s ! k = Selecting v \<Longrightarrow>
    oc_chDone s \<Longrightarrow> outChan_step s (s\<lparr>oc_fwds := (oc_fwds s)[k := Stopped]\<rparr>)"
| stopped: "oc_panic s = None \<Longrightarrow> k < length (oc_fwds s) \<Longrightarrow> oc_fwds s ! k = Stopped \<Longrightarrow>
    outChan_step s (nextRound k [] s)"
| sent: "oc_panic s = None \<Longrightarrow> k < length (oc_fwds s) \<Longrightarrow> oc_fwds s ! k = Sent v \<Longrightarrow>
    outChan_step s (nextRound k (tl (oc_buf s)) s)"

text \<open>
  The invariant: there is one goroutine while the buffer is not empty and none otherwise, it holds
  the front of the buffer, and what was received followed by what is still to be sent is an initial
  part of what the sink accepted, all of it until the channel context is done.
\<close>

definition pending :: "'v outChan \<Rightarrow> 'v list" where
  "pending s = (case oc_fwds s of [Sent v] \<Rightarrow> tl (oc_buf s) | _ \<Rightarrow> oc_buf s)"

definition outChan_inv :: "'v outChan \<Rightarrow> bool" where
  "outChan_inv s \<longleftrightarrow>
     (case oc_fwds s of
        [] \<Rightarrow> oc_buf s = []
      | [Selecting v] \<Rightarrow> oc_buf s \<noteq> [] \<and> hd (oc_buf s) = v
      | [Sent v] \<Rightarrow> oc_buf s \<noteq> []
      | [Stopped] \<Rightarrow> oc_buf s \<noteq> [] \<and> oc_chDone s
      | _ \<Rightarrow> False) \<and>
     (oc_chDone s \<longleftrightarrow> oc_ctxErr s \<or> oc_closed s) \<and>
     (\<exists>lost. oc_accepted s = oc_received s @ pending s @ lost \<and> (lost \<noteq> [] \<longrightarrow> oc_chDone s)) \<and>
     (oc_panic s \<noteq> None \<longrightarrow> oc_panic s = Some SendOnClosedChannel \<and> oc_closed s)"

lemma outChan_inv_cases:
  assumes "outChan_inv s"
  obtains "oc_fwds s = []" "oc_buf s = []"
  | v buf where "oc_fwds s = [Selecting v]" "oc_buf s = v # buf"
  | v w buf where "oc_fwds s = [Sent v]" "oc_buf s = w # buf"
  | v buf where "oc_fwds s = [Stopped]" "oc_buf s = v # buf" "oc_chDone s"
  using assms
  by (cases "oc_buf s") (auto simp: outChan_inv_def split: list.splits forwarder.splits)

lemma outChan_inv_fwd:
  assumes "outChan_inv s" "k < length (oc_fwds s)"
  obtains w ws where "k = 0" "oc_fwds s = [oc_fwds s ! 0]" "oc_buf s = w # ws"
  using assms(1) by (rule outChan_inv_cases) (use assms(2) that in auto)

lemma outChan_inv_step:
  assumes "outChan_inv s" "outChan_step s t"
  shows "outChan_inv t"
  using assms(2)
proof cases
  case (message r)
  from assms(1) show ?thesis
    by (rule outChan_inv_cases)
      (use assms(1) message in \<open>auto simp: sinkMessage_def Let_def outChan_inv_def pending_def split: option.splits\<close>)
next
  case remote_close
  with assms(1) show ?thesis
    by (auto simp: sinkClose_def outChan_inv_def pending_def split: list.splits forwarder.splits)
next
  case cancel
  with assms(1) show ?thesis
    by (auto simp: outChan_inv_def pending_def split: list.splits forwarder.splits)
next
  case (send k v)
  from assms(1) send(3) show ?thesis
    by (rule outChan_inv_fwd) (use assms(1) send in \<open>auto simp: outChan_inv_def pending_def\<close>)
next
  case (send_closed k v)
  with assms(1) show ?thesis
    by (auto simp: outChan_inv_def pending_def split: list.splits forwarder.splits)
next
  case (stop k v)
  from assms(1) stop(3) show ?thesis
    by (rule outChan_inv_fwd) (use assms(1) stop in \<open>auto simp: outChan_inv_def pending_def\<close>)
next
  case (stopped k)
  from assms(1) stopped(3) show ?thesis
    by (rule outChan_inv_fwd) (use assms(1) stopped in \<open>auto simp: outChan_inv_def pending_def nextRound_def\<close>)
next
  case (sent k v)
  from assms(1) sent(3) show ?thesis
    by (rule outChan_inv_fwd)
      (use assms(1) sent in \<open>auto simp: outChan_inv_def pending_def nextRound_def split: list.split\<close>)
qed

lemma outChan_inv_init: "outChan_inv outChan_init"
  by (simp add: outChan_inv_def outChan_init_def pending_def)

interpretation oc: invariant "\<lambda>s. s = outChan_init" outChan_step outChan_inv
  by unfold_locales (auto intro: outChan_inv_step outChan_inv_init)

abbreviation outChan_reachable :: "'v outChan \<Rightarrow> bool" where
  "outChan_reachable \<equiv> reachable (\<lambda>s. s = outChan_init) outChan_step"

lemmas outChan_reach = reachable_step [where step = outChan_step]

text \<open>
  C17: the channel of a channel-valued call. In every interleaving of the sink, the receiver,
  cancellation and the forwarding goroutines, the receiver gets an initial part of the values the
  sink accepted, in order and without repetition; until the call is cancelled or the remote
  channel closed, nothing is lost: received values followed by those still waiting are all that
  were accepted. One goroutine forwards exactly while the buffer is not empty, and it holds the
  next value to send.
\<close>

theorem outChan_fifo:
  assumes "reachable (\<lambda>s. s = outChan_init) outChan_step s"
  shows "(\<exists>lost. oc_accepted s = oc_received s @ pending s @ lost) \<and>
    (\<not> oc_ctxErr s \<and> \<not> oc_closed s \<longrightarrow> oc_accepted s = oc_received s @ pending s) \<and>
    length (oc_fwds s) = (if oc_buf s = [] then 0 else 1) \<and>
    (\<forall>v. Selecting v \<in> set (oc_fwds s) \<longrightarrow> pending s \<noteq> [] \<and> v = hd (pending s))"
proof -
  have inv: "outChan_inv s" using oc.inv_reachable [OF assms] .
  then have "\<exists>lost. oc_accepted s = oc_received s @ pending s @ lost \<and> (lost \<noteq> [] \<longrightarrow> oc_chDone s)"
    "oc_chDone s \<longleftrightarrow> oc_ctxErr s \<or> oc_closed s" by (auto simp: outChan_inv_def)
  moreover have "length (oc_fwds s) = (if oc_buf s = [] then 0 else 1)"
    "\<forall>v. Selecting v \<in> set (oc_fwds s) \<longrightarrow> pending s \<noteq> [] \<and> v = hd (pending s)"
    using inv by (auto elim!: outChan_inv_cases simp: pending_def)
  ultimately show ?thesis by fastforce
qed

definition demo_pending :: "int outChan" where
  "demo_pending = sinkMessage (Some 3) (sinkMessage (Some 2) outChan_init)"

lemma demo_pending_reachable: "reachable (\<lambda>s. s = outChan_init) outChan_step demo_pending"
  unfolding demo_pending_def
  by (intro outChan_reach [OF _ message] reachable_init)
    (simp_all add: sinkMessage_def outChan_init_def Let_def)

theorem outChan_fifo_witness:
  "\<exists>lost. oc_accepted demo_pending = oc_received demo_pending @ pending demo_pending @ lost"
  using outChan_fifo [OF demo_pending_reachable] by blast

text \<open>
  A remote channel that closes while values are waiting. The forwarding goroutine may send on
  the closed channel and panic, or discard the waiting values although the remote side sent them
  before it closed the channel; closing the channel twice cannot happen.
\<close>

theorem outChan_close_hazard:
  "(\<exists>s. reachable (\<lambda>s. s = (outChan_init :: 'v outChan)) outChan_step s \<and>
      oc_panic s = Some SendOnClosedChannel) \<and>
   (\<exists>s. reachable (\<lambda>s. s = (outChan_init :: 'v outChan)) outChan_step s \<and> oc_panic s = None \<and>
      \<not> oc_ctxErr s \<and> oc_fwds s = [] \<and> oc_buf s = [] \<and> oc_accepted s = [v] \<and> oc_received s = []) \<and>
   (\<nexists>s. reachable (\<lambda>s. s = (outChan_init :: 'v outChan)) outChan_step s \<and>
      oc_panic s = Some CloseOfClosedChannel)"
proof -
  define c :: "'v outChan" where "c = sinkClose (sinkMessage (Some v) outChan_init)"
  have c: "c = \<lparr>oc_buf = [v], oc_fwds = [Selecting v], oc_ctxErr = False, oc_chDone = True,
      oc_closed = True, oc_panic = None, oc_accepted = [v], oc_received = []\<rparr>"
    by (simp add: c_def sinkClose_def sinkMessage_def outChan_init_def Let_def)
  have r: "reachable (\<lambda>s. s = outChan_init) outChan_step c"
    unfolding c_def
    by (rule outChan_reach [OF outChan_reach [OF reachable_init message] remote_close])
      (simp_all add: sinkMessage_def outChan_init_def Let_def)
  have "reachable (\<lambda>s. s = outChan_init) outChan_step (c\<lparr>oc_panic := Some SendOnClosedChannel\<rparr>)"
    by (rule outChan_reach [OF r send_closed [of _ 0 v]]) (simp_all add: c)
  then have 1: "\<exists>s :: 'v outChan. outChan_reachable s \<and> oc_panic s = Some SendOnClosedChannel"
    by (intro exI conjI, assumption) simp
  have d: "nextRound 0 [] (c\<lparr>oc_fwds := [Stopped]\<rparr>) = c\<lparr>oc_fwds := [], oc_buf := []\<rparr>"
    by (simp add: nextRound_def c)
  have "reachable (\<lambda>s. s = outChan_init) outChan_step (nextRound 0 [] (c\<lparr>oc_fwds := [Stopped]\<rparr>))"
  proof (rule outChan_reach [OF _ stopped])
    have "outChan_step c (c\<lparr>oc_fwds := (oc_fwds c)[0 := Stopped]\<rparr>)"
      by (rule outChan_step.stop [of _ 0 v]) (simp_all add: c)
    then show "reachable (\<lambda>s. s = outChan_init) outChan_step (c\<lparr>oc_fwds := [Stopped]\<rparr>)"
      using outChan_reach [OF r] by (simp add: c)
  qed (simp_all add: c)
  then have 2: "\<exists>s. outChan_reachable s \<and> oc_panic s = None \<and>
      \<not> oc_ctxErr s \<and> oc_fwds s = [] \<and> oc_buf s = [] \<and> oc_accepted s = [v] \<and> oc_received s = []"
    unfolding d by (intro exI conjI, assumption) (simp_all add: c)
  have "oc_panic s \<noteq> Some CloseOfClosedChannel" if "outChan_reachable s" for s :: "'v outChan"
    using oc.inv_reachable [OF that] by (auto simp: outChan_inv_def)
  with 1 2 show ?thesis by blast
qed

section \<open>Sending a request (\<open>client.sendRequest\<close>)\<close>

text \<open>
  The callers of one client, its request channel of capacity 100 and the connection's loop at the
  other end. A request is named by the caller's response channel; \<open>None\<close> in the queue is a
  cancellation. The loop takes requests until it returns; then its deferred function runs
  (\<open>cs_draining\<close> holds the requests its range over \<open>inflight\<close> still has to visit), and \<open>exiting\<close> is
  closed after it.
\<close>

datatype callerState = Calling | Waiting bool | Answered | Refused

record clientSys =
  cs_queue :: "nat option list"
  cs_taken :: "nat list"
  cs_answered :: "nat list"
  cs_draining :: "nat list option"
  cs_exited :: bool
  cs_crashed :: bool
  cs_callers :: "nat \<Rightarrow> callerState"

definition requestsCap :: nat where "requestsCap = 100"

definition clientSys_init :: "clientSys \<Rightarrow> bool" where
  "clientSys_init s \<longleftrightarrow> cs_queue s = [] \<and> cs_taken s = [] \<and> cs_answered s = [] \<and> cs_draining s = None \<and>
     \<not> cs_exited s \<and> \<not> cs_crashed s \<and> (\<forall>r. cs_callers s r = Calling)"

text \<open>
  The loop's side, from \<open>websocket.go\<close>: it takes a request and writes it (\<open>ok\<close>: the write succeeds),
  stopping the program on a cancellation, which has no id, and on a failed write; it passes the
  response of a request in flight on to its caller; and the deferred function answers one
  request of its range.
\<close>

definition loopTake :: "bool \<Rightarrow> clientSys \<Rightarrow> clientSys" where
  "loopTake ok s =
     (case cs_queue s of
        [] \<Rightarrow> s
      | None # qs \<Rightarrow> s\<lparr>cs_queue := qs, cs_crashed := True\<rparr>
      | Some r # qs \<Rightarrow> s\<lparr>cs_queue := qs, cs_taken := cs_taken s @ [r], cs_crashed := \<not> ok\<rparr>)"

definition loopAnswer :: "nat \<Rightarrow> clientSys \<Rightarrow> clientSys" where
  "loopAnswer r s = s\<lparr>cs_answered := cs_answered s @ [r]\<rparr>"

definition loopDrain :: "clientSys \<Rightarrow> clientSys" where
  "loopDrain s =
     (case cs_draining s of
        Some (r # rs) \<Rightarrow> (loopAnswer r s)\<lparr>cs_draining := Some rs\<rparr>
      | _ \<Rightarrow> s)"

definition inFlight :: "clientSys \<Rightarrow> nat set" where
  "inFlight s = set (cs_taken s) - set (cs_answered s)"

text \<open>
  The first \<open>select\<close> of \<open>sendRequest\<close> queues the request or, once \<open>exiting\<close> is closed, returns an
  error. The second waits for the response, or for the context, once (\<open>Waiting True\<close> is a
  caller whose context may still end): then a cancellation is queued, or dropped when the
  connection has ended. The last five rules are the loop's.
\<close>

inductive clientSys_step :: "clientSys \<Rightarrow> clientSys \<Rightarrow> bool" where
  enqueue: "\<not> cs_crashed s \<Longrightarrow> cs_callers s r = Calling \<Longrightarrow> length (cs_queue s) < requestsCap \<Longrightarrow>
    clientSys_step s (s\<lparr>cs_queue := cs_queue s @ [Some r], cs_callers := (cs_callers s)(r := Waiting True)\<rparr>)"
| refuse: "\<not> cs_crashed s \<Longrightarrow> cs_callers s r = Calling \<Longrightarrow> cs_exited s \<Longrightarrow>
    clientSys_step s (s\<lparr>cs_callers := (cs_callers s)(r := Refused)\<rparr>)"
| receive: "\<not> cs_crashed s \<Longrightarrow> cs_callers s r = Waiting b \<Longrightarrow> r \<in> set (cs_answered s) \<Longrightarrow>
    clientSys_step s (s\<lparr>cs_callers := (cs_callers s)(r := Answered)\<rparr>)"
| cancel_queued: "\<not> cs_crashed s \<Longrightarrow> cs_callers s r = Waiting True \<Longrightarrow> length (cs_queue s) < requestsCap \<Longrightarrow>
    clientSys_step s (s\<lparr>cs_queue := cs_queue s @ [None], cs_callers := (cs_callers s)(r := Waiting False)\<rparr>)"
| cancel_dropped: "\<not> cs_crashed s \<Longrightarrow> cs_callers s r = Waiting True \<Longrightarrow> cs_exited s \<Longrightarrow>
    clientSys_step s (s\<lparr>cs_callers := (cs_callers s)(r := Waiting False)\<rparr>)"
| take_next: "\<not> cs_crashed s \<Longrightarrow> cs_draining s = None \<Longrightarrow> cs_queue s \<noteq> [] \<Longrightarrow>
    clientSys_step s (loopTake ok s)"
| answer: "\<not> cs_crashed s \<Longrightarrow> cs_draining s = None \<Longrightarrow> r \<in> inFlight s \<Longrightarrow> clientSys_step s (loopAnswer r s)"
| leave: "\<not> cs_crashed s \<Longrightarrow> cs_draining s = None \<Longrightarrow> distinct rs \<Longrightarrow> set rs = inFlight s \<Longrightarrow>
    clientSys_step s (s\<lparr>cs_draining := Some rs\<rparr>)"
| drain: "\<not> cs_crashed s \<Longrightarrow> cs_draining s = Some (r # rs) \<Longrightarrow> clientSys_step s (loopDrain s)"
| close_exiting: "\<not> cs_crashed s \<Longrightarrow> cs_draining s = Some [] \<Longrightarrow> \<not> cs_exited s \<Longrightarrow>
    clientSys_step s (s\<lparr>cs_exited := True\<rparr>)"

lemmas loop_defs = loopTake_def loopAnswer_def loopDrain_def inFlight_def

text \<open>
  Every request is at one place: still with its caller, queued, or taken by the loop; the range of
  the deferred function holds what is still in flight.
\<close>

definition clientSys_inv :: "clientSys \<Rightarrow> bool" where
  "clientSys_inv s \<longleftrightarrow>
     distinct (filter (\<lambda>q. q \<noteq> None) (cs_queue s)) \<and> distinct (cs_taken s) \<and> distinct (cs_answered s) \<and>
     set (cs_answered s) \<subseteq> set (cs_taken s) \<and>
     (\<forall>r. Some r \<in> set (cs_queue s) \<longrightarrow> r \<notin> set (cs_taken s) \<and> (\<exists>b. cs_callers s r = Waiting b)) \<and>
     (\<forall>r b. cs_callers s r = Waiting b \<longrightarrow> Some r \<in> set (cs_queue s) \<or> r \<in> set (cs_taken s)) \<and>
     (\<forall>r. cs_callers s r = Calling \<or> cs_callers s r = Refused \<longrightarrow> r \<notin> set (cs_taken s)) \<and>
     (\<forall>r. cs_callers s r = Answered \<longrightarrow> r \<in> set (cs_answered s)) \<and>
     (\<forall>rs. cs_draining s = Some rs \<longrightarrow> distinct rs \<and> set rs = inFlight s) \<and>
     (cs_exited s \<longrightarrow> cs_draining s = Some [])"

lemma clientSys_inv_init: "clientSys_init s \<Longrightarrow> clientSys_inv s"
  by (simp add: clientSys_init_def clientSys_inv_def inFlight_def)

lemma clientSys_inv_take:
  assumes "clientSys_inv s" "cs_draining s = None"
  shows "clientSys_inv (loopTake ok s)"
proof (cases "cs_queue s")
  case (Cons q qs)
  show ?thesis
  proof (cases q)
    case (Some r)
    with Cons assms(1) have "Some r \<notin> set qs" "r \<notin> set (cs_taken s)" by (auto simp: clientSys_inv_def)
    with Cons Some assms show ?thesis by (auto simp: clientSys_inv_def loop_defs)
  qed (use Cons assms in \<open>auto simp: clientSys_inv_def loop_defs\<close>)
qed (use assms in \<open>simp add: loopTake_def\<close>)

lemma clientSys_inv_step: "clientSys_step s t \<Longrightarrow> clientSys_inv s \<Longrightarrow> clientSys_inv t"
proof (induction rule: clientSys_step.induct)
  case (enqueue s r)
  then have "Some r \<notin> set (cs_queue s)" "r \<notin> set (cs_taken s)" by (auto simp: clientSys_inv_def)
  with enqueue show ?case by (auto simp: clientSys_inv_def inFlight_def)
qed (auto simp: clientSys_inv_take, auto simp: clientSys_inv_def loop_defs split: if_splits)

interpretation cs: invariant clientSys_init clientSys_step clientSys_inv
  by unfold_locales (auto intro: clientSys_inv_init clientSys_inv_step)

text \<open>
  C29: a caller waits only for an answer that is there or can still come, with one exception. In
  every reachable state a caller whose request the loop took has its answer once the loop has
  exited; a caller whose request is still queued when the loop exits waits for ever, whatever
  happens afterwards, its context ending included.
\<close>

theorem queued_request_waits_for_ever:
  assumes "reachable clientSys_init clientSys_step s" "cs_exited s" "cs_callers s r = Waiting b"
  shows "(r \<in> set (cs_answered s) \<or> Some r \<in> set (cs_queue s)) \<and>
    (Some r \<in> set (cs_queue s) \<longrightarrow> (\<forall>t. clientSys_step\<^sup>*\<^sup>* s t \<longrightarrow> (\<exists>b'. cs_callers t r = Waiting b')))"
proof (intro conjI impI allI)
  have inv: "clientSys_inv s" using cs.inv_reachable [OF assms(1)] .
  then show "r \<in> set (cs_answered s) \<or> Some r \<in> set (cs_queue s)"
    using assms(2,3) by (auto simp: clientSys_inv_def inFlight_def)
  fix t assume q: "Some r \<in> set (cs_queue s)" and run: "clientSys_step\<^sup>*\<^sup>* s t"
  from run have "clientSys_inv t \<and> cs_exited t \<and> Some r \<in> set (cs_queue t)"
  proof (induction rule: rtranclp_induct)
    case base
    show ?case using inv assms(2) q by simp
  next
    case (step u v)
    then have "clientSys_inv v" using clientSys_inv_step by blast
    moreover from step(2) have "cs_exited v \<and> Some r \<in> set (cs_queue v)"
      by cases (use step(3) in \<open>auto simp: clientSys_inv_def loop_defs\<close>)
    ultimately show ?case by simp
  qed
  then show "\<exists>b'. cs_callers t r = Waiting b'" by (auto simp: clientSys_inv_def)
qed

definition demo_clients :: clientSys where
  "demo_clients = \<lparr>cs_queue = [], cs_taken = [], cs_answered = [], cs_draining = None, cs_exited = False, cs_crashed = False,
     cs_callers = (\<lambda>_. Calling)\<rparr>"

definition demo_hung :: clientSys where
  "demo_hung = demo_clients\<lparr>cs_draining := Some [], cs_exited := True, cs_queue := [Some 7],
     cs_callers := (\<lambda>_. Calling)(7 := Waiting True)\<rparr>"

lemma demo_hung_reachable: "reachable clientSys_init clientSys_step demo_hung"
proof -
  let ?s1 = "demo_clients\<lparr>cs_queue := [Some 7], cs_callers := (\<lambda>_. Calling)(7 := Waiting True)\<rparr>"
  have 0: "reachable clientSys_init clientSys_step demo_clients"
    by (rule reachable_init) (simp add: clientSys_init_def demo_clients_def)
  have "clientSys_step demo_clients ?s1"
    using enqueue [of demo_clients 7] by (simp add: demo_clients_def requestsCap_def)
  with 0 have 1: "reachable clientSys_init clientSys_step ?s1" by (rule reachable_step)
  have "clientSys_step ?s1 (?s1\<lparr>cs_draining := Some []\<rparr>)"
    by (rule leave) (simp_all add: demo_clients_def inFlight_def)
  with 1 have 2: "reachable clientSys_init clientSys_step (?s1\<lparr>cs_draining := Some []\<rparr>)" by (rule reachable_step)
  have "clientSys_step (?s1\<lparr>cs_draining := Some []\<rparr>) demo_hung"
    using close_exiting [of "?s1\<lparr>cs_draining := Some []\<rparr>"] by (simp add: demo_clients_def demo_hung_def)
  with 2 show ?thesis by (rule reachable_step)
qed

theorem queued_request_waits_for_ever_witness:
  "Some 7 \<in> set (cs_queue demo_hung) \<and> \<not> (\<exists>t. clientSys_step\<^sup>*\<^sup>* demo_hung t \<and> \<not> (\<exists>b. cs_callers t 7 = Waiting b))"
  using queued_request_waits_for_ever [OF demo_hung_reachable, of 7 True]
  by (auto simp: demo_hung_def)

section \<open>Building a client (\<open>NewMergeClient\<close>)\<close>

text \<open>
  After dialling, every field of every handler struct gets a stub, and the stub is called at once:
  with a background context, with the address \<open>id\<close> when it takes more than one parameter and with
  a nil tip set when it takes more than two. What the call returns (through the connection) is the
  parameter \<open>call\<close>, whether \<open>reflect\<close> accepts an argument at a type is \<open>assignable\<close>. The client
  returns the value of the last call that had no error.
\<close>

definition probeTypes :: "gotype list \<Rightarrow> gotype list" where
  "probeTypes ins = [ContextT] @ (if length ins > 1 then [NamedT ''address.Address''] else []) @
     (if length ins > 2 then [PtrT (NamedT ''types.TipSet'')] else [])"

definition callStub ::
  "(gotype \<Rightarrow> gotype \<Rightarrow> bool) \<Rightarrow> (rpcFunc \<Rightarrow> 'v goval list go) \<Rightarrow> rpcFunc \<Rightarrow> 'v goval list go" where
  "callStub assignable call fn =
     (let ts = probeTypes (rf_In fn) in
      if length (rf_In fn) < length ts then Inl (PanicMessage ''reflect: Call with too many input arguments'')
      else if length ts < length (rf_In fn) then Inl (PanicMessage ''reflect: Call with too few input arguments'')
      else if list_all2 assignable ts (rf_In fn) then call fn
      else Inl (PanicMessage ''reflect: Call using argument of another type''))"

definition probeField ::
  "(gotype \<Rightarrow> gotype \<Rightarrow> bool) \<Rightarrow> (rpcFunc \<Rightarrow> 'v goval list go) \<Rightarrow> string + 'v goval \<Rightarrow> string \<times> gotype
    \<Rightarrow> (string + 'v goval) go" where
  "probeField assignable call acc f =
     (case acc of
        Inl e \<Rightarrow> Inr (Inl e)
      | Inr data \<Rightarrow>
          gbind (makeRpcFunc f) (\<lambda>r.
            case r of
              Inl e \<Rightarrow> Inr (Inl e)
            | Inr fn \<Rightarrow>
                gbind (callStub assignable call fn) (\<lambda>totalValue.
                  case totalValue of
                    v # e # _ \<Rightarrow> Inr (Inr (if e \<noteq> GNil then data else v))
                  | _ \<Rightarrow> Inl IndexOutOfRange)))"

definition probeHandler ::
  "(gotype \<Rightarrow> gotype \<Rightarrow> bool) \<Rightarrow> (rpcFunc \<Rightarrow> 'v goval list go) \<Rightarrow> string + 'v goval \<Rightarrow> gotype
    \<Rightarrow> (string + 'v goval) go" where
  "probeHandler assignable call acc htyp =
     (case acc of
        Inl e \<Rightarrow> Inr (Inl e)
      | Inr data \<Rightarrow>
          (case htyp of
             PtrT (StructT flds) \<Rightarrow> gfold (probeField assignable call) (Inr data) flds
           | PtrT _ \<Rightarrow> Inr (Inl ''handler should be a struct'')
           | _ \<Rightarrow> Inr (Inl ''expected handler to be a pointer'')))"

definition NewMergeClient ::
  "(gotype \<Rightarrow> gotype \<Rightarrow> bool) \<Rightarrow> (rpcFunc \<Rightarrow> 'v goval list go) \<Rightarrow> gotype list \<Rightarrow> (string + 'v goval) go" where
  "NewMergeClient assignable call outs = gfold (probeHandler assignable call) (Inr GNil) outs"

definition NewClient ::
  "(gotype \<Rightarrow> gotype \<Rightarrow> bool) \<Rightarrow> (rpcFunc \<Rightarrow> 'v goval list go) \<Rightarrow> gotype \<Rightarrow> (string + 'v goval) go" where
  "NewClient assignable call handler = NewMergeClient assignable call [handler]"

text \<open>The signatures the probing call fits: a context, then at most an address and a tip set.\<close>

lemma probeTypes_length: "length (probeTypes ins) = length ins \<longleftrightarrow> length ins \<in> {1, 2, 3}"
  by (auto simp: probeTypes_def)

text \<open>
  \<open>NewClient\<close> on a pointer to a struct with one function field that takes a context and returns
  a value and an error. It calls the stub once and returns the value without an error, and when the
  stub reports an error it returns no value and no error either, so the caller cannot tell; a stub
  with no parameter, or with more than three, panics, and so does one that returns one result.
\<close>

theorem NewClient_one_field:
  assumes "stub_of fn"
  shows "(length (rf_In fn) \<notin> {1, 2, 3} \<longrightarrow>
      (\<exists>m. NewClient assignable call (PtrT (StructT [(rf_name fn, FuncT (rf_In fn) (rf_Out fn))])) =
         Inl (PanicMessage m))) \<and>
    (list_all2 assignable (probeTypes (rf_In fn)) (rf_In fn) \<and> call fn = Inr out \<and>
        length out = length (rf_Out fn) \<longrightarrow>
      NewClient assignable call (PtrT (StructT [(rf_name fn, FuncT (rf_In fn) (rf_Out fn))])) =
        (case rf_Out fn of
           [t, u] \<Rightarrow> Inr (Inr (if out ! 1 \<noteq> GNil then GNil else out ! 0))
         | _ \<Rightarrow> Inl IndexOutOfRange))"
proof (intro conjI impI)
  have mk: "makeRpcFunc (rf_name fn, FuncT (rf_In fn) (rf_Out fn)) = Inr (Inr fn)"
    using assms by (simp add: stub_of_def)
  note defs = NewClient_def NewMergeClient_def probeHandler_def probeField_def mk
  {
    assume "length (rf_In fn) \<notin> {1, 2, 3}"
    then have "length (probeTypes (rf_In fn)) \<noteq> length (rf_In fn)" using probeTypes_length by blast
    then show "\<exists>m. NewClient assignable call (PtrT (StructT [(rf_name fn, FuncT (rf_In fn) (rf_Out fn))])) =
         Inl (PanicMessage m)"
      by (cases "length (rf_In fn) < length (probeTypes (rf_In fn))") (auto simp: defs callStub_def Let_def)
  }
  assume a: "list_all2 assignable (probeTypes (rf_In fn)) (rf_In fn) \<and> call fn = Inr out \<and>
        length out = length (rf_Out fn)"
  then have cs: "callStub assignable call fn = Inr out"
    using list_all2_lengthD [of assignable "probeTypes (rf_In fn)" "rf_In fn"] by (simp add: callStub_def Let_def)
  have red: "NewClient assignable call (PtrT (StructT [(rf_name fn, FuncT (rf_In fn) (rf_Out fn))])) =
      (case out of v # e # _ \<Rightarrow> Inr (Inr (if e \<noteq> GNil then GNil else v)) | _ \<Rightarrow> Inl IndexOutOfRange)"
    using cs by (simp add: defs split: list.split)
  show "NewClient assignable call (PtrT (StructT [(rf_name fn, FuncT (rf_In fn) (rf_Out fn))])) =
        (case rf_Out fn of
           [t, u] \<Rightarrow> Inr (Inr (if out ! 1 \<noteq> GNil then GNil else out ! 0))
         | _ \<Rightarrow> Inl IndexOutOfRange)"
    unfolding red using a
    by (cases "rf_Out fn"; cases "tl (rf_Out fn)"; cases "tl (tl (rf_Out fn))"; cases out; cases "tl out")
      (use assms in \<open>auto elim!: stub_of_cases\<close>)
qed

theorem NewClient_one_field_witness:
  "NewClient (=) (\<lambda>fn. Inr [GVal (4 :: int), GError ''down''])
     (PtrT (StructT [(''Power'', FuncT [ContextT] [NamedT ''int'', ErrorT])])) = Inr (Inr GNil)"
proof -
  let ?fn = "\<lparr>rf_In = [ContextT], rf_Out = [NamedT ''int'', ErrorT], rf_name = ''Power'', rf_nout = 2,
     rf_valOut = 0, rf_errOut = 1, rf_hasCtx = 1, rf_retCh = False\<rparr>"
  have "stub_of ?fn" by (simp add: stub_of_iff processFuncOut_def)
  then show ?thesis
    using NewClient_one_field [of ?fn "(=)" "\<lambda>fn. Inr [GVal (4 :: int), GError ''down'']"
        "[GVal 4, GError ''down'']"]
    by (simp add: probeTypes_def)
qed

end
