(* ===== verification/WsConn.thy ===== *)
theory WsConn
  imports RpcHandler RpcClient
begin

text \<open>
  The websocket connection both sides run (\<open>src/main/rpc/websocket.go\<close>): the loop of
  \<open>handleWsConn\<close> with its frame handlers and its cleanup, the goroutines it starts, and
  \<open>handleOutChans\<close>, which forwards the channels of the serving side.
\<close>

section \<open>State\<close>

text \<open>
  A request of the client with the channel its response goes to (nil for a cancellation) and, for a
  channel-valued call, its sink and the context of the call (nil when the stub takes none).
\<close>

record 'v clientRequest =
  cq_req :: "'v request"
  cq_ready :: "nat option"
  cq_retCh :: "(nat \<times> nat option) option"

datatype 'v wsMsg = FrameMsg "'v frame" | EmptyMsg | CloseMsg

text \<open>
  \<open>wsConn\<close>. A cancel function is the context it cancels. The remaining fields record the effects in
  the order they happen: contexts cancelled, responses sent on \<open>ready\<close> channels, calls of sinks,
  messages written, goroutines started (handlers with their context and request, and the
  goroutines that wait for the context of a channel-valued call), and channels registered.
\<close>

record 'v wsConn =
  ws_inflight :: "goint \<rightharpoonup> 'v clientRequest"
  ws_chanHandlers :: "uint64 \<rightharpoonup> nat"
  ws_handling :: "goint \<rightharpoonup> nat"
  ws_chanCtr :: uint64
  ws_nextCtx :: nat
  ws_cancelled :: "nat list"
  ws_ready :: "(nat \<times> clientResponse) list"
  ws_sinks :: "(nat \<times> raw option \<times> bool) list"
  ws_sent :: "'v wsMsg list"
  ws_spawned :: "(nat \<times> 'v request) list"
  ws_watch :: "(nat \<times> goint) list"
  ws_regs :: "(uint64 \<times> nat) list"

definition ws_init :: "'v wsConn" where
  "ws_init = \<lparr>ws_inflight = Map.empty, ws_chanHandlers = Map.empty, ws_handling = Map.empty,
     ws_chanCtr = 0, ws_nextCtx = 0, ws_cancelled = [], ws_ready = [], ws_sinks = [], ws_sent = [],
     ws_spawned = [], ws_watch = [], ws_regs = []\<rparr>"

text \<open>How a piece of the loop ends: it goes on, the loop returns, the program panics, or it blocks for ever.\<close>

datatype 's flow = Next 's | Exit 's | Panic go_panic | Block

section \<open>Frames\<close>

definition wsCancel :: string where "wsCancel = ''xrpc.cancel''"
definition chValue :: string where "chValue = ''xrpc.ch.val''"
definition chClose :: string where "chClose = ''xrpc.ch.close''"

definition clientResponse_of :: "'v frame \<Rightarrow> clientResponse" where
  "clientResponse_of fr = \<lparr>cr_Jsonrpc = fr_Jsonrpc fr, cr_Result = fr_Result fr, cr_ID = fr_ID fr,
     cr_Error = fr_Error fr\<rparr>"

text \<open>\<open>handleResponse\<close>: the end of the function, and the function.\<close>

definition deliver :: "goint \<Rightarrow> 'v clientRequest \<Rightarrow> 'v frame \<Rightarrow> 'v wsConn \<Rightarrow> 'v wsConn flow" where
  "deliver i req fr c =
     (case cq_ready req of
        None \<Rightarrow> Block
      | Some r \<Rightarrow> Next (c\<lparr>ws_ready := ws_ready c @ [(r, clientResponse_of fr)],
                         ws_inflight := (ws_inflight c)(i := None)\<rparr>))"

definition handleResponse :: "'v frame \<Rightarrow> 'v wsConn \<Rightarrow> 'v wsConn flow" where
  "handleResponse fr c =
     (case fr_ID fr of
        None \<Rightarrow> Next c
      | Some i \<Rightarrow>
          (case ws_inflight c i of
             None \<Rightarrow> Next c
           | Some req \<Rightarrow>
               (case (cq_retCh req, fr_Result fr) of
                  (Some (sink, ctx), Some d) \<Rightarrow>
                    (case unmarshal_uint64 (Some d) of
                       None \<Rightarrow> Next c
                     | Some channelid \<Rightarrow>
                         (case ctx of
                            None \<Rightarrow> Panic NilDereference
                          | Some x \<Rightarrow>
                              deliver i req fr
                                (c\<lparr>ws_chanHandlers := (ws_chanHandlers c)(channelid \<mapsto> sink),
                                   ws_watch := ws_watch c @ [(x, i)]\<rparr>)))
                | _ \<Rightarrow> deliver i req fr c)))"

definition cancelCtx :: "'v frame \<Rightarrow> 'v wsConn \<Rightarrow> 'v wsConn flow" where
  "cancelCtx fr c =
     (case fr_Params fr of
        [] \<Rightarrow> Panic IndexOutOfRange
      | p # _ \<Rightarrow>
          (case unmarshal_int64 (p_Data p) of
             None \<Rightarrow> Next c
           | Some i \<Rightarrow>
               (case ws_handling c i of
                  None \<Rightarrow> Next c
                | Some cf \<Rightarrow> Next (c\<lparr>ws_cancelled := ws_cancelled c @ [cf]\<rparr>))))"

text \<open>\<open>handleChanMessage\<close> goes on with channel 0 when the id does not decode.\<close>

definition handleChanMessage :: "'v frame \<Rightarrow> 'v wsConn \<Rightarrow> 'v wsConn flow" where
  "handleChanMessage fr c =
     (case fr_Params fr of
        [] \<Rightarrow> Panic IndexOutOfRange
      | p # ps \<Rightarrow>
          (let chid = (case unmarshal_uint64 (p_Data p) of None \<Rightarrow> 0 | Some i \<Rightarrow> i) in
           case ws_chanHandlers c chid of
             None \<Rightarrow> Next c
           | Some hnd \<Rightarrow>
               (case ps of
                  [] \<Rightarrow> Panic IndexOutOfRange
                | q # _ \<Rightarrow> Next (c\<lparr>ws_sinks := ws_sinks c @ [(hnd, p_Data q, True)]\<rparr>))))"

definition handleChanClose :: "'v frame \<Rightarrow> 'v wsConn \<Rightarrow> 'v wsConn flow" where
  "handleChanClose fr c =
     (case fr_Params fr of
        [] \<Rightarrow> Panic IndexOutOfRange
      | p # _ \<Rightarrow>
          (case unmarshal_uint64 (p_Data p) of
             None \<Rightarrow> Next c
           | Some chid \<Rightarrow>
               (case ws_chanHandlers c chid of
                  None \<Rightarrow> Next c
                | Some hnd \<Rightarrow>
                    Next (c\<lparr>ws_chanHandlers := (ws_chanHandlers c)(chid := None),
                            ws_sinks := ws_sinks c @ [(hnd, None, False)]\<rparr>))))"

text \<open>
  \<open>handleCall\<close>. The test \<open>&frame.ID != nil\<close> compares the address of the field, which is never nil,
  so the branch that dereferences \<open>frame.ID\<close> is always taken.
\<close>

definition request_of_frame :: "'v frame \<Rightarrow> 'v request" where
  "request_of_frame fr = \<lparr>req_Jsonrpc = fr_Jsonrpc fr, req_ID = fr_ID fr, req_Method = fr_Method fr,
     req_Params = fr_Params fr, req_Meta = fr_Meta fr\<rparr>"

definition handleCall :: "'v frame \<Rightarrow> 'v wsConn \<Rightarrow> 'v wsConn flow" where
  "handleCall fr c =
     (let ctx = ws_nextCtx c in
      case fr_ID fr of
        None \<Rightarrow> Panic NilDereference
      | Some i \<Rightarrow>
          Next (c\<lparr>ws_nextCtx := Suc ctx, ws_handling := (ws_handling c)(i \<mapsto> ctx),
                  ws_spawned := ws_spawned c @ [(ctx, request_of_frame fr)]\<rparr>))"

definition handleFrame :: "'v frame \<Rightarrow> 'v wsConn \<Rightarrow> 'v wsConn flow" where
  "handleFrame fr c =
     (if fr_Method fr = '''' then handleResponse fr c
      else if fr_Method fr = wsCancel then cancelCtx fr c
      else if fr_Method fr = chValue then handleChanMessage fr c
      else if fr_Method fr = chClose then handleChanClose fr c
      else handleCall fr c)"

section \<open>Writing and reading\<close>

text \<open>
  \<open>sendRequest\<close>: \<open>ok\<close> is whether \<open>WriteJSON\<close> succeeds. After a failed write the lock is released
  twice, which is a fatal error of the run-time system.
\<close>

definition sendRequest :: "bool \<Rightarrow> 'v request \<Rightarrow> 'v wsConn \<Rightarrow> 'v wsConn flow" where
  "sendRequest ok req c =
     (if ok then Next (c\<lparr>ws_sent := ws_sent c @ [FrameMsg (frame_of_request req)]\<rparr>)
      else Panic UnlockOfUnlockedMutex)"

text \<open>\<open>handleCtxAsync\<close>, once the context is done.\<close>

definition cancelRequest :: "'v goval \<Rightarrow> 'v request" where
  "cancelRequest i = \<lparr>req_Jsonrpc = ''2.0'', req_ID = None, req_Method = wsCancel,
     req_Params = [\<lparr>p_Data = None, p_V = Some i\<rparr>], req_Meta = None\<rparr>"

definition handleCtxAsync :: "bool \<Rightarrow> (goint \<Rightarrow> 'v goval) \<Rightarrow> nat \<times> goint \<Rightarrow> 'v wsConn \<Rightarrow> 'v wsConn flow" where
  "handleCtxAsync ok box w c = sendRequest ok (cancelRequest (box (snd w))) c"

text \<open>
  \<open>nextMessage\<close>: what one call makes of the next message of the connection, an event for the loop
  or a panic. After an unsupported message type the closed channel is sent on.
\<close>

datatype 'v wsRead = ReadError | ReadData "'v frame option" | ReadOther

datatype 'v event =
    Incoming "'v frame option"
  | Closed
  | Request "'v clientRequest" bool
  | Stop

definition nextMessage :: "'v wsRead \<Rightarrow> 'v event go" where
  "nextMessage r =
     (case r of
        ReadError \<Rightarrow> Inr Closed
      | ReadData d \<Rightarrow> Inr (Incoming d)
      | ReadOther \<Rightarrow> Inl SendOnClosedChannel)"

section \<open>The loop\<close>

text \<open>
  One round of the \<open>select\<close> of \<open>handleWsConn\<close>. A frame that does not decode ends the loop. A request
  is entered into \<open>inflight\<close> before it is written; the test \<open>&req.req.ID != nil\<close> is always true.
\<close>

definition wsLoop :: "'v event \<Rightarrow> 'v wsConn \<Rightarrow> 'v wsConn flow" where
  "wsLoop ev c =
     (case ev of
        Closed \<Rightarrow> Exit c
      | Incoming None \<Rightarrow> Exit c
      | Incoming (Some fr) \<Rightarrow> handleFrame fr c
      | Request q ok \<Rightarrow>
          (case req_ID (cq_req q) of
             None \<Rightarrow> Panic NilDereference
           | Some i \<Rightarrow> sendRequest ok (cq_req q) (c\<lparr>ws_inflight := (ws_inflight c)(i \<mapsto> q)\<rparr>))
      | Stop \<Rightarrow> Exit (c\<lparr>ws_sent := ws_sent c @ [CloseMsg]\<rparr>))"

fun wsRun :: "'v event list \<Rightarrow> 'v wsConn \<Rightarrow> 'v wsConn flow" where
  "wsRun [] c = Next c"
| "wsRun (ev # evs) c =
     (case wsLoop ev c of
        Next c' \<Rightarrow> wsRun evs c'
      | r \<Rightarrow> r)"

text \<open>
  The deferred function: for every request still in flight, in the order \<open>ids\<close> the iteration over
  the map takes, an error response is sent and every call being handled (\<open>hs\<close>, in some order) is
  cancelled. All responses point to the one loop variable; \<open>seen i\<close> is what it holds when the
  receiver of the response for \<open>i\<close> reads it.
\<close>

definition closedResponse :: "goint \<Rightarrow> clientResponse" where
  "closedResponse i = \<lparr>cr_Jsonrpc = ''2.0'', cr_Result = None, cr_ID = Some i,
     cr_Error = Some \<lparr>re_Code = 0, re_Message = ''handler: websocket connection closed''\<rparr>\<rparr>"

fun wsCleanup :: "(goint \<Rightarrow> goint) \<Rightarrow> nat list \<Rightarrow> goint list \<Rightarrow> 'v wsConn \<Rightarrow> 'v wsConn flow" where
  "wsCleanup seen hs [] c = Exit c"
| "wsCleanup seen hs (i # ids) c =
     (case ws_inflight c i of
        None \<Rightarrow> wsCleanup seen hs ids c
      | Some q \<Rightarrow>
          (case cq_ready q of
             None \<Rightarrow> Block
           | Some r \<Rightarrow>
               wsCleanup seen hs ids
                 (c\<lparr>ws_ready := ws_ready c @ [(r, closedResponse (seen i))],
                    ws_cancelled := ws_cancelled c @ hs\<rparr>)))"

section \<open>Responses reach their requests\<close>

text \<open>
  A frame leaves \<open>inflight\<close> and the \<open>ready\<close> channels alone, or it answers one request in flight.
\<close>

definition answers :: "'v wsConn \<Rightarrow> 'v frame \<Rightarrow> 'v wsConn \<Rightarrow> bool" where
  "answers c fr c' \<longleftrightarrow> (\<exists>i q r. fr_ID fr = Some i \<and> ws_inflight c i = Some q \<and> cq_ready q = Some r \<and>
     ws_ready c' = ws_ready c @ [(r, clientResponse_of fr)] \<and> ws_inflight c' = (ws_inflight c)(i := None))"

lemma deliver_Next:
  "deliver i q fr c = Next c' \<Longrightarrow>
   \<exists>r. cq_ready q = Some r \<and> ws_ready c' = ws_ready c @ [(r, clientResponse_of fr)] \<and>
     ws_inflight c' = (ws_inflight c)(i := None)"
  by (auto simp: deliver_def split: option.splits)

lemma handleResponse_Next:
  assumes "handleResponse fr c = Next c'"
  shows "c' = c \<or> answers c fr c'"
proof (cases "fr_ID fr")
  case (Some i)
  show ?thesis
  proof (cases "ws_inflight c i")
    case (Some q)
    with \<open>fr_ID fr = Some i\<close> have "handleResponse fr c \<in> {Next c, Panic NilDereference, deliver i q fr c} \<or>
        (\<exists>f g. handleResponse fr c = deliver i q fr (c\<lparr>ws_chanHandlers := f, ws_watch := g\<rparr>))"
      unfolding handleResponse_def
      by (cases "cq_retCh q"; cases "fr_Result fr") (simp, simp, simp, simp split: option.split prod.split, blast)
    with assms consider "c' = c" | "deliver i q fr c = Next c'"
      | f g where "deliver i q fr (c\<lparr>ws_chanHandlers := f, ws_watch := g\<rparr>) = Next c'"
      by auto
    then show ?thesis
      using Some \<open>fr_ID fr = Some i\<close> by cases (auto simp: answers_def dest!: deliver_Next)
  qed (use Some assms in \<open>simp add: handleResponse_def\<close>)
qed (use assms in \<open>simp add: handleResponse_def\<close>)

lemma handleFrame_named:
  assumes "handleFrame fr c = Next c'" "fr_Method fr \<noteq> ''''"
  shows "ws_inflight c' = ws_inflight c \<and> ws_ready c' = ws_ready c"
proof -
  have "cancelCtx fr c = Next c' \<Longrightarrow> ws_inflight c' = ws_inflight c \<and> ws_ready c' = ws_ready c"
    by (auto simp: cancelCtx_def split: list.splits option.splits)
  moreover have "handleChanMessage fr c = Next c' \<Longrightarrow> ws_inflight c' = ws_inflight c \<and> ws_ready c' = ws_ready c"
    by (auto simp: handleChanMessage_def Let_def split: list.splits option.splits)
  moreover have "handleChanClose fr c = Next c' \<Longrightarrow> ws_inflight c' = ws_inflight c \<and> ws_ready c' = ws_ready c"
    by (auto simp: handleChanClose_def split: list.splits option.splits)
  moreover have "handleCall fr c = Next c' \<Longrightarrow> ws_inflight c' = ws_inflight c \<and> ws_ready c' = ws_ready c"
    by (auto simp: handleCall_def Let_def split: option.splits)
  ultimately show ?thesis using assms by (auto simp: handleFrame_def split: if_splits)
qed

lemma handleFrame_Next:
  assumes "handleFrame fr c = Next c'"
  shows "ws_inflight c' = ws_inflight c \<and> ws_ready c' = ws_ready c \<or> answers c fr c'"
proof (cases "fr_Method fr = ''''")
  case True
  with assms handleResponse_Next [of fr c c'] show ?thesis by (auto simp: handleFrame_def)
qed (use handleFrame_named [OF assms] in simp)

lemma handleFrame_no_Exit: "handleFrame fr c \<noteq> Exit c'"
proof -
  have "handleResponse fr c \<noteq> Exit c'"
    by (auto simp: handleResponse_def deliver_def split: option.splits)
  moreover have "cancelCtx fr c \<noteq> Exit c'" "handleChanMessage fr c \<noteq> Exit c'"
    "handleChanClose fr c \<noteq> Exit c'" "handleCall fr c \<noteq> Exit c'"
    by (auto simp: cancelCtx_def handleChanMessage_def handleChanClose_def handleCall_def Let_def
        split: list.splits option.splits)
  ultimately show ?thesis by (auto simp: handleFrame_def)
qed

text \<open>The requests the loop took from its client, and what the client guarantees of them.\<close>

fun requests :: "'v event list \<Rightarrow> 'v clientRequest list" where
  "requests [] = []"
| "requests (Request q ok # evs) = q # requests evs"
| "requests (_ # evs) = requests evs"

lemma requests_append [simp]: "requests (evs @ evs') = requests evs @ requests evs'"
  by (induction evs rule: requests.induct) auto

definition issued :: "'v clientRequest list \<Rightarrow> bool" where
  "issued qs \<longleftrightarrow> distinct (map (\<lambda>q. req_ID (cq_req q)) qs) \<and> distinct (map cq_ready qs) \<and>
     None \<notin> set (map cq_ready qs)"

definition sends_to :: "nat \<Rightarrow> 'v wsConn \<Rightarrow> nat" where
  "sends_to r c = length (filter (\<lambda>e. fst e = r) (ws_ready c))"

definition ws_inv :: "'v clientRequest list \<Rightarrow> 'v wsConn \<Rightarrow> bool" where
  "ws_inv qs c \<longleftrightarrow>
     (\<forall>i q. ws_inflight c i = Some q \<longrightarrow> q \<in> set qs \<and> req_ID (cq_req q) = Some i) \<and>
     (\<forall>q\<in>set qs. \<exists>i r. req_ID (cq_req q) = Some i \<and> cq_ready q = Some r \<and>
        sends_to r c = (if ws_inflight c i = Some q then 0 else 1)) \<and>
     (\<forall>e\<in>set (ws_ready c). \<exists>q\<in>set qs. cq_ready q = Some (fst e))"

lemma ws_inv_cong:
  "ws_inflight c' = ws_inflight c \<Longrightarrow> ws_ready c' = ws_ready c \<Longrightarrow> ws_inv qs c' = ws_inv qs c"
  by (simp add: ws_inv_def sends_to_def)

lemma ws_inv_answers:
  assumes "ws_inv qs c" "issued qs" "answers c fr c'"
  shows "ws_inv qs c'"
proof -
  from assms(3) obtain i q r where a: "ws_inflight c i = Some q" "cq_ready q = Some r"
    "ws_ready c' = ws_ready c @ [(r, clientResponse_of fr)]" "ws_inflight c' = (ws_inflight c)(i := None)"
    by (auto simp: answers_def)
  with assms(1) have q: "q \<in> set qs" "req_ID (cq_req q) = Some i" by (auto simp: ws_inv_def)
  have uniq: "p = q" if "p \<in> set qs" "cq_ready p = Some r \<or> req_ID (cq_req p) = Some i" for p
  proof -
    from assms(2) have "inj_on (\<lambda>q. req_ID (cq_req q)) (set qs)" "inj_on cq_ready (set qs)"
      by (simp_all add: issued_def distinct_map)
    with that q a(2) show ?thesis by (auto simp: inj_on_def)
  qed
  have sends: "sends_to s c' = (if s = r then Suc (sends_to s c) else sends_to s c)" for s
    using a(3) by (simp add: sends_to_def)
  have "\<exists>j s. req_ID (cq_req p) = Some j \<and> cq_ready p = Some s \<and>
      sends_to s c' = (if ws_inflight c' j = Some p then 0 else 1)" if p: "p \<in> set qs" for p
  proof -
    from assms(1) p obtain j s where js: "req_ID (cq_req p) = Some j" "cq_ready p = Some s"
      "sends_to s c = (if ws_inflight c j = Some p then 0 else 1)" by (auto simp: ws_inv_def)
    show ?thesis
    proof (cases "p = q")
      case True
      then show ?thesis using js a q sends by auto
    next
      case False
      with uniq p js have "j \<noteq> i" "s \<noteq> r" by auto
      then show ?thesis using js a(4) sends by auto
    qed
  qed
  moreover have "\<forall>j p. ws_inflight c' j = Some p \<longrightarrow> p \<in> set qs \<and> req_ID (cq_req p) = Some j"
    using assms(1) a(4) by (auto simp: ws_inv_def split: if_splits)
  moreover have "\<forall>e\<in>set (ws_ready c'). \<exists>p\<in>set qs. cq_ready p = Some (fst e)"
    using assms(1) a q by (auto simp: ws_inv_def)
  ultimately show ?thesis by (simp add: ws_inv_def)
qed

lemma ws_inv_request:
  assumes "ws_inv qs c" "issued (qs @ [q])" "wsLoop (Request q ok) c = Next c'"
  shows "ws_inv (qs @ [q]) c'"
proof -
  from assms(3) obtain i where i: "req_ID (cq_req q) = Some i"
    and c': "ws_inflight c' = (ws_inflight c)(i \<mapsto> q)" "ws_ready c' = ws_ready c"
    by (auto simp: wsLoop_def sendRequest_def split: option.splits if_splits)
  from assms(2) obtain r where r: "cq_ready q = Some r"
    by (cases "cq_ready q") (auto simp: issued_def)
  have fresh: "req_ID (cq_req p) \<noteq> Some i" "cq_ready p \<noteq> Some r" if "p \<in> set qs" for p
    using that assms(2) i r by (force simp: issued_def)+
  have sends: "sends_to s c' = sends_to s c" for s using c'(2) by (simp add: sends_to_def)
  have "sends_to r c = 0"
    using assms(1) fresh by (force simp: ws_inv_def sends_to_def filter_empty_conv)
  moreover have "\<exists>j s. req_ID (cq_req p) = Some j \<and> cq_ready p = Some s \<and>
      sends_to s c' = (if ws_inflight c' j = Some p then 0 else 1)" if p: "p \<in> set qs" for p
  proof -
    from assms(1) p obtain j s where js: "req_ID (cq_req p) = Some j" "cq_ready p = Some s"
      "sends_to s c = (if ws_inflight c j = Some p then 0 else 1)" by (auto simp: ws_inv_def)
    with fresh [OF p] have "j \<noteq> i" by auto
    with js c' sends show ?thesis by auto
  qed
  ultimately show ?thesis
    using assms(1) i r c' sends unfolding ws_inv_def by (auto split: if_splits)
qed

lemma ws_inv_run:
  assumes "wsRun evs ws_init = Next c" "issued (requests evs)"
  shows "ws_inv (requests evs) c"
  using assms
proof (induction evs arbitrary: c rule: rev_induct)
  case Nil
  then show ?case by (auto simp: ws_inv_def ws_init_def)
next
  case (snoc ev evs)
  have run: "wsRun (evs @ [ev]) s = (case wsRun evs s of Next c \<Rightarrow> wsLoop ev c | r \<Rightarrow> r)" for s :: "'a wsConn"
    by (induction evs arbitrary: s) (auto split: flow.split)
  from snoc.prems run obtain c1 where c1: "wsRun evs ws_init = Next c1" "wsLoop ev c1 = Next c"
    by (auto split: flow.splits)
  have iss: "issued (requests evs)" using snoc.prems(2) by (auto simp: issued_def)
  note inv = snoc.IH [OF c1(1) iss]
  show ?case
  proof (cases ev)
    case (Incoming f)
    then obtain fr where fr: "f = Some fr" using c1(2) by (cases f) (auto simp: wsLoop_def)
    with Incoming c1(2) handleFrame_Next [of fr c1 c] ws_inv_answers [OF inv iss, of fr c] inv show ?thesis
      using ws_inv_cong [of c c1] by (auto simp: wsLoop_def)
  next
    case (Request q ok)
    then show ?thesis using ws_inv_request [OF inv] snoc.prems(2) c1(2) by simp
  qed (use c1(2) in \<open>simp_all add: wsLoop_def\<close>)
qed

lemma wsCleanup_sends:
  assumes "distinct ids" "\<forall>i\<in>set ids. \<exists>q r. ws_inflight c i = Some q \<and> cq_ready q = Some r"
  shows "\<exists>c'. wsCleanup seen hs ids c = Exit c' \<and> ws_inflight c' = ws_inflight c \<and>
    ws_sent c' = ws_sent c \<and> ws_ready c' = ws_ready c @
      map (\<lambda>i. (the (cq_ready (the (ws_inflight c i))), closedResponse (seen i))) ids"
  using assms
proof (induction ids arbitrary: c)
  case (Cons i ids)
  then obtain q r where q: "ws_inflight c i = Some q" "cq_ready q = Some r" by auto
  define c1 where "c1 = c\<lparr>ws_ready := ws_ready c @ [(r, closedResponse (seen i))],
    ws_cancelled := ws_cancelled c @ hs\<rparr>"
  from Cons.prems Cons.IH [of c1] obtain c' where "wsCleanup seen hs ids c1 = Exit c'"
    "ws_inflight c' = ws_inflight c" "ws_sent c' = ws_sent c" "ws_ready c' = ws_ready c1 @
      map (\<lambda>i. (the (cq_ready (the (ws_inflight c i))), closedResponse (seen i))) ids"
    by (auto simp: c1_def)
  with q show ?case by (auto simp: c1_def)
qed simp

lemma length_filter_one:
  assumes "distinct xs" "x \<in> set xs" "\<And>y. y \<in> set xs \<Longrightarrow> P y \<longleftrightarrow> y = x"
  shows "length (filter P xs) = 1"
proof -
  from assms have "filter P xs = filter (\<lambda>y. y = x) xs" by (intro filter_cong) auto
  then show ?thesis using assms(1,2) by (simp add: distinct_length_filter Collect_conv_if)
qed

text \<open>
  The deferred function sends on the \<open>ready\<close> channel of every request that is still in flight, so that
  after it each request has exactly one response.
\<close>

lemma cleanup_hits:
  assumes "ws_inv qs c" "issued qs" "distinct ids" "set ids = dom (ws_inflight c)"
    and "q \<in> set qs" "cq_ready q = Some r" "req_ID (cq_req q) = Some i"
  shows "length (filter (\<lambda>j. the (cq_ready (the (ws_inflight c j))) = r) ids) =
    (if ws_inflight c i = Some q then 1 else 0)"
proof -
  have inj: "inj_on cq_ready (set qs)" using assms(2) by (simp add: issued_def distinct_map)
  have hit: "the (cq_ready (the (ws_inflight c j))) = r \<longleftrightarrow> ws_inflight c i = Some q \<and> j = i"
    if j: "j \<in> set ids" for j
  proof -
    from assms(1,4) j obtain p s where p: "ws_inflight c j = Some p" "cq_ready p = Some s"
      "p \<in> set qs" "req_ID (cq_req p) = Some j" unfolding ws_inv_def by fastforce
    have "s = r \<longleftrightarrow> p = q" using inj_onD [OF inj, of p q] p(2,3) assms(5,6) by auto
    with p assms(7) show ?thesis by auto
  qed
  show ?thesis
  proof (cases "ws_inflight c i = Some q")
    case True
    then have "i \<in> set ids" using assms(4) by auto
    with True hit show ?thesis by (auto intro!: length_filter_one [OF assms(3), of i, simplified])
  next
    case False
    with hit show ?thesis by (auto simp: filter_empty_conv)
  qed
qed

lemma cleanup_once:
  assumes "ws_inv qs c" "issued qs" "distinct ids" "set ids = dom (ws_inflight c)"
  shows "\<exists>c'. wsCleanup seen hs ids c = Exit c' \<and>
    (\<forall>q\<in>set qs. \<exists>r. cq_ready q = Some r \<and> sends_to r c' = 1) \<and>
    (\<forall>e\<in>set (ws_ready c'). \<exists>q\<in>set qs. cq_ready q = Some (fst e)) \<and>
    (\<forall>e\<in>set (ws_ready c'). e \<in> set (ws_ready c) \<or> (\<exists>i. snd e = closedResponse i)) \<and>
    ws_sent c' = ws_sent c"
proof -
  have q_of: "\<exists>q r. ws_inflight c i = Some q \<and> cq_ready q = Some r \<and> q \<in> set qs" if "i \<in> set ids" for i
    using assms(1,4) that unfolding ws_inv_def by fastforce
  then obtain c' where c': "wsCleanup seen hs ids c = Exit c'" "ws_sent c' = ws_sent c"
    "ws_ready c' = ws_ready c @
      map (\<lambda>i. (the (cq_ready (the (ws_inflight c i))), closedResponse (seen i))) ids"
    using wsCleanup_sends [OF assms(3), of c seen hs] by (metis (no_types))
  have "\<exists>r. cq_ready q = Some r \<and> sends_to r c' = 1" if q: "q \<in> set qs" for q
  proof -
    from assms(1) q obtain i r where i: "req_ID (cq_req q) = Some i" "cq_ready q = Some r"
      "sends_to r c = (if ws_inflight c i = Some q then 0 else 1)" unfolding ws_inv_def by blast
    with cleanup_hits [OF assms q i(2,1)] c'(3) show ?thesis by (simp add: sends_to_def filter_map o_def)
  qed
  moreover have "\<exists>q\<in>set qs. cq_ready q = Some (fst e)" "e \<in> set (ws_ready c) \<or> (\<exists>i. snd e = closedResponse i)"
    if "e \<in> set (ws_ready c')" for e
    using that c'(3) assms(1) q_of unfolding ws_inv_def by fastforce+
  ultimately show ?thesis using c'(1,2) by blast
qed

text \<open>
  C8: every request the connection took from its client gets exactly one response. Whatever frames
  arrive, in whatever order and with whatever ids, repeated and unknown ones included, when the loop
  has ended (the connection closed, a frame did not decode, or it was stopped) and the deferred
  function has run, exactly one value has been sent on the \<open>ready\<close> channel of each request, so no
  send ever finds the one-place channel full, and nothing was sent on any other channel.
\<close>

theorem exactly_one_response:
  assumes "wsRun evs ws_init = Next c" "issued (requests evs)" "wsLoop ev c = Exit c'"
    and "distinct ids" "set ids = dom (ws_inflight c')"
  shows "\<exists>c''. wsCleanup seen hs ids c' = Exit c'' \<and>
    (\<forall>q\<in>set (requests evs). \<exists>r. cq_ready q = Some r \<and> sends_to r c'' = 1) \<and>
    (\<forall>r resp. (r, resp) \<in> set (ws_ready c'') \<longrightarrow> (\<exists>q\<in>set (requests evs). cq_ready q = Some r))"
proof -
  have "ws_inflight c' = ws_inflight c" "ws_ready c' = ws_ready c"
    using assms(3) handleFrame_no_Exit
    by (auto simp: wsLoop_def sendRequest_def split: event.splits option.splits if_splits)
  then have "ws_inv (requests evs) c'" using ws_inv_run [OF assms(1,2)] ws_inv_cong [of c' c] by simp
  from cleanup_once [OF this assms(2,4,5), of seen hs] show ?thesis by fastforce
qed

definition demo_creq :: "goint \<Rightarrow> nat \<Rightarrow> int clientRequest" where
  "demo_creq i r = \<lparr>cq_req = demo_request ''S.Add'' (Some i) [2, 3], cq_ready = Some r, cq_retCh = None\<rparr>"

definition demo_answer :: "goint \<Rightarrow> int frame" where
  "demo_answer i = \<lparr>fr_Jsonrpc = ''2.0'', fr_ID = Some i, fr_Meta = None, fr_Method = '''', fr_Params = [],
     fr_Result = Some (Doc (JInt 5)), fr_Error = None\<rparr>"

definition demo_events :: "int event list" where
  "demo_events = [Request (demo_creq 1 10) True, Request (demo_creq 2 11) True,
     Incoming (Some (demo_answer 2)), Incoming (Some (demo_answer 2)), Incoming (Some (demo_answer 9))]"

lemma demo_events_run:
  obtains c where "wsRun demo_events ws_init = Next c" "dom (ws_inflight c) = {1}"
  by (simp add: demo_events_def wsLoop_def ws_init_def sendRequest_def demo_creq_def demo_answer_def
      demo_request_def handleFrame_def handleResponse_def deliver_def)

theorem exactly_one_response_witness:
  "\<exists>c c''. wsRun demo_events ws_init = Next c \<and> wsCleanup id [] [1] c = Exit c'' \<and>
     sends_to 10 c'' = 1 \<and> sends_to 11 c'' = 1"
proof -
  obtain c where c: "wsRun demo_events ws_init = Next c" "dom (ws_inflight c) = {1}"
    by (rule demo_events_run)
  have reqs: "requests demo_events = [demo_creq 1 10, demo_creq 2 11]" by (simp add: demo_events_def)
  have "issued (requests demo_events)"
    by (simp add: reqs issued_def demo_creq_def demo_request_def)
  moreover have "wsLoop Closed c = Exit c" by (simp add: wsLoop_def)
  ultimately have "\<exists>c''. wsCleanup id [] [1] c = Exit c'' \<and>
    (\<forall>q\<in>set (requests demo_events). \<exists>r. cq_ready q = Some r \<and> sends_to r c'' = 1)"
    using exactly_one_response [OF c(1), of Closed c "[1]" id "[]"] c(2) by auto
  with c(1) show ?thesis unfolding reqs by (auto simp: demo_creq_def)
qed

section \<open>Frames that stop the program\<close>

text \<open>
  C27: the frames on which \<open>handleFrame\<close> itself panics, in the goroutine of the connection's loop: an
  internal command without parameters, a channel message without its value for a known channel, a
  call without an id (a notification), and a channel answer to a call made without a context; it
  returns on every other frame. (Goroutines a frame starts or wakes can panic later: the
  forwarding goroutine of \<open>client.go\<close>, for one, when a close frame closes the channel it sends on.)
\<close>

theorem handleFrame_panics_iff:
  "handleFrame fr c = Panic p \<longleftrightarrow>
     (fr_Method fr \<in> {wsCancel, chValue, chClose} \<and> fr_Params fr = [] \<and> p = IndexOutOfRange) \<or>
     (fr_Method fr = chValue \<and> p = IndexOutOfRange \<and> (\<exists>a. fr_Params fr = [a] \<and>
        ws_chanHandlers c (case unmarshal_uint64 (p_Data a) of None \<Rightarrow> 0 | Some i \<Rightarrow> i) \<noteq> None)) \<or>
     (fr_Method fr \<notin> {'''', wsCancel, chValue, chClose} \<and> fr_ID fr = None \<and> p = NilDereference) \<or>
     (fr_Method fr = '''' \<and> p = NilDereference \<and> (\<exists>i q sink d ch. fr_ID fr = Some i \<and>
        ws_inflight c i = Some q \<and> cq_retCh q = Some (sink, None) \<and> fr_Result fr = Some d \<and>
        unmarshal_uint64 (Some d) = Some ch))"
proof -
  have d: "wsCancel \<noteq> ''''" "chValue \<noteq> ''''" "chClose \<noteq> ''''" "chValue \<noteq> wsCancel" "chClose \<noteq> wsCancel"
    "chClose \<noteq> chValue" by (simp_all add: wsCancel_def chValue_def chClose_def)
  have "cancelCtx fr c = Panic p \<longleftrightarrow> fr_Params fr = [] \<and> p = IndexOutOfRange"
    by (auto simp: cancelCtx_def split: list.split option.split)
  moreover have "handleChanClose fr c = Panic p \<longleftrightarrow> fr_Params fr = [] \<and> p = IndexOutOfRange"
    by (auto simp: handleChanClose_def split: list.split option.split)
  moreover have "handleChanMessage fr c = Panic p \<longleftrightarrow> p = IndexOutOfRange \<and> (fr_Params fr = [] \<or> (\<exists>a. fr_Params fr = [a] \<and>
        ws_chanHandlers c (case unmarshal_uint64 (p_Data a) of None \<Rightarrow> 0 | Some i \<Rightarrow> i) \<noteq> None))"
    by (cases "fr_Params fr"; cases "tl (fr_Params fr)") (auto simp: handleChanMessage_def Let_def split: option.split)
  moreover have "handleCall fr c = Panic p \<longleftrightarrow> fr_ID fr = None \<and> p = NilDereference"
    by (auto simp: handleCall_def Let_def split: option.split)
  moreover have "deliver i q fr s \<noteq> Panic p" for i q s
    by (simp add: deliver_def split: option.split)
  then have "handleResponse fr c = Panic p \<longleftrightarrow> p = NilDereference \<and> (\<exists>i q sink d ch. fr_ID fr = Some i \<and>
        ws_inflight c i = Some q \<and> cq_retCh q = Some (sink, None) \<and> fr_Result fr = Some d \<and>
        unmarshal_uint64 (Some d) = Some ch)"
    by (cases "fr_ID fr"; cases "ws_inflight c (the (fr_ID fr))"; cases "cq_retCh (the (ws_inflight c (the (fr_ID fr))))")
      (auto simp: handleResponse_def split: option.splits)
  ultimately show ?thesis using d by (auto simp: handleFrame_def)
qed

section \<open>Cancellation and channel notifications\<close>

text \<open>The request \<open>client.sendRequest\<close> queues when the context of a call is done.\<close>

definition cancelReq :: "'v goval \<Rightarrow> 'v clientRequest" where
  "cancelReq i = \<lparr>cq_req = cancelRequest i, cq_ready = None, cq_retCh = None\<rparr>"

text \<open>
  Cancellation never reaches the remote call. The request a cancelled call queues has no id and
  makes the connection's loop dereference a nil pointer; the one \<open>handleCtxAsync\<close> writes for a
  channel-valued call carries its id in the field that is not encoded, so the peer cannot decode it
  and ignores it, whatever calls it is handling.
\<close>

theorem cancellation_never_arrives:
  "wsLoop (Request (cancelReq x) ok) c = Panic NilDereference \<and>
   handleCtxAsync True box w c = Next (c\<lparr>ws_sent := ws_sent c @ [FrameMsg (frame_of_request (cancelRequest (box (snd w))))]\<rparr>) \<and>
   handleFrame (frame_of_request (cancelRequest (box (snd w)))) peer = Next peer"
  by (simp add: wsLoop_def cancelReq_def cancelRequest_def handleCtxAsync_def sendRequest_def
      frame_of_request_def handleFrame_def cancelCtx_def wireParam_def wsCancel_def)

section \<open>Forwarding channels (\<open>handleOutChans\<close>)\<close>

text \<open>
  The two slices of \<open>handleOutChans\<close>: the channels it selects on (the control channel, always the
  first case, left out) and their ids. Indices are those of the source: case \<open>chosen\<close> is the
  channel at \<open>chosen - 1\<close>.
\<close>

record outChans =
  oh_cases :: "nat list"
  oh_caseToID :: "uint64 list"

definition valueRequest :: "uint64 \<Rightarrow> 'v goval \<Rightarrow> 'v request" where
  "valueRequest i v = \<lparr>req_Jsonrpc = ''2.0'', req_ID = None, req_Method = chValue,
     req_Params = [\<lparr>p_Data = None, p_V = Some (GUint i)\<rparr>, \<lparr>p_Data = None, p_V = Some v\<rparr>], req_Meta = None\<rparr>"

definition closeRequest :: "uint64 \<Rightarrow> 'v request" where
  "closeRequest i = \<lparr>req_Jsonrpc = ''2.0'', req_ID = None, req_Method = chClose,
     req_Params = [\<lparr>p_Data = None, p_V = Some (GUint i)\<rparr>], req_Meta = None\<rparr>"

text \<open>What \<open>reflect.Select\<close> returns.\<close>

datatype 'v selected =
    Registered uint64 nat
  | ControlClosed
  | ChanClosed nat
  | ChanValue nat "'v goval"

text \<open>
  One round of the loop: the new slices and the notification to send, none after a registration;
  \<open>None\<close> when the loop returns. The id is read after the last entry was moved into its place.
\<close>

definition outChansRound ::
  "'v selected \<Rightarrow> outChans \<Rightarrow> (outChans \<times> 'v request option) option go" where
  "outChansRound sel s =
     (case sel of
        ControlClosed \<Rightarrow> Inr None
      | Registered i ch \<Rightarrow>
          Inr (Some (\<lparr>oh_cases = oh_cases s @ [ch], oh_caseToID = oh_caseToID s @ [i]\<rparr>, None))
      | ChanClosed chosen \<Rightarrow>
          (let n = length (oh_caseToID s) in
           gbind (if n > 0 then
                    gbind (go_at (oh_cases s) (int n - 1)) (\<lambda>lastCh.
                    gbind (go_put (oh_cases s) (int chosen - 1) lastCh) (\<lambda>cs.
                    gbind (go_at (oh_caseToID s) (int n - 1)) (\<lambda>lastId.
                    gbind (go_put (oh_caseToID s) (int chosen - 1) lastId) (\<lambda>ids. Inr (cs, ids)))))
                  else Inr (oh_cases s, oh_caseToID s)) (\<lambda>(cs, ids).
           gbind (go_at ids (int chosen - 1)) (\<lambda>i.
             Inr (Some (\<lparr>oh_cases = take (n - 1) cs, oh_caseToID = take (n - 1) ids\<rparr>, Some (closeRequest i))))))
      | ChanValue chosen v \<Rightarrow>
          gbind (go_at (oh_caseToID s) (int chosen - 1)) (\<lambda>i. Inr (Some (s, Some (valueRequest i v)))))"

text \<open>The channels forwarded, each with its id.\<close>

definition oh_pairs :: "outChans \<Rightarrow> (nat \<times> uint64) list" where
  "oh_pairs s = zip (oh_cases s) (oh_caseToID s)"

definition oh_wf :: "outChans \<Rightarrow> bool" where
  "oh_wf s \<longleftrightarrow> length (oh_cases s) = length (oh_caseToID s) \<and> distinct (oh_caseToID s)"

lemma set_swap_remove:
  assumes "distinct xs" "k < length xs"
  shows "set (take (length xs - 1) (xs[k := xs ! (length xs - 1)])) = set xs - {xs ! k}"
proof -
  from assms(2) obtain ys x where xs: "xs = ys @ [x]" by (cases xs rule: rev_cases) auto
  show ?thesis
  proof (cases "k < length ys")
    case True
    then show ?thesis using assms xs by (auto simp: list_update_append nth_append set_update_distinct)
  next
    case False
    then show ?thesis using assms xs by (auto simp: list_update_append nth_append)
  qed
qed

lemma zip_swap_remove:
  assumes "length xs = length ys" "k < length xs"
  shows "zip (take n (xs[k := xs ! j])) (take n (ys[k := ys ! j])) =
    take n ((zip xs ys)[k := (xs ! j, ys ! j)])"
  using assms by (simp add: take_zip update_zip)

lemma distinct_swap_remove:
  assumes "distinct xs" "k < length xs"
  shows "distinct (take (length xs - 1) (xs[k := xs ! (length xs - 1)]))"
proof -
  from assms(2) obtain ys x where xs: "xs = ys @ [x]" by (cases xs rule: rev_cases) auto
  with assms show ?thesis
    by (cases "k < length ys") (auto simp: list_update_append nth_append distinct_list_update)
qed

text \<open>The rounds of a channel that closes and of one that delivers a value.\<close>

lemma outChansRound_close:
  assumes "oh_wf s" "k < length (oh_cases s)"
  shows "\<exists>s'. outChansRound (ChanClosed (Suc k) :: 'v selected) s =
      Inr (Some (s', Some (closeRequest (last (oh_caseToID s))))) \<and> oh_wf s' \<and>
    set (oh_pairs s') = set (oh_pairs s) - {oh_pairs s ! k}"
proof -
  let ?n = "length (oh_caseToID s)"
  from assms have len: "length (oh_cases s) = ?n" "k < ?n" "0 < ?n" by (auto simp: oh_wf_def)
  let ?s' = "\<lparr>oh_cases = take (?n - 1) ((oh_cases s)[k := oh_cases s ! (?n - 1)]),
    oh_caseToID = take (?n - 1) ((oh_caseToID s)[k := oh_caseToID s ! (?n - 1)])\<rparr>"
  have run: "outChansRound (ChanClosed (Suc k) :: 'v selected) s =
      Inr (Some (?s', Some (closeRequest (last (oh_caseToID s)))))"
    using len by (simp add: outChansRound_def Let_def go_at_def go_put_def nat_diff_distrib last_conv_nth)
  have dp: "distinct (oh_pairs s)" using assms by (simp add: oh_wf_def oh_pairs_def distinct_zipI2)
  have "oh_pairs ?s' = take (length (oh_pairs s) - 1) ((oh_pairs s)[k := oh_pairs s ! (length (oh_pairs s) - 1)])"
    using zip_swap_remove [of "oh_cases s" "oh_caseToID s" k "?n - 1" "?n - 1"] len by (simp add: oh_pairs_def)
  then have "set (oh_pairs ?s') = set (oh_pairs s) - {oh_pairs s ! k}"
    using set_swap_remove [OF dp, of k] len by (simp add: oh_pairs_def)
  moreover have "oh_wf ?s'"
    using distinct_swap_remove [of "oh_caseToID s" k] assms len by (simp add: oh_wf_def)
  ultimately show ?thesis using run by blast
qed

lemma outChansRound_value:
  "oh_wf s \<Longrightarrow> k < length (oh_cases s) \<Longrightarrow>
   outChansRound (ChanValue (Suc k) v) s = Inr (Some (s, Some (valueRequest (snd (oh_pairs s ! k)) v)))"
  by (simp add: outChansRound_def go_at_def oh_pairs_def oh_wf_def)

text \<open>
  C28: the bookkeeping of forwarded channels. A registration adds its channel under its id; when a
  channel closes, exactly its entry goes and every other channel keeps the id it was registered
  under; a value is announced with the id of its channel. But the notification of the close names
  the channel in the last slot, whichever channel was closed.
\<close>

theorem outChansRound_spec:
  assumes "oh_wf s"
  shows "(i \<notin> set (oh_caseToID s) \<longrightarrow>
      (\<exists>s'. outChansRound (Registered i ch :: 'v selected) s = Inr (Some (s', None)) \<and> oh_wf s' \<and>
         set (oh_pairs s') = insert (ch, i) (set (oh_pairs s)))) \<and>
    (k < length (oh_cases s) \<longrightarrow>
      (\<exists>s'. outChansRound (ChanClosed (Suc k) :: 'v selected) s =
           Inr (Some (s', Some (closeRequest (last (oh_caseToID s))))) \<and> oh_wf s' \<and>
         set (oh_pairs s') = set (oh_pairs s) - {oh_pairs s ! k}) \<and>
      outChansRound (ChanValue (Suc k) v) s =
        Inr (Some (s, Some (valueRequest (snd (oh_pairs s ! k)) v))))"
proof (intro conjI impI)
  assume "i \<notin> set (oh_caseToID s)"
  with assms show "\<exists>s'. outChansRound (Registered i ch :: 'v selected) s = Inr (Some (s', None)) \<and> oh_wf s' \<and>
         set (oh_pairs s') = insert (ch, i) (set (oh_pairs s))"
    by (auto simp: outChansRound_def oh_wf_def oh_pairs_def)
qed (erule outChansRound_close [OF assms] outChansRound_value [OF assms])+

theorem outChansRound_spec_witness:
  "\<exists>s'. outChansRound (ChanClosed 1 :: int selected) \<lparr>oh_cases = [7, 8], oh_caseToID = [1, 2]\<rparr> =
     Inr (Some (s', Some (closeRequest 2))) \<and> set (oh_pairs s') = {(8, 2)}"
  using outChansRound_spec [of "\<lparr>oh_cases = [7, 8], oh_caseToID = [1, 2]\<rparr>" 3 9 0 "GVal (0 :: int)"]
  by (auto simp: oh_wf_def oh_pairs_def)

text \<open>
  Nothing a serving side forwards arrives. The notifications of \<open>handleOutChans\<close> hold the
  channel id and the value in the field that is not encoded: the calling side, which never has a
  channel 0, ignores a value and a close alike, and no sink is called.
\<close>

theorem channel_notifications_are_lost:
  assumes "ws_chanHandlers c 0 = None"
  shows "handleFrame (frame_of_request (valueRequest i v)) c = Next c \<and>
    handleFrame (frame_of_request (closeRequest i)) c = Next c"
  using assms
  by (simp add: handleFrame_def frame_of_request_def valueRequest_def closeRequest_def
      wsCancel_def chValue_def chClose_def handleChanMessage_def handleChanClose_def wireParam_def)

theorem channel_notifications_are_lost_witness:
  "handleFrame (frame_of_request (valueRequest 1 (GVal (5 :: int)))) ws_init = Next ws_init"
  using channel_notifications_are_lost [of ws_init 1 "GVal (5 :: int)"] by (simp add: ws_init_def)

section \<open>Handler goroutines on a websocket\<close>

text \<open>
  The functions \<open>handleCall\<close> passes to \<open>handle\<close>. \<open>nextWriter\<close> runs its callback on a message writer
  and closes it, which sends what was written, possibly nothing; \<open>ok\<close> is whether the writer could
  be had and closed. \<open>handleChanOut\<close> draws an id, registers the channel and returns the id; once
  the connection has ended (\<open>ended\<close>) the registration channel is closed.
\<close>

definition nextWriter :: "bool \<Rightarrow> 'v wsMsg \<Rightarrow> 'v wsConn \<Rightarrow> 'v wsConn" where
  "nextWriter ok m c = (if ok then c\<lparr>ws_sent := ws_sent c @ [m]\<rparr> else c)"

definition encoded :: "('v, 'sc) env \<Rightarrow> 'v response \<Rightarrow> 'v wsMsg" where
  "encoded E resp = (case frame_of_response E resp of None \<Rightarrow> EmptyMsg | Some f \<Rightarrow> FrameMsg f)"

definition handleChanOut :: "bool \<Rightarrow> nat \<Rightarrow> 'v wsConn \<Rightarrow> ('v wsConn \<times> uint64) go" where
  "handleChanOut ended ch c =
     (let i = ws_chanCtr c + 1 in
      if ended then Inl SendOnClosedChannel
      else Inr (c\<lparr>ws_chanCtr := i, ws_regs := ws_regs c @ [(i, ch)]\<rparr>, i))"

definition wsAct ::
  "('v, 'sc) env \<Rightarrow> bool \<Rightarrow> bool \<Rightarrow> nat \<times> 'v request \<Rightarrow> 'v action \<Rightarrow> 'v wsConn \<Rightarrow> 'v wsConn flow" where
  "wsAct E ok ended g a c =
     (case a of
        Invoke args \<Rightarrow> Next c
      | RpcError code err \<Rightarrow>
          Next (nextWriter ok (case rpcErrorResponse (snd g) code err of
                                 None \<Rightarrow> EmptyMsg | Some resp \<Rightarrow> encoded E resp) c)
      | Respond resp \<Rightarrow>
          (if \<not> ok then Next c
           else case resp_Result resp of
             GChan ch \<Rightarrow>
               (case handleChanOut ended ch c of
                  Inl p \<Rightarrow> Panic p
                | Inr (c', i) \<Rightarrow> Next (nextWriter ok (encoded E (resp\<lparr>resp_Result := GUint i\<rparr>)) c'))
           | _ \<Rightarrow> Next (nextWriter ok (encoded E resp) c))
      | Done keepCtx \<Rightarrow>
          (if keepCtx then Next c
           else case req_ID (snd g) of
             None \<Rightarrow> Panic NilDereference
           | Some i \<Rightarrow> Next (c\<lparr>ws_cancelled := ws_cancelled c @ [fst g],
                              ws_handling := (ws_handling c)(i := None)\<rparr>)))"

fun wsActs ::
  "('v, 'sc) env \<Rightarrow> bool \<Rightarrow> bool \<Rightarrow> nat \<times> 'v request \<Rightarrow> 'v action list \<Rightarrow> 'v wsConn \<Rightarrow> 'v wsConn flow" where
  "wsActs E ok ended g [] c = Next c"
| "wsActs E ok ended g (a # as) c =
     (case wsAct E ok ended g a c of Next c' \<Rightarrow> wsActs E ok ended g as c' | r \<Rightarrow> r)"

text \<open>The goroutine \<open>go c.handler.handle(...)\<close> of one call. A handler writes once, so one \<open>ok\<close> is enough.\<close>

definition runHandler ::
  "('v, 'sc) env \<Rightarrow> 'v handlers \<Rightarrow> bool \<Rightarrow> bool \<Rightarrow> nat \<times> 'v request \<Rightarrow> 'v wsConn \<Rightarrow> 'v wsConn flow" where
  "runHandler E hs ok ended g c =
     (case handle E hs (fst g) (snd g) True of
        (as, p) \<Rightarrow>
          (case wsActs E ok ended g as c of
             Next c' \<Rightarrow> (case p of None \<Rightarrow> Next c' | Some q \<Rightarrow> Panic q)
           | r \<Rightarrow> r))"

text \<open>The message a handler's reply becomes, and its id.\<close>

fun reply_id :: "'v wsMsg \<Rightarrow> goint option" where
  "reply_id (FrameMsg f) = fr_ID f"
| "reply_id _ = None"

lemma encoded_id: "encoded E resp = EmptyMsg \<or> reply_id (encoded E resp) = Some (resp_ID resp)"
  by (auto simp: encoded_def frame_of_response_def split: option.split)

text \<open>
  The message that answers request \<open>i\<close>, written out for every reply of \<open>handle\<close>: an error, or the
  result and error of the method with a channel replaced by the next id of the counter \<open>n\<close>; it is
  empty only for a result that cannot be marshalled.
\<close>

definition sentValue :: "uint64 \<Rightarrow> 'v response \<Rightarrow> 'v goval" where
  "sentValue n r = (case resp_Result r of GChan ch \<Rightarrow> GUint (n + 1) | v \<Rightarrow> v)"

definition answerMsg :: "('v, 'sc) env \<Rightarrow> goint \<Rightarrow> uint64 \<Rightarrow> 'v action \<Rightarrow> 'v wsMsg" where
  "answerMsg E i n a =
     (case a of
        RpcError code e \<Rightarrow> FrameMsg \<lparr>fr_Jsonrpc = ''2.0'', fr_ID = Some i, fr_Meta = None, fr_Method = '''',
          fr_Params = [], fr_Result = None, fr_Error = Some \<lparr>re_Code = code, re_Message = e\<rparr>\<rparr>
      | Respond r \<Rightarrow>
          (case marshal E (sentValue n r) of
             None \<Rightarrow> EmptyMsg
           | Some j \<Rightarrow> FrameMsg \<lparr>fr_Jsonrpc = resp_Jsonrpc r, fr_ID = Some i, fr_Meta = None, fr_Method = '''',
               fr_Params = [], fr_Result = (if sentValue n r = GNil then None else Some (Doc j)),
               fr_Error = resp_Error r\<rparr>)
      | _ \<Rightarrow> EmptyMsg)"

text \<open>The channel a reply registers, with its id.\<close>

definition newRegs :: "uint64 \<Rightarrow> 'v action \<Rightarrow> (uint64 \<times> nat) list" where
  "newRegs n a =
     (case a of Respond r \<Rightarrow> (case resp_Result r of GChan ch \<Rightarrow> [(n + 1, ch)] | _ \<Rightarrow> []) | _ \<Rightarrow> [])"

lemma wsAct_reply:
  assumes "is_reply a" "\<forall>r. a = Respond r \<longrightarrow> resp_ID r = i" "req_ID (snd g) = Some i"
  shows "\<exists>c'. wsAct E True False g a c = Next c' \<and> ws_sent c' = ws_sent c @ [answerMsg E i (ws_chanCtr c) a] \<and>
      ws_regs c' = ws_regs c @ newRegs (ws_chanCtr c) a \<and> ws_handling c' = ws_handling c \<and>
      ws_cancelled c' = ws_cancelled c \<and> ws_inflight c' = ws_inflight c \<and> ws_ready c' = ws_ready c"
proof (cases a)
  case (RpcError code err)
  then show ?thesis
    using assms(3) by (simp add: wsAct_def nextWriter_def rpcErrorResponse_def encoded_def frame_of_response_def
        marshal_def answerMsg_def newRegs_def)
next
  case (Respond r)
  then have "resp_ID r = i" using assms(2) by simp
  with Respond show ?thesis
    by (cases "resp_Result r") (simp_all add: wsAct_def nextWriter_def handleChanOut_def Let_def encoded_def
        frame_of_response_def answerMsg_def sentValue_def newRegs_def split: option.split)
qed (use assms in auto)

lemma handle_shape:
  assumes "wf_handlers hs" "req_ID req = Some i"
  shows "\<exists>bs a keep. handle E hs ctx req canChan = (bs @ [a, Done keep], None) \<and>
    (bs = [] \<or> (\<exists>args. bs = [Invoke args])) \<and> is_reply a \<and> (\<forall>r. a = Respond r \<longrightarrow> resp_ID r = i) \<and>
    (keep \<longleftrightarrow> (\<exists>h. hs (req_Method req) = Some h \<and> chanResult h \<and>
       length (req_Params req) = length (rh_paramReceivers h)))"
proof (cases "hs (req_Method req)")
  case None
  let ?e = "RpcError rpcMethodNotFound (''method '' @ quote (req_Method req) @ '' not found'')"
  from None have "handle E hs ctx req canChan = ([] @ [?e, Done False], None)" by (simp add: handle_def)
  with None show ?thesis by (intro exI [of _ "[]"] exI [of _ ?e] exI [of _ False]) simp
next
  case (Some h)
  with assms(1) have wf: "wf_handler h" by (rule wf_handlersD)
  then have n: "rh_nParams h = length (rh_paramReceivers h)" by (simp add: wf_handler_def)
  show ?thesis
  proof (cases "length (req_Params req) = rh_nParams h")
    case False
    let ?e = "RpcError rpcInvalidParams ''wrong param count''"
    from Some False have "handle E hs ctx req canChan = ([] @ [?e, Done False], None)" by (simp add: handle_def)
    with Some False n show ?thesis by (intro exI [of _ "[]"] exI [of _ ?e] exI [of _ False]) simp
  next
    case True
    obtain as p where body: "handleBody E (getSpan E ctx req) h req canChan (chanResult h) = (as, p)" by fastforce
    have run: "handle E hs ctx req canChan = (as @ [Done (chanResult h)], p)"
      using Some True body outChannel_eq [OF wf] by (simp add: handle_def Let_def chanResult_def)
    from wf True body obtain bs a where "as = bs @ [a]" "p = None" "bs = [] \<or> (\<exists>args. bs = [Invoke args])"
      "is_reply a" "\<forall>r. a = Respond r \<longrightarrow> resp_ID r = i"
      by (rule handleBody_cases) (use assms(2) in \<open>force+\<close>)
    with run Some True n show ?thesis by (intro exI [of _ bs] exI [of _ a] exI [of _ "chanResult h"]) auto
  qed
qed

lemma runHandler_open:
  assumes "wf_handlers hs" "req_ID (snd g) = Some i"
  shows "\<exists>c' a. runHandler E hs True False g c = Next c' \<and>
    filter is_reply (fst (handle E hs (fst g) (snd g) True)) = [a] \<and>
    ws_sent c' = ws_sent c @ [answerMsg E i (ws_chanCtr c) a] \<and>
    ws_regs c' = ws_regs c @ newRegs (ws_chanCtr c) a \<and>
    ws_inflight c' = ws_inflight c \<and> ws_ready c' = ws_ready c \<and>
    (if \<exists>h. hs (req_Method (snd g)) = Some h \<and> chanResult h \<and>
        length (req_Params (snd g)) = length (rh_paramReceivers h)
     then ws_handling c' = ws_handling c \<and> ws_cancelled c' = ws_cancelled c
     else ws_handling c' = (ws_handling c)(i := None) \<and> ws_cancelled c' = ws_cancelled c @ [fst g])"
proof -
  from handle_shape [OF assms, of E "fst g" True] obtain bs a keep where
    h: "handle E hs (fst g) (snd g) True = (bs @ [a, Done keep], None)"
      "bs = [] \<or> (\<exists>args. bs = [Invoke args])" "is_reply a" "\<forall>r. a = Respond r \<longrightarrow> resp_ID r = i"
      "keep \<longleftrightarrow> (\<exists>h. hs (req_Method (snd g)) = Some h \<and> chanResult h \<and>
         length (req_Params (snd g)) = length (rh_paramReceivers h))" by blast
  from wsAct_reply [OF h(3,4) assms(2), of E c] obtain c1 where c1: "wsAct E True False g a c = Next c1"
    "ws_sent c1 = ws_sent c @ [answerMsg E i (ws_chanCtr c) a]"
    "ws_regs c1 = ws_regs c @ newRegs (ws_chanCtr c) a" "ws_handling c1 = ws_handling c"
    "ws_cancelled c1 = ws_cancelled c" "ws_inflight c1 = ws_inflight c" "ws_ready c1 = ws_ready c" by blast
  let ?c2 = "if keep then c1 else c1\<lparr>ws_cancelled := ws_cancelled c1 @ [fst g],
    ws_handling := (ws_handling c1)(i := None)\<rparr>"
  have "wsActs E True False g (bs @ [a, Done keep]) c = Next ?c2"
    using h(2) c1(1) assms(2) by (auto simp: wsAct_def)
  then have "runHandler E hs True False g c = Next ?c2" using h(1) by (simp add: runHandler_def)
  moreover have "filter is_reply (fst (handle E hs (fst g) (snd g) True)) = [a]" using h(1-3) by auto
  ultimately show ?thesis unfolding h(5) [symmetric] using c1 by (intro exI [of _ ?c2] exI [of _ a]) auto
qed

text \<open>
  C14: the life of one call on a serving connection. A call with an id starts one handler goroutine
  with a fresh context, recorded under the id so that a cancellation can find it. Run to its end on
  an open connection, the goroutine writes exactly one message: the encoding, under that id, of the
  one reply \<open>handle\<close> makes, with a channel in it registered under the next channel id and replaced by
  that id; the message is empty only for a result that cannot be marshalled. The context is then
  cancelled and the record removed, except exactly when the call reached a method that returns
  a channel with the right number of parameters; then both stay.
\<close>

theorem call_lifecycle:
  assumes "wf_handlers hs" "fr_ID fr = Some i" "fr_Method fr \<notin> {'''', wsCancel, chValue, chClose}"
  shows "\<exists>c1 c2 a. handleFrame fr c = Next c1 \<and> ws_handling c1 i = Some (ws_nextCtx c) \<and>
    ws_nextCtx c1 = Suc (ws_nextCtx c) \<and>
    ws_spawned c1 = ws_spawned c @ [(ws_nextCtx c, request_of_frame fr)] \<and>
    runHandler E hs True False (ws_nextCtx c, request_of_frame fr) c1 = Next c2 \<and>
    filter is_reply (fst (handle E hs (ws_nextCtx c) (request_of_frame fr) True)) = [a] \<and>
    ws_sent c2 = ws_sent c @ [answerMsg E i (ws_chanCtr c) a] \<and>
    ws_regs c2 = ws_regs c @ newRegs (ws_chanCtr c) a \<and>
    ws_inflight c2 = ws_inflight c \<and> ws_ready c2 = ws_ready c \<and>
    (if \<exists>h. hs (fr_Method fr) = Some h \<and> chanResult h \<and> length (fr_Params fr) = length (rh_paramReceivers h)
     then ws_handling c2 i = Some (ws_nextCtx c) \<and> ws_cancelled c2 = ws_cancelled c
     else ws_handling c2 i = None \<and> ws_cancelled c2 = ws_cancelled c @ [ws_nextCtx c])"
proof -
  define g where "g = (ws_nextCtx c, request_of_frame fr)"
  define c1 where "c1 = c\<lparr>ws_nextCtx := Suc (ws_nextCtx c),
    ws_handling := (ws_handling c)(i \<mapsto> ws_nextCtx c), ws_spawned := ws_spawned c @ [g]\<rparr>"
  have 1: "handleFrame fr c = Next c1"
    using assms(2,3) by (simp add: handleFrame_def handleCall_def Let_def c1_def g_def)
  have g: "req_ID (snd g) = Some i" "fst g = ws_nextCtx c" "snd g = request_of_frame fr"
    "req_Method (request_of_frame fr) = fr_Method fr" "req_Params (request_of_frame fr) = fr_Params fr"
    using assms(2) by (simp_all add: request_of_frame_def g_def)
  from runHandler_open [OF assms(1) g(1), of E c1] obtain c2 a where
    "runHandler E hs True False g c1 = Next c2"
    "filter is_reply (fst (handle E hs (ws_nextCtx c) (request_of_frame fr) True)) = [a]"
    "ws_sent c2 = ws_sent c1 @ [answerMsg E i (ws_chanCtr c1) a]"
    "ws_regs c2 = ws_regs c1 @ newRegs (ws_chanCtr c1) a" "ws_inflight c2 = ws_inflight c1"
    "ws_ready c2 = ws_ready c1"
    "if \<exists>h. hs (fr_Method fr) = Some h \<and> chanResult h \<and> length (fr_Params fr) = length (rh_paramReceivers h)
     then ws_handling c2 = ws_handling c1 \<and> ws_cancelled c2 = ws_cancelled c1
     else ws_handling c2 = (ws_handling c1)(i := None) \<and> ws_cancelled c2 = ws_cancelled c1 @ [ws_nextCtx c]"
    unfolding g(2-5) by meson
  with 1 show ?thesis
    by (intro exI [of _ c1] exI [of _ c2] exI [of _ a]) (simp add: c1_def g_def split: if_splits)
qed

text \<open>
  When the connection of a serving side ends, no running call is cancelled: the loop over the
  calls being handled is inside the loop over the requests in flight, and a side that made no
  request has none.
\<close>

theorem end_of_server_cancels_nothing:
  assumes "wsRun evs ws_init = Next c" "requests evs = []" "wsLoop ev c = Exit c'"
    and "set ids = dom (ws_inflight c')"
  shows "wsCleanup seen hs ids c' = Exit c' \<and> ws_cancelled c' = ws_cancelled c"
proof -
  have "ws_inv [] c" using ws_inv_run [OF assms(1)] assms(2) by (simp add: issued_def)
  then have "ws_inflight c i = None" for i by (cases "ws_inflight c i") (auto simp: ws_inv_def)
  then have "dom (ws_inflight c) = {}" by auto
  moreover have "ws_inflight c' = ws_inflight c \<and> ws_cancelled c' = ws_cancelled c"
    using assms(3) handleFrame_no_Exit
    by (auto simp: wsLoop_def sendRequest_def split: event.splits option.splits if_splits)
  ultimately have "ids = []" "ws_cancelled c' = ws_cancelled c" using assms(4) by auto
  then show ?thesis by simp
qed

definition demo_callFrame :: "int frame" where
  "demo_callFrame = frame_of_request (demo_request ''S.Add'' (Some 5) [2, 3])"

theorem call_lifecycle_witness:
  "\<exists>c1 c2. handleFrame demo_callFrame ws_init = Next c1 \<and>
     runHandler demo_env demo_handlers True False (0, request_of_frame demo_callFrame) c1 = Next c2 \<and>
     ws_sent c2 = [FrameMsg \<lparr>fr_Jsonrpc = ''2.0'', fr_ID = Some 5, fr_Meta = None, fr_Method = '''', fr_Params = [],
       fr_Result = Some (Doc (JInt 5)), fr_Error = None\<rparr>] \<and> ws_handling c2 5 = None \<and> ws_cancelled c2 = [0]"
proof -
  let ?h = "handlerOf (GVal 0) demo_Add 0 1"
  have fr: "fr_ID demo_callFrame = Some 5" "fr_Method demo_callFrame \<notin> {'''', wsCancel, chValue, chClose}"
    by (simp_all add: demo_callFrame_def frame_of_request_def demo_request_def wsCancel_def chValue_def chClose_def)
  have h: "demo_handlers (fr_Method demo_callFrame) = Some ?h" "\<not> chanResult ?h"
    by (simp_all add: demo_callFrame_def frame_of_request_def demo_request_def demo_handlers_def chanResult_def
        handlerOf_def Let_def demo_Add_def)
  have run: "filter is_reply (fst (handle demo_env demo_handlers 0 (request_of_frame demo_callFrame) True)) =
      [Respond \<lparr>resp_Jsonrpc = ''2.0'', resp_Result = GVal 5, resp_ID = 5, resp_Error = None\<rparr>]"
    by code_simp
  from call_lifecycle [OF demo_wf fr, of ws_init demo_env] h run show ?thesis
    by (auto simp: ws_init_def answerMsg_def sentValue_def demo_env_def marshal_def)
qed

theorem end_of_server_cancels_nothing_witness:
  "\<exists>c. wsRun [Incoming (Some demo_callFrame)] ws_init = Next c \<and> wsCleanup id [0] [] c = Exit c \<and>
     ws_handling c 5 = Some 0 \<and> ws_cancelled c = []"
proof -
  obtain c where c: "wsRun [Incoming (Some demo_callFrame)] ws_init = Next c" "ws_handling c 5 = Some 0"
    "ws_inflight c = Map.empty" "ws_cancelled c = []"
    by (simp add: wsLoop_def handleFrame_def handleCall_def demo_callFrame_def frame_of_request_def
        demo_request_def wsCancel_def chValue_def chClose_def ws_init_def)
  have "wsCleanup id [0] [] c = Exit c \<and> ws_cancelled c = ws_cancelled c"
    by (rule end_of_server_cancels_nothing [OF c(1), of Closed]) (simp_all add: wsLoop_def c(3))
  with c show ?thesis by blast
qed

end
