(* ===== verification/Dashboard.thy ===== *)
theory Dashboard
  imports WsConn
begin

text \<open>
  The programs around the libraries: the dashboard client (\<open>src/main/clientrpc.go\<close>), which asks a
  node for its state once a minute and posts it, the local test node (\<open>src/main/localserver.go\<close>) and
  the transmitting side (\<open>src/main/server/server.go\<close>).
\<close>

section \<open>The service of the local node (\<open>localserver.go\<close>)\<close>

text \<open>
  The values of the eight methods. Addresses of a peer are kept as their text, a \<open>*TipSet\<close> as its
  height (\<open>None\<close>: the nil pointer), a \<open>BigInt\<close> as its number (\<open>None\<close>: the zero struct).
\<close>

datatype nodeVal =
    Handler
  | AddrInfo "string list"
  | Str string
  | TipSet "uint64 option"
  | BigInt "int option"
  | MinerPower "int option" "int option"
  | Uint64 uint64
  | MinerSectors uint64 uint64
  | Address string

definition addrInfoT :: gotype where "addrInfoT = NamedT ''peer.AddrInfo''"
definition stringT :: gotype where "stringT = NamedT ''string''"
definition tipSetT :: gotype where "tipSetT = PtrT (NamedT ''types.TipSet'')"
definition addressT :: gotype where "addressT = NamedT ''address.Address''"
definition minerPowerT :: gotype where "minerPowerT = NamedT ''rpc.MinerPower''"
definition bigIntT :: gotype where "bigIntT = NamedT ''types.BigInt''"
definition uint64T :: gotype where "uint64T = NamedT ''uint64''"
definition minerSectorsT :: gotype where "minerSectorsT = NamedT ''rpc.MinerSectors''"

lemmas type_defs = addrInfoT_def stringT_def tipSetT_def addressT_def minerPowerT_def bigIntT_def
  uint64T_def minerSectorsT_def

text \<open>
  A method of \<open>SimpleServerHandler\<close> that returns a value and no error. \<open>parse\<close> stands for
  \<open>addrutil.ParseAddresses\<close> (the addresses of each peer found) and \<open>newTipSet\<close> for
  \<open>types.NewTipSet\<close> on one block of the given height.
\<close>

definition nodeMethod :: "string \<Rightarrow> gotype list \<Rightarrow> gotype \<Rightarrow> (string + nodeVal) \<Rightarrow> nodeVal goMethod" where
  "nodeMethod name ins t res =
     \<lparr>mt_Name = name, mt_In = PtrT (NamedT ''SimpleServerHandler'') # ContextT # ins, mt_Out = [t, ErrorT],
      mt_Fmt = name, mt_Call = (\<lambda>args. case res of Inl e \<Rightarrow> Inl e | Inr v \<Rightarrow> Inr [GVal v, GNil])\<rparr>"

definition nodeAddrs :: "string list" where
  "nodeAddrs =
     [''/ip4/127.0.0.1/tcp/12000/ipfs/12D3KooWH7GXgKS4gshpFrbYQ6UxzHeJxfqz5FyfhCn2RnNjofph'',
      ''/ip4/192.168.0.10/tcp/12000/ipfs/12D3KooWH7GXgKS4gshpFrbYQ6UxzHeJxfqz5FyfhCn2RnNjofph'',
      ''/ip6/::1/tcp/12000/ipfs/12D3KooWH7GXgKS4gshpFrbYQ6UxzHeJxfqz5FyfhCn2RnNjofph'']"

definition NetAddrsListen :: "(string list \<Rightarrow> string list list) \<Rightarrow> string + nodeVal" where
  "NetAddrsListen parse =
     (case parse nodeAddrs of [] \<Rightarrow> Inl ''index out of range'' | a # _ \<Rightarrow> Inr (AddrInfo a))"

definition nodeMethods :: "(string list \<Rightarrow> string list list) \<Rightarrow> (uint64 \<Rightarrow> uint64 option) \<Rightarrow> nodeVal goMethod list" where
  "nodeMethods parse newTipSet =
     [nodeMethod ''NetAddrsListen'' [] addrInfoT (NetAddrsListen parse),
      nodeMethod ''ID'' [] stringT (Inr (Str ''12D3KooWH7GXgKS4gshpFrbYQ6UxzHeJxfqz5FyfhCn2RnNjofph'')),
      nodeMethod ''ChainHead'' [] tipSetT
        (case newTipSet 51174 of None \<Rightarrow> Inl ''nil pointer dereference'' | Some h \<Rightarrow> Inr (TipSet (Some h))),
      nodeMethod ''StateMinerPower'' [addressT, tipSetT] minerPowerT
        (Inr (MinerPower (Some 1000) (Some 633825300114114756364956860416))),
      nodeMethod ''WalletBalance'' [addressT] bigIntT (Inr (BigInt (Some 487776486641635185))),
      nodeMethod ''StateMinerSectorSize'' [addressT, tipSetT] uint64T (Inr (Uint64 1073741824)),
      nodeMethod ''StateMinerSectorCount'' [addressT, tipSetT] minerSectorsT (Inr (MinerSectors 49 261)),
      nodeMethod ''ActorAddress'' [] stringT (Inr (Str ''t06266''))]"

text \<open>\<open>main\<close> of the local node: the handlers its server gets.\<close>

definition nodeServer :: "(string list \<Rightarrow> string list list) \<Rightarrow> (uint64 \<Rightarrow> uint64 option) \<Rightarrow> nodeVal handlers go" where
  "nodeServer parse newTipSet = register NewServer_Methods ''Filecoin'' (GVal Handler) (nodeMethods parse newTipSet)"

section \<open>The dashboard client (\<open>clientrpc.go\<close>)\<close>

text \<open>The structs of function fields that \<open>main\<close> hands to \<open>NewClient\<close>.\<close>

definition dashboardFields :: "(string \<times> gotype) list" where
  "dashboardFields =
     [(''NetAddrsListen'', FuncT [ContextT] [addrInfoT, ErrorT]),
      (''ID'', FuncT [ContextT] [stringT, ErrorT]),
      (''ChainHead'', FuncT [ContextT] [tipSetT, ErrorT]),
      (''StateMinerPower'', FuncT [ContextT, addressT, tipSetT] [minerPowerT, ErrorT]),
      (''WalletBalance'', FuncT [ContextT, addressT] [bigIntT, ErrorT]),
      (''StateMinerSectorSize'', FuncT [ContextT, addressT, tipSetT] [uint64T, ErrorT]),
      (''StateMinerSectorCount'', FuncT [ContextT, addressT, tipSetT] [minerSectorsT, ErrorT]),
      (''ActorAddress'', FuncT [ContextT] [stringT, ErrorT])]"

record Lotus =
  lo_NetAddrsListenData :: string
  lo_IdData :: string
  lo_ChainHeadData :: uint64
  lo_MinerData :: string
  lo_StateMinerPowerData :: "int option"
  lo_WalletBalanceData :: "int option"
  lo_StateMinerSectorSize :: uint64
  lo_CPU :: string
  lo_GPU :: string
  lo_Mem :: string

definition initialLotus :: Lotus where
  "initialLotus = \<lparr>lo_NetAddrsListenData = '''', lo_IdData = '''', lo_ChainHeadData = 0, lo_MinerData = '''',
     lo_StateMinerPowerData = None, lo_WalletBalanceData = None, lo_StateMinerSectorSize = 0,
     lo_CPU = ''24'', lo_GPU = ''INVIDIA 2040'', lo_Mem = ''128''\<rparr>"

text \<open>
  What \<open>NewClient\<close> gave for one field: an error, and then a nil closer and nil data, or the data,
  which may be nil.
\<close>

datatype probe = Failed | Got "nodeVal option"

definition the_data :: "probe \<Rightarrow> nodeVal option" where
  "the_data r = (case r of Failed \<Rightarrow> None | Got d \<Rightarrow> d)"

text \<open>\<open>strings.Split(s, sep)\<close> with a separator of one character.\<close>

fun split :: "char \<Rightarrow> string \<Rightarrow> string list" where
  "split sep [] = [[]]"
| "split sep (c # cs) =
     (if c = sep then [] # split sep cs
      else case split sep cs of [] \<Rightarrow> [[c]] | w # ws \<Rightarrow> (c # w) # ws)"

text \<open>Type assertions on the data: a nil interface or another dynamic type panics.\<close>

definition asString :: "nodeVal option \<Rightarrow> string go" where
  "asString d = (case d of Some (Str s) \<Rightarrow> Inr s | _ \<Rightarrow> Inl TypeAssertion)"

definition asUint64 :: "nodeVal option \<Rightarrow> uint64 go" where
  "asUint64 d = (case d of Some (Uint64 n) \<Rightarrow> Inr n | _ \<Rightarrow> Inl TypeAssertion)"

definition asPset :: "nodeVal option \<Rightarrow> uint64 go" where
  "asPset d = (case d of Some (MinerSectors p s) \<Rightarrow> Inr p | _ \<Rightarrow> Inl TypeAssertion)"

definition listenData :: "probe \<Rightarrow> string go" where
  "listenData r =
     (case r of
        Failed \<Rightarrow> Inr ''''
      | Got None \<Rightarrow> Inr ''''
      | Got (Some (AddrInfo addrs)) \<Rightarrow>
          gbind (go_at addrs 1) (\<lambda>a. go_at (split (CHR ''/'') a) 2)
      | Got (Some _) \<Rightarrow> Inl TypeAssertion)"

definition chainHeadData :: "probe \<Rightarrow> uint64 go" where
  "chainHeadData r =
     (case r of
        Failed \<Rightarrow> Inr 0
      | Got None \<Rightarrow> Inr 0
      | Got (Some (TipSet (Some h))) \<Rightarrow> Inr h
      | Got (Some (TipSet None)) \<Rightarrow> Inl NilDereference
      | Got (Some _) \<Rightarrow> Inl TypeAssertion)"

definition minerPowerData :: "probe \<Rightarrow> int option go" where
  "minerPowerData r =
     (case the_data r of None \<Rightarrow> Inr (Some 0) | Some (MinerPower p t) \<Rightarrow> Inr p | Some _ \<Rightarrow> Inl TypeAssertion)"

definition balanceData :: "probe \<Rightarrow> int option go" where
  "balanceData r =
     (case the_data r of None \<Rightarrow> Inr (Some 0) | Some (BigInt b) \<Rightarrow> Inr b | Some _ \<Rightarrow> Inl TypeAssertion)"

text \<open>A closer is nil after an error, and calling it a nil dereference.\<close>

definition callCloser :: "probe \<Rightarrow> unit go" where
  "callCloser r = (case r of Failed \<Rightarrow> Inl NilDereference | Got d \<Rightarrow> Inr ())"

text \<open>The answers one round gets, in the order of the calls.\<close>

record answers8 =
  an_listen :: probe
  an_id :: probe
  an_head :: probe
  an_miner :: probe
  an_power :: probe
  an_balance :: probe
  an_size :: probe
  an_count :: probe

text \<open>The part of the round that needs the miner's address.\<close>

definition minerRound :: "answers8 \<Rightarrow> Lotus \<Rightarrow> Lotus go" where
  "minerRound a l =
     gbind (asString (the_data (an_miner a))) (\<lambda>miner.
     gbind (minerPowerData (an_power a)) (\<lambda>power.
     gbind (balanceData (an_balance a)) (\<lambda>balance.
     gbind (if an_size a \<noteq> Failed \<and> an_count a \<noteq> Failed
            then gbind (asUint64 (the_data (an_size a))) (\<lambda>sz.
                 gbind (asPset (the_data (an_count a))) (\<lambda>pset. Inr (sz * pset)))
            else Inr 0) (\<lambda>total.
     gbind (callCloser (an_power a)) (\<lambda>_.
     gbind (callCloser (an_balance a)) (\<lambda>_.
     gbind (callCloser (an_size a)) (\<lambda>_.
     gbind (callCloser (an_count a)) (\<lambda>_.
       Inr (l\<lparr>lo_MinerData := miner, lo_StateMinerPowerData := power, lo_WalletBalanceData := balance,
              lo_StateMinerSectorSize := total\<rparr>)))))))))"

text \<open>\<open>NewTransmitClient\<close>: after a failed post the nil response is read.\<close>

definition NewTransmitClient :: "bool \<Rightarrow> unit go" where
  "NewTransmitClient posted = (if posted then Inr () else Inl NilDereference)"

text \<open>One round of the endless loop of \<open>main\<close>.\<close>

definition dashboardRound :: "answers8 \<Rightarrow> bool \<Rightarrow> Lotus \<Rightarrow> Lotus go" where
  "dashboardRound a posted l =
     gbind (listenData (an_listen a)) (\<lambda>ip.
     gbind (case an_id a of Failed \<Rightarrow> Inr ''id not recognised'' | Got d \<Rightarrow> asString d) (\<lambda>nodeId.
     gbind (chainHeadData (an_head a)) (\<lambda>height.
     (let l1 = l\<lparr>lo_NetAddrsListenData := ip, lo_IdData := nodeId, lo_ChainHeadData := height\<rparr> in
     gbind (if an_miner a \<noteq> Failed then minerRound a l1 else Inr l1) (\<lambda>l2.
     gbind (callCloser (an_listen a)) (\<lambda>_.
     gbind (callCloser (an_id a)) (\<lambda>_.
     gbind (callCloser (an_head a)) (\<lambda>_.
     gbind (callCloser (an_miner a)) (\<lambda>_.
     gbind (NewTransmitClient posted) (\<lambda>_. Inr l2))))))))))"

definition dashboardRun :: "(answers8 \<times> bool) list \<Rightarrow> Lotus \<Rightarrow> Lotus go" where
  "dashboardRun rounds l = gfold (\<lambda>l (a, posted). dashboardRound a posted l) l rounds"

section \<open>The transmitting connection (\<open>server/server.go\<close>)\<close>

text \<open>
  \<open>webconn\<close>: whether \<open>exiting\<close> is closed, whether an error was recorded, and the messages written.
  An incoming message comes with whether it decodes as a response; \<open>serverMessage\<close> records an error
  before it closes \<open>incoming\<close>, and unlike \<open>nextMessage\<close> returns after an unsupported type.
\<close>

record webconn =
  wc_exiting :: bool
  wc_err :: bool
  wc_sent :: "Lotus list"
  wc_closeMsgs :: nat

datatype wcRead = WcReadError | WcReadOther | WcReadData bool

datatype wcEvent = WcIncoming "bool option" | WcRequest Lotus bool | WcStop

definition serverMessage :: "wcRead \<Rightarrow> webconn \<Rightarrow> wcEvent \<times> webconn" where
  "serverMessage r c =
     (case r of
        WcReadError \<Rightarrow> (WcIncoming None, c\<lparr>wc_err := True\<rparr>)
      | WcReadOther \<Rightarrow> (WcIncoming None, c\<lparr>wc_err := True\<rparr>)
      | WcReadData ok \<Rightarrow> (WcIncoming (Some ok), c))"

definition wcSendRequest :: "bool \<Rightarrow> Lotus \<Rightarrow> webconn \<Rightarrow> webconn flow" where
  "wcSendRequest ok req c =
     (if ok then Next (c\<lparr>wc_sent := wc_sent c @ [req]\<rparr>) else Panic UnlockOfUnlockedMutex)"

text \<open>
  One round of \<open>handleConn\<close>. A closed channel without a recorded error falls through to reading a
  nil reader; a message that decodes waits for \<open>exiting\<close>.
\<close>

definition handleConn :: "wcEvent \<Rightarrow> webconn \<Rightarrow> webconn flow" where
  "handleConn ev c =
     (case ev of
        WcIncoming None \<Rightarrow> if wc_err c then Exit c else Panic NilDereference
      | WcIncoming (Some ok) \<Rightarrow> if \<not> ok then Exit c else if wc_exiting c then Next c else Block
      | WcRequest req ok \<Rightarrow> wcSendRequest ok req c
      | WcStop \<Rightarrow> Exit (c\<lparr>wc_closeMsgs := Suc (wc_closeMsgs c)\<rparr>))"

section \<open>Machine facts (\<open>SimpleClientHandler\<close>)\<close>

text \<open>
  The four methods that run a shell command return the first line of its output, or nothing when it
  could not be started or wrote nothing. \<open>ReadLine\<close> of a reader with the default buffer returns at
  most 4096 bytes of a line, without its end-of-line characters.
\<close>

datatype commandRun = PipeError | StartError | Output string

definition readLine :: "string \<Rightarrow> string option" where
  "readLine s =
     (if s = [] then None
      else let line = takeWhile (\<lambda>c. c \<noteq> CHR 0x0A) s in
        if length line \<ge> 4096 then
          (let p = take 4096 s in Some (if last p = CHR 0x0D then butlast p else p))
        else if length line < length s \<and> line \<noteq> [] \<and> last line = CHR 0x0D then Some (butlast line)
        else Some line)"

definition commandLine :: "commandRun \<Rightarrow> string" where
  "commandLine r =
     (case r of
        PipeError \<Rightarrow> ''''
      | StartError \<Rightarrow> ''''
      | Output s \<Rightarrow> (case readLine s of None \<Rightarrow> '''' | Some l \<Rightarrow> l))"

section \<open>Properties\<close>

lemma nodeMethod_wf: "wf_method (nodeMethod name ins t res)" "okOut (nodeMethod name ins t res)" if "t \<noteq> ErrorT"
  using that
  by (auto simp: wf_method_def nodeMethod_def okOut_def less_Suc_eq split: sum.splits)

lemma nodeMethods_ok:
  "\<forall>f\<in>set (nodeMethods parse newTipSet). okOut f \<and> wf_method f" "distinct (map mt_Name (nodeMethods parse newTipSet))"
proof -
  show "\<forall>f\<in>set (nodeMethods parse newTipSet). okOut f \<and> wf_method f"
    using nodeMethod_wf by (simp add: nodeMethods_def type_defs)
  show "distinct (map mt_Name (nodeMethods parse newTipSet))"
    by (simp add: nodeMethods_def nodeMethod_def)
qed

lemma nodeMethods_mem:
  "nodeMethod ''NetAddrsListen'' [] addrInfoT (NetAddrsListen parse) \<in> set (nodeMethods parse newTipSet)"
  "nodeMethod ''ID'' [] stringT (Inr (Str ''12D3KooWH7GXgKS4gshpFrbYQ6UxzHeJxfqz5FyfhCn2RnNjofph''))
     \<in> set (nodeMethods parse newTipSet)"
  "nodeMethod ''ChainHead'' [] tipSetT
     (case newTipSet 51174 of None \<Rightarrow> Inl ''nil pointer dereference'' | Some h \<Rightarrow> Inr (TipSet (Some h)))
     \<in> set (nodeMethods parse newTipSet)"
  "nodeMethod ''StateMinerPower'' [addressT, tipSetT] minerPowerT
     (Inr (MinerPower (Some 1000) (Some 633825300114114756364956860416))) \<in> set (nodeMethods parse newTipSet)"
  "nodeMethod ''WalletBalance'' [addressT] bigIntT (Inr (BigInt (Some 487776486641635185)))
     \<in> set (nodeMethods parse newTipSet)"
  "nodeMethod ''StateMinerSectorSize'' [addressT, tipSetT] uint64T (Inr (Uint64 1073741824))
     \<in> set (nodeMethods parse newTipSet)"
  "nodeMethod ''StateMinerSectorCount'' [addressT, tipSetT] minerSectorsT (Inr (MinerSectors 49 261))
     \<in> set (nodeMethods parse newTipSet)"
  "nodeMethod ''ActorAddress'' [] stringT (Inr (Str ''t06266'')) \<in> set (nodeMethods parse newTipSet)"
  unfolding nodeMethods_def list.set by (intro insertI1 insertI2)+

text \<open>A field of the dashboard and a method of the node with the same signature.\<close>

lemma stub_matches_method:
  assumes "t \<noteq> ErrorT" "\<not> is_chan t"
  shows "\<exists>fn. makeRpcFunc (name, FuncT (ContextT # ins) [t, ErrorT]) = Inr (Inr fn) \<and> stub_of fn \<and>
    \<not> rf_retCh fn \<and> rf_Out fn = mt_Out (nodeMethod name ins t res) \<and>
    drop (rf_hasCtx fn) (rf_In fn) = rh_paramReceivers (handlerOf v (nodeMethod name ins t res) x y)"
proof -
  have "map ((!) ins) [0..<length ins] = ins" by (rule map_nth)
  then have "rh_paramReceivers (handlerOf v (nodeMethod name ins t res) x y) = ins"
    by (simp add: handlerOf_def nodeMethod_def Let_def)
  then show ?thesis
    using assms by (simp add: makeRpcFunc_def processFuncOut_def stub_of_def nodeMethod_def)
qed

text \<open>
  C32: the dashboard and the local node fit together. The node's registration returns; for each of
  the eight fields the dashboard calls, \<open>makeRpcFunc\<close> gives a stub and the node has a well-formed
  handler under the name the stub uses, with the same results and the parameter types the stub
  sends, so that the end-to-end theorem on remote calls applies to each of them.
\<close>

theorem dashboard_matches_node:
  "\<exists>hs. nodeServer parse newTipSet = Inr hs \<and>
    list_all (\<lambda>(name, t). \<exists>fn h. makeRpcFunc (name, t) = Inr (Inr fn) \<and> stub_of fn \<and> \<not> rf_retCh fn \<and>
      hs (''Filecoin.'' @ name) = Some h \<and> wf_handler h \<and> rf_Out fn = mt_Out (rh_handlerFunc h) \<and>
      drop (rf_hasCtx fn) (rf_In fn) = rh_paramReceivers h) dashboardFields"
proof -
  from register_ok [OF nodeMethods_ok, of NewServer_Methods "''Filecoin''" "GVal Handler" parse newTipSet]
  obtain hs where hs: "nodeServer parse newTipSet = Inr hs"
    and found: "\<forall>f\<in>set (nodeMethods parse newTipSet). \<exists>v e. hs (''Filecoin'' @ ''.'' @ mt_Name f) =
      Some (handlerOf (GVal Handler) f v e) \<and> wf_handler (handlerOf (GVal Handler) f v e)"
    by (auto simp: nodeServer_def)
  have field: "\<exists>fn h. makeRpcFunc (name, FuncT (ContextT # ins) [t, ErrorT]) = Inr (Inr fn) \<and> stub_of fn \<and> \<not> rf_retCh fn \<and>
      hs (''Filecoin.'' @ name) = Some h \<and> wf_handler h \<and> rf_Out fn = mt_Out (rh_handlerFunc h) \<and>
      drop (rf_hasCtx fn) (rf_In fn) = rh_paramReceivers h"
    if m: "\<exists>res. nodeMethod name ins t res \<in> set (nodeMethods parse newTipSet)"
      and t: "t \<noteq> ErrorT" "\<not> is_chan t" for name ins t
  proof -
    from m obtain res where "nodeMethod name ins t res \<in> set (nodeMethods parse newTipSet)" ..
    with found obtain v e where "hs (''Filecoin.'' @ name) = Some (handlerOf (GVal Handler) (nodeMethod name ins t res) v e)"
      "wf_handler (handlerOf (GVal Handler) (nodeMethod name ins t res) v e)"
      by (fastforce simp: nodeMethod_def)
    with stub_matches_method [OF t, of name ins res "GVal Handler" v e] show ?thesis
      by (metis handlerOf_sel(1))
  qed
  show ?thesis
    unfolding dashboardFields_def list.pred_inject prod.case
    by (intro exI [of _ hs] conjI TrueI field hs exI) (rule nodeMethods_mem | simp add: type_defs)+
qed

text \<open>The answers a round survives.\<close>

definition goodListen :: "probe \<Rightarrow> bool" where
  "goodListen r \<longleftrightarrow> r = Got None \<or> (\<exists>a b as. r = Got (Some (AddrInfo (a # b # as))) \<and> 2 < length (split (CHR ''/'') b))"

definition goodAnswers :: "answers8 \<Rightarrow> bool" where
  "goodAnswers a \<longleftrightarrow> goodListen (an_listen a) \<and> (\<exists>s. an_id a = Got (Some (Str s))) \<and>
     (an_head a = Got None \<or> (\<exists>h. an_head a = Got (Some (TipSet (Some h))))) \<and>
     (\<exists>s. an_miner a = Got (Some (Str s))) \<and>
     (an_power a = Got None \<or> (\<exists>p t. an_power a = Got (Some (MinerPower p t)))) \<and>
     (an_balance a = Got None \<or> (\<exists>b. an_balance a = Got (Some (BigInt b)))) \<and>
     (\<exists>n. an_size a = Got (Some (Uint64 n))) \<and> (\<exists>p s. an_count a = Got (Some (MinerSectors p s)))"

lemma listenData_good: "(\<exists>s. listenData r = Inr s) \<and> r \<noteq> Failed \<longleftrightarrow> goodListen r"
proof (cases "\<exists>as. r = Got (Some (AddrInfo as))")
  case True
  then obtain as where "r = Got (Some (AddrInfo as))" ..
  then show ?thesis
    by (cases as; cases "tl as") (auto simp: listenData_def goodListen_def go_at_def)
qed (auto simp: listenData_def goodListen_def split: probe.splits option.splits nodeVal.splits)

lemma chainHeadData_good:
  "(\<exists>h. chainHeadData r = Inr h) \<and> r \<noteq> Failed \<longleftrightarrow> r = Got None \<or> (\<exists>h. r = Got (Some (TipSet (Some h))))"
  by (auto simp: chainHeadData_def split: probe.splits option.splits nodeVal.splits)

lemma minerPowerData_good:
  "(\<exists>x. minerPowerData r = Inr x) \<and> r \<noteq> Failed \<longleftrightarrow> r = Got None \<or> (\<exists>p t. r = Got (Some (MinerPower p t)))"
  by (auto simp: minerPowerData_def the_data_def split: probe.splits option.splits nodeVal.splits)

lemma balanceData_good:
  "(\<exists>x. balanceData r = Inr x) \<and> r \<noteq> Failed \<longleftrightarrow> r = Got None \<or> (\<exists>b. r = Got (Some (BigInt b)))"
  by (auto simp: balanceData_def the_data_def split: probe.splits option.splits nodeVal.splits)

lemma callCloser_iff: "callCloser r = Inr u \<longleftrightarrow> r \<noteq> Failed"
  by (cases r) (auto simp: callCloser_def)

lemma as_good:
  "asString (the_data r) = Inr s \<longleftrightarrow> r = Got (Some (Str s))"
  "asUint64 (the_data r) = Inr n \<longleftrightarrow> r = Got (Some (Uint64 n))"
  "asPset (the_data r) = Inr p \<longleftrightarrow> (\<exists>s. r = Got (Some (MinerSectors p s)))"
  by (auto simp: asString_def asUint64_def asPset_def the_data_def split: probe.splits option.splits nodeVal.splits)

lemma minerRound_iff:
  "minerRound a l = Inr l' \<longleftrightarrow>
     (\<exists>s p b n pset q. an_miner a = Got (Some (Str s)) \<and> minerPowerData (an_power a) = Inr p \<and>
        balanceData (an_balance a) = Inr b \<and> an_power a \<noteq> Failed \<and> an_balance a \<noteq> Failed \<and>
        an_size a = Got (Some (Uint64 n)) \<and> an_count a = Got (Some (MinerSectors pset q)) \<and>
        l' = l\<lparr>lo_MinerData := s, lo_StateMinerPowerData := p, lo_WalletBalanceData := b,
              lo_StateMinerSectorSize := n * pset\<rparr>)"
  by (auto simp: minerRound_def gbind_Inr_iff as_good callCloser_iff)

lemma dashboardRound_iff:
  "dashboardRound a posted l = Inr l' \<longleftrightarrow>
     (\<exists>ip i h. listenData (an_listen a) = Inr ip \<and> an_id a = Got (Some (Str i)) \<and>
        chainHeadData (an_head a) = Inr h \<and> an_listen a \<noteq> Failed \<and> an_head a \<noteq> Failed \<and> posted \<and>
        minerRound a (l\<lparr>lo_NetAddrsListenData := ip, lo_IdData := i, lo_ChainHeadData := h\<rparr>) = Inr l')"
proof -
  have tr: "NewTransmitClient posted = Inr u \<longleftrightarrow> posted" for u by (auto simp: NewTransmitClient_def)
  have str: "asString d = Inr i \<longleftrightarrow> d = Some (Str i)" for d i
    by (auto simp: asString_def split: option.splits nodeVal.splits)
  note simps = dashboardRound_def Let_def gbind_Inr_iff callCloser_iff tr str
  show ?thesis
  proof (cases "an_miner a = Failed \<or> an_id a = Failed")
    case True
    then show ?thesis by (auto simp: simps minerRound_iff)
  next
    case False
    then obtain d where "an_id a = Got d" "an_miner a \<noteq> Failed" by (cases "an_id a") auto
    then show ?thesis by (auto simp: simps)
  qed
qed

text \<open>
  C33: when a round of the dashboard succeeds. It runs to its end exactly when every call got an
  answer of the expected type (nil data being tolerated for the addresses, the chain head, the
  power and the balance only, and the second address having a host part) and the report was
  posted; every other outcome stops the program, the failures for which \<open>main\<close> has default values
  included, because the nil closer of a failed client is called. The size it reports is the
  product of sector size and sector count modulo \<open>2^64\<close>.
\<close>

theorem round_completes_iff:
  "((\<exists>l'. dashboardRound a posted l = Inr l') \<longleftrightarrow> posted \<and> goodAnswers a) \<and>
   (\<forall>l' n pset q. dashboardRound a posted l = Inr l' \<and> an_size a = Got (Some (Uint64 n)) \<and>
      an_count a = Got (Some (MinerSectors pset q)) \<longrightarrow>
      unat (lo_StateMinerSectorSize l') = unat n * unat pset mod 2 ^ 64)" (is "?iff \<and> ?size")
proof
  have "(\<exists>l'. dashboardRound a posted l = Inr l') \<longleftrightarrow> posted \<and>
      ((\<exists>ip. listenData (an_listen a) = Inr ip) \<and> an_listen a \<noteq> Failed) \<and> (\<exists>i. an_id a = Got (Some (Str i))) \<and>
      ((\<exists>h. chainHeadData (an_head a) = Inr h) \<and> an_head a \<noteq> Failed) \<and> (\<exists>s. an_miner a = Got (Some (Str s))) \<and>
      ((\<exists>p. minerPowerData (an_power a) = Inr p) \<and> an_power a \<noteq> Failed) \<and>
      ((\<exists>b. balanceData (an_balance a) = Inr b) \<and> an_balance a \<noteq> Failed) \<and>
      (\<exists>n. an_size a = Got (Some (Uint64 n))) \<and> (\<exists>p s. an_count a = Got (Some (MinerSectors p s)))"
    unfolding dashboardRound_iff minerRound_iff by blast
  then show ?iff
    unfolding goodAnswers_def listenData_good chainHeadData_good minerPowerData_good balanceData_good by blast
  show ?size by (auto simp: dashboardRound_iff minerRound_iff unat_word_ariths)
qed

text \<open>The answers of the local node, with the addresses its parser returns and the height of its tip set.\<close>

definition nodeAnswers :: "string list \<Rightarrow> uint64 \<Rightarrow> answers8" where
  "nodeAnswers addrs h =
     \<lparr>an_listen = Got (Some (AddrInfo addrs)),
      an_id = Got (Some (Str ''12D3KooWH7GXgKS4gshpFrbYQ6UxzHeJxfqz5FyfhCn2RnNjofph'')),
      an_head = Got (Some (TipSet (Some h))), an_miner = Got (Some (Str ''t06266'')),
      an_power = Got (Some (MinerPower (Some 1000) (Some 633825300114114756364956860416))),
      an_balance = Got (Some (BigInt (Some 487776486641635185))),
      an_size = Got (Some (Uint64 1073741824)), an_count = Got (Some (MinerSectors 49 261))\<rparr>"

theorem round_completes_iff_witness:
  "(\<exists>l'. dashboardRound (nodeAnswers [''/ip4/127.0.0.1/tcp/12000'', ''/ip4/192.168.0.10/tcp/12000''] 51174) True initialLotus = Inr l') \<and>
   (\<nexists>l'. dashboardRound ((nodeAnswers [] 51174)\<lparr>an_listen := Failed\<rparr>) True initialLotus = Inr l')"
  using round_completes_iff [of "nodeAnswers [''/ip4/127.0.0.1/tcp/12000'', ''/ip4/192.168.0.10/tcp/12000''] 51174" True initialLotus]
    round_completes_iff [of "(nodeAnswers [] 51174)\<lparr>an_listen := Failed\<rparr>" True initialLotus]
  by (simp add: goodAnswers_def goodListen_def nodeAnswers_def)

text \<open>
  What \<open>NewClient\<close> returns for a field whose stub returns the results of the node's method: the
  value when there is no error, nil data otherwise.
\<close>

definition methodAnswer :: "nodeVal goMethod \<Rightarrow> probe" where
  "methodAnswer f =
     (case mt_Call f [] of Inr (GVal v # GNil # _) \<Rightarrow> Got (Some v) | _ \<Rightarrow> Got None)"

definition localAnswers :: "nodeVal goMethod list \<Rightarrow> answers8" where
  "localAnswers ms =
     \<lparr>an_listen = methodAnswer (ms ! 0), an_id = methodAnswer (ms ! 1), an_head = methodAnswer (ms ! 2),
      an_miner = methodAnswer (ms ! 7), an_power = methodAnswer (ms ! 3), an_balance = methodAnswer (ms ! 4),
      an_size = methodAnswer (ms ! 5), an_count = methodAnswer (ms ! 6)\<rparr>"

section \<open>The posted document\<close>

text \<open>
  \<open>json.Marshal\<close> of a report: the members in the order of the fields, with the names of the struct
  tags. \<open>omitempty\<close> leaves out empty strings and zero numbers; it has no effect on the two amounts,
  whose type is a struct and whose encoding (\<open>big\<close>) belongs to another package.
\<close>

definition optStr :: "string \<Rightarrow> string \<Rightarrow> (string \<times> json) list" where
  "optStr k s = (if s = '''' then [] else [(k, JStr s)])"

definition optUint :: "string \<Rightarrow> uint64 \<Rightarrow> (string \<times> json) list" where
  "optUint k n = (if n = 0 then [] else [(k, JInt (uint n))])"

definition marshalLotus :: "(int option \<Rightarrow> json) \<Rightarrow> Lotus \<Rightarrow> json" where
  "marshalLotus big l = JObj (
     [(''ip'', JStr (lo_NetAddrsListenData l))] @
     optStr ''nodeId'' (lo_IdData l) @
     optUint ''height'' (lo_ChainHeadData l) @
     optStr ''nodeName'' (lo_MinerData l) @
     [(''provenStorage'', big (lo_StateMinerPowerData l))] @
     [(''money'', big (lo_WalletBalanceData l))] @
     optUint ''sectorSize'' (lo_StateMinerSectorSize l) @
     optStr ''cpu'' (lo_CPU l) @
     optStr ''gpu'' (lo_GPU l) @
     optStr ''mem'' (lo_Mem l))"

text \<open>The documents the rounds of \<open>main\<close> post, until one of them panics.\<close>

fun dashboardPosts :: "(int option \<Rightarrow> json) \<Rightarrow> (answers8 \<times> bool) list \<Rightarrow> Lotus \<Rightarrow> json list" where
  "dashboardPosts big [] l = []"
| "dashboardPosts big ((a, posted) # rounds) l =
     (case dashboardRound a posted l of
        Inl p \<Rightarrow> []
      | Inr l' \<Rightarrow> marshalLotus big l' # dashboardPosts big rounds l')"

text \<open>
  \<open>json.Unmarshal\<close> of a document into a zero report, for documents whose member names are
  exactly the tags: the last member of a name counts, an absent one leaves the zero value, and a
  value of another type or a number out of range is an error.
\<close>

definition getStr :: "(string \<rightharpoonup> json) \<Rightarrow> string \<Rightarrow> string option" where
  "getStr m k = (case m k of None \<Rightarrow> Some '''' | Some JNull \<Rightarrow> Some '''' | Some (JStr s) \<Rightarrow> Some s | _ \<Rightarrow> None)"

definition getUint :: "(string \<rightharpoonup> json) \<Rightarrow> string \<Rightarrow> uint64 option" where
  "getUint m k = (case m k of None \<Rightarrow> Some 0 | Some JNull \<Rightarrow> Some 0
     | Some (JInt n) \<Rightarrow> if 0 \<le> n \<and> n < 2 ^ 64 then Some (word_of_int n) else None | _ \<Rightarrow> None)"

definition getBig :: "(json \<Rightarrow> int option option) \<Rightarrow> (string \<rightharpoonup> json) \<Rightarrow> string \<Rightarrow> int option option" where
  "getBig unbig m k = (case m k of None \<Rightarrow> Some None | Some j \<Rightarrow> unbig j)"

definition unmarshalLotus :: "(json \<Rightarrow> int option option) \<Rightarrow> json \<Rightarrow> Lotus option" where
  "unmarshalLotus unbig j =
     (case j of
        JObj ms \<Rightarrow>
          (let m = map_of (rev ms) in
           Option.bind (getStr m ''ip'') (\<lambda>ip. Option.bind (getStr m ''nodeId'') (\<lambda>i.
           Option.bind (getUint m ''height'') (\<lambda>h. Option.bind (getStr m ''nodeName'') (\<lambda>n.
           Option.bind (getBig unbig m ''provenStorage'') (\<lambda>p. Option.bind (getBig unbig m ''money'') (\<lambda>b.
           Option.bind (getUint m ''sectorSize'') (\<lambda>z. Option.bind (getStr m ''cpu'') (\<lambda>c.
           Option.bind (getStr m ''gpu'') (\<lambda>g. Option.bind (getStr m ''mem'') (\<lambda>e.
             Some \<lparr>lo_NetAddrsListenData = ip, lo_IdData = i, lo_ChainHeadData = h, lo_MinerData = n,
               lo_StateMinerPowerData = p, lo_WalletBalanceData = b, lo_StateMinerSectorSize = z,
               lo_CPU = c, lo_GPU = g, lo_Mem = e\<rparr>)))))))))))
      | _ \<Rightarrow> None)"

lemma map_of_opt [simp]:
  "map_of (optStr k s) x = (if x = k \<and> s \<noteq> '''' then Some (JStr s) else None)"
  "map_of (optUint k n) x = (if x = k \<and> n \<noteq> 0 then Some (JInt (uint n)) else None)"
  "rev (optStr k s) = optStr k s" "rev (optUint k n) = optUint k n"
  by (auto simp: optStr_def optUint_def)

lemma getUint_uint: "m k = (if n = 0 then None else Some (JInt (uint n))) \<Longrightarrow> getUint m k = Some n"
  using uint_bounded [of n] by (auto simp: getUint_def)

lemma getStr_str: "m k = (if s = '''' then None else Some (JStr s)) \<Longrightarrow> getStr m k = Some s"
  by (auto simp: getStr_def)


definition demo_big :: "int option \<Rightarrow> json" where
  "demo_big b = (case b of None \<Rightarrow> JNull | Some n \<Rightarrow> JInt n)"

definition demo_unbig :: "json \<Rightarrow> int option option" where
  "demo_unbig j = (case j of JNull \<Rightarrow> Some None | JInt n \<Rightarrow> Some (Some n) | _ \<Rightarrow> None)"


text \<open>
  C34: the report of the dashboard on the local node. With the node's addresses parsed in order and
  its tip set built, every round of the loop ends with the same report: the host of the second
  address, the node's id, height 51174, the miner, its power and balance, and 49 sectors of 1 GiB
  as \<open>52613349376\<close> bytes; and every round posts the same document, with all ten members.
\<close>

theorem local_node_report:
  assumes "parse nodeAddrs = (a # ''/ip4/192.168.0.10/tcp/12000'' # as) # rest" "newTipSet 51174 = Some 51174"
    and "rounds = replicate (Suc n) (localAnswers (nodeMethods parse newTipSet), True)"
  shows "dashboardRun rounds initialLotus =
    Inr \<lparr>lo_NetAddrsListenData = ''192.168.0.10'',
         lo_IdData = ''12D3KooWH7GXgKS4gshpFrbYQ6UxzHeJxfqz5FyfhCn2RnNjofph'', lo_ChainHeadData = 51174,
         lo_MinerData = ''t06266'', lo_StateMinerPowerData = Some 1000,
         lo_WalletBalanceData = Some 487776486641635185, lo_StateMinerSectorSize = 52613349376,
         lo_CPU = ''24'', lo_GPU = ''INVIDIA 2040'', lo_Mem = ''128''\<rparr> \<and>
    dashboardPosts big rounds initialLotus = replicate (Suc n) (JObj
      [(''ip'', JStr ''192.168.0.10''),
       (''nodeId'', JStr ''12D3KooWH7GXgKS4gshpFrbYQ6UxzHeJxfqz5FyfhCn2RnNjofph''), (''height'', JInt 51174),
       (''nodeName'', JStr ''t06266''), (''provenStorage'', big (Some 1000)),
       (''money'', big (Some 487776486641635185)), (''sectorSize'', JInt 52613349376),
       (''cpu'', JStr ''24''), (''gpu'', JStr ''INVIDIA 2040''), (''mem'', JStr ''128'')])"
proof -
  have ans: "localAnswers (nodeMethods parse newTipSet) = nodeAnswers (a # ''/ip4/192.168.0.10/tcp/12000'' # as) 51174"
    using assms(1,2) by (simp add: localAnswers_def nodeAnswers_def methodAnswer_def nodeMethods_def nodeMethod_def
        NetAddrsListen_def)
  have sp: "split (CHR ''/'') ''/ip4/192.168.0.10/tcp/12000'' = [[], ''ip4'', ''192.168.0.10'', ''tcp'', ''12000'']"
    by code_simp
  have ls: "listenData (Got (Some (AddrInfo (a # ''/ip4/192.168.0.10/tcp/12000'' # as)))) = Inr ''192.168.0.10''"
    by (simp add: listenData_def go_at_def sp)
  have round: "dashboardRound (nodeAnswers (a # ''/ip4/192.168.0.10/tcp/12000'' # as) 51174) True l =
    Inr (l\<lparr>lo_NetAddrsListenData := ''192.168.0.10'',
         lo_IdData := ''12D3KooWH7GXgKS4gshpFrbYQ6UxzHeJxfqz5FyfhCn2RnNjofph'', lo_ChainHeadData := 51174,
         lo_MinerData := ''t06266'', lo_StateMinerPowerData := Some 1000,
         lo_WalletBalanceData := Some 487776486641635185, lo_StateMinerSectorSize := 52613349376\<rparr>)" for l
    by (simp add: dashboardRound_iff minerRound_iff nodeAnswers_def ls chainHeadData_def minerPowerData_def
        balanceData_def the_data_def)
  show ?thesis
    unfolding dashboardRun_def ans assms(3)
    by (induction n) (simp_all add: round initialLotus_def marshalLotus_def optStr_def optUint_def)
qed

theorem local_node_report_witness:
  "\<exists>l d. dashboardRun [(localAnswers (nodeMethods (\<lambda>_. [[''/ip4/127.0.0.1/tcp/12000'', ''/ip4/192.168.0.10/tcp/12000'']]) Some), True)] initialLotus
     = Inr l \<and> lo_StateMinerSectorSize l = 52613349376 \<and>
   dashboardPosts demo_big [(localAnswers (nodeMethods (\<lambda>_. [[''/ip4/127.0.0.1/tcp/12000'', ''/ip4/192.168.0.10/tcp/12000'']]) Some), True)] initialLotus
     = [d]"
  using local_node_report [of "\<lambda>_. [[''/ip4/127.0.0.1/tcp/12000'', ''/ip4/192.168.0.10/tcp/12000'']]"
      "''/ip4/127.0.0.1/tcp/12000''" "[]" "[]" Some _ 0, OF refl _ refl]
  by simp

section \<open>The remaining methods of \<open>SimpleClientHandler\<close>\<close>

text \<open>The four methods with their commands, over the outcome of running a command in the shell.\<close>

definition GetGPU :: "(string \<Rightarrow> commandRun) \<Rightarrow> string" where
  "GetGPU sh = commandLine (sh '' nvidia-smi -L'')"

definition GetCPU :: "(string \<Rightarrow> commandRun) \<Rightarrow> string" where
  "GetCPU sh = commandLine (sh ''cat /proc/cpuinfo |grep \"processor\"|sort -u|wc -l'')"

definition GetMem :: "(string \<Rightarrow> commandRun) \<Rightarrow> string" where
  "GetMem sh = commandLine (sh ''cat /proc/meminfo |grep \"MemTotal\"'')"

definition GetTOKEN :: "(string \<Rightarrow> commandRun) \<Rightarrow> string" where
  "GetTOKEN sh = commandLine (sh ''cat ~/.lotus/token'')"

text \<open>The methods that return no document.\<close>

definition GetIP :: "raw option" where "GetIP = None"
definition GetID :: "raw option" where "GetID = None"
definition GetActorAddress :: "raw option" where "GetActorAddress = None"
definition GetChainHead :: "raw option" where "GetChainHead = None"
definition GetMinerPower :: "raw option" where "GetMinerPower = None"
definition GetWalletBalance :: "raw option" where "GetWalletBalance = None"
definition GetSectorSize :: "raw option" where "GetSectorSize = None"
definition GetSectorCount :: "raw option" where "GetSectorCount = None"
definition GetMinedCount :: "raw option" where "GetMinedCount = None"

text \<open>The headers \<open>main\<close> dials with: \<open>Add\<close> of a canonical name to an \<open>http.Header\<close>.\<close>

definition headerAdd :: "string \<Rightarrow> string \<Rightarrow> (string \<rightharpoonup> string list) \<Rightarrow> (string \<rightharpoonup> string list)" where
  "headerAdd k v h = h(k \<mapsto> (case h k of None \<Rightarrow> [] | Some vs \<Rightarrow> vs) @ [v])"

definition dashboardHeader :: "string \<rightharpoonup> string list" where
  "dashboardHeader = headerAdd ''Content-Type'' ''application/json'' Map.empty"

text \<open>What a command's first line is: at most 4096 characters, none of them a line feed.\<close>

lemma readLine_line:
  assumes "readLine s = Some l"
  shows "length l \<le> 4096 \<and> CHR 0x0A \<notin> set l \<and> (\<exists>r. s = l @ r)"
proof -
  define line where "line = takeWhile (\<lambda>c. c \<noteq> CHR 0x0A) s"
  have nl: "CHR 0x0A \<notin> set line" by (auto simp: line_def dest: set_takeWhileD)
  obtain r where s: "s = line @ r" by (metis line_def takeWhile_dropWhile_id)
  have bl: "butlast xs = take (length xs - 1) xs" for xs :: string by (simp add: butlast_conv_take)
  from assms have "s \<noteq> []" by (auto simp: readLine_def)
  with assms have l: "l = (if length line \<ge> 4096 then
      (let p = take 4096 s in if last p = CHR 0x0D then butlast p else p)
    else if length line < length s \<and> line \<noteq> [] \<and> last line = CHR 0x0D then butlast line else line)"
    unfolding readLine_def line_def Let_def by (auto split: if_splits)
  have "\<exists>k. l = take k line \<and> k \<le> 4096"
  proof (cases "length line \<ge> 4096")
    case True
    then have "take 4096 s = take 4096 line" by (simp add: s)
    then have "l = take 4096 line \<or> l = take 4095 line"
      using l True by (auto simp: Let_def bl min_def)
    then show ?thesis by (auto intro: exI [of _ 4096] exI [of _ 4095])
  next
    case False
    then have "l = take (length line) line \<or> l = take (length line - 1) line" using l by (auto simp: bl)
    with False show ?thesis by (metis diff_le_self le_trans nat_le_linear)
  qed
  then obtain k where k: "l = take k line" "k \<le> 4096" by blast
  then have "s = l @ (drop k line @ r)" using s by simp
  with k nl show ?thesis by (auto dest: in_set_takeD)
qed

section \<open>Runs of the transmitting connection\<close>

fun wcRun :: "wcEvent list \<Rightarrow> webconn \<Rightarrow> webconn flow" where
  "wcRun [] c = Next c"
| "wcRun (ev # evs) c = (case handleConn ev c of Next c' \<Rightarrow> wcRun evs c' | r \<Rightarrow> r)"

fun reports :: "wcEvent list \<Rightarrow> Lotus list" where
  "reports [] = []"
| "reports (WcRequest q ok # evs) = q # reports evs"
| "reports (_ # evs) = reports evs"

lemma wcRun_append: "wcRun (evs @ evs') c = (case wcRun evs c of Next c' \<Rightarrow> wcRun evs' c' | r \<Rightarrow> r)"
  by (induction evs arbitrary: c) (auto split: flow.split)

lemma handleConn_Next:
  assumes "handleConn ev c = Next c'" "\<not> wc_exiting c"
  shows "\<not> wc_exiting c' \<and> ev \<noteq> WcIncoming (Some True) \<and> wc_sent c' = wc_sent c @ reports [ev]"
  using assms by (auto simp: handleConn_def wcSendRequest_def split: wcEvent.splits option.splits if_splits)

text \<open>
  The transmitting connection stops at the first answer. While \<open>exiting\<close> is open, which nothing
  in the package closes, the connection has sent exactly the reports it was given, in order, as long
  as its loop runs; a message of the peer that decodes as a response blocks the loop for ever,
  whatever happens afterwards, a request to stop included.
\<close>

theorem webconn_stops_at_answer:
  assumes "\<not> wc_exiting c" "wcRun evs c = Next c'"
  shows "wc_sent c' = wc_sent c @ reports evs \<and> WcIncoming (Some True) \<notin> set evs \<and>
    wcRun (evs @ WcIncoming (Some True) # evs') c = Block"
proof -
  have "\<not> wc_exiting c' \<and> wc_sent c' = wc_sent c @ reports evs \<and> WcIncoming (Some True) \<notin> set evs"
    using assms
  proof (induction evs arbitrary: c)
    case (Cons ev evs)
    then obtain c1 where c1: "handleConn ev c = Next c1" "wcRun evs c1 = Next c'" by (auto split: flow.splits)
    have "reports (ev # evs) = reports [ev] @ reports evs" by (cases ev) simp_all
    with Cons.IH [OF _ c1(2)] handleConn_Next [OF c1(1) Cons.prems(1)] show ?case by auto
  qed simp
  moreover from this have "handleConn (WcIncoming (Some True)) c' = Block" by (simp add: handleConn_def)
  ultimately show ?thesis using assms(2) by (simp add: wcRun_append)
qed

theorem webconn_stops_at_answer_witness:
  "wcRun ([WcRequest initialLotus True] @ WcIncoming (Some True) # [WcStop])
     \<lparr>wc_exiting = False, wc_err = False, wc_sent = [], wc_closeMsgs = 0\<rparr> = Block"
proof -
  let ?c = "\<lparr>wc_exiting = False, wc_err = False, wc_sent = [], wc_closeMsgs = 0\<rparr>"
  have "wcRun [WcRequest initialLotus True] ?c = Next (?c\<lparr>wc_sent := [initialLotus]\<rparr>)"
    by (simp add: handleConn_def wcSendRequest_def)
  from webconn_stops_at_answer [OF _ this, of "[WcStop]"] show ?thesis by simp
qed

end
