(* ===== verification/Ffi.thy ===== *)
theory Ffi
  imports Prelude "HOL-Library.State_Monad" "HOL-Library.List_Lexorder" "HOL-Library.Multiset"
begin

text \<open>
  The binding to the proofs and signature library (\<open>src/main/extern/filecoin-ffi/proofs.go\<close> and
  \<open>bls.go\<close>). The functions of the C library are arguments of the definitions that call them, as
  functions of the data their pointers lead to; the C heap, which the bindings allocate on, fill and
  free, is explicit.
\<close>

section \<open>Fixed-size byte arrays\<close>

typedef bytes32 = "{bs :: byte list. length bs = 32}"
  morphisms bytes Abs_bytes32
  by (rule exI [of _ "replicate 32 0"]) simp

setup_lifting type_definition_bytes32

lemma length_bytes [simp]: "length (bytes c) = 32"
  using bytes by auto

text \<open>\<open>bytes.Compare\<close>, and the order it gives on the arrays.\<close>

fun bytesCompare :: "byte list \<Rightarrow> byte list \<Rightarrow> int" where
  "bytesCompare [] [] = 0"
| "bytesCompare [] (y # ys) = -1"
| "bytesCompare (x # xs) [] = 1"
| "bytesCompare (x # xs) (y # ys) = (if x < y then -1 else if y < x then 1 else bytesCompare xs ys)"

lemma bytesCompare_less: "bytesCompare xs ys = -1 \<longleftrightarrow> xs < ys"
  by (induction xs ys rule: bytesCompare.induct) (auto simp: not_less_iff_gr_or_eq)

instantiation bytes32 :: linorder
begin

lift_definition less_eq_bytes32 :: "bytes32 \<Rightarrow> bytes32 \<Rightarrow> bool" is "(\<le>)" .

lift_definition less_bytes32 :: "bytes32 \<Rightarrow> bytes32 \<Rightarrow> bool" is "(<)" .

instance
  by standard (transfer; auto)+

end

instantiation bytes32 :: equal
begin

definition equal_bytes32 :: "bytes32 \<Rightarrow> bytes32 \<Rightarrow> bool" where
  "equal_bytes32 a b \<longleftrightarrow> bytes a = bytes b"

instance
  by standard (simp add: equal_bytes32_def bytes_inject)

end

lift_definition zero32 :: bytes32 is "replicate 32 (0 :: byte)" by simp

text \<open>\<open>goCommitment\<close>: 32 bytes read through a C pointer and copied into a zeroed array.\<close>

lift_definition goCommitment :: "byte list \<Rightarrow> bytes32" is "\<lambda>bs :: byte list. take 32 (bs @ replicate 32 0)" by simp

lemma goCommitment_bytes [simp]: "goCommitment (bytes c) = c"
  by transfer simp

section \<open>The C heap\<close>

text \<open>
  A block holds what was copied into it. Blocks are named by the order of their allocation;
  \<open>hp_fault\<close> is set by a use of a pointer that is not allocated: a read after a free, a second free,
  or the destruction of a response at the null pointer.
\<close>

record cPiece =
  cp_num_bytes :: uint64
  cp_comm_p :: "byte list"

record cCandidate =
  cc_sector_id :: uint64
  cc_partial_ticket :: "byte list"
  cc_ticket :: "byte list"
  cc_sector_challenge_index :: uint64

record cReplica =
  cx_cache_dir_path :: nat
  cx_comm_r :: "byte list"
  cx_replica_path :: nat
  cx_sector_id :: uint64

datatype cdata =
    CBytes "byte list"
  | CStr string
  | CUint64s "uint64 list"
  | CPieces "cPiece list"
  | CCandidates "cCandidate list"
  | CReplicas "cReplica list"
  | CResponse

record heap =
  hp_live :: "nat \<rightharpoonup> cdata"
  hp_next :: nat
  hp_fault :: bool

type_synonym 'a c = "(heap, 'a) state"

abbreviation creturn :: "'a \<Rightarrow> 'a c" where
  "creturn \<equiv> State_Monad.return"

definition malloc :: "cdata \<Rightarrow> nat c" where
  "malloc d = State (\<lambda>h. (hp_next h, h\<lparr>hp_live := (hp_live h)(hp_next h \<mapsto> d), hp_next := Suc (hp_next h)\<rparr>))"

definition cfree :: "nat \<Rightarrow> unit c" where
  "cfree p = State (\<lambda>h. ((), if hp_live h p = None then h\<lparr>hp_fault := True\<rparr>
     else h\<lparr>hp_live := (hp_live h)(p := None)\<rparr>))"

definition cload :: "nat \<Rightarrow> cdata option c" where
  "cload p = State (\<lambda>h. (hp_live h p, if hp_live h p = None then h\<lparr>hp_fault := True\<rparr> else h))"

definition cstore :: "nat \<Rightarrow> cdata \<Rightarrow> unit c" where
  "cstore p d = State (\<lambda>h. ((), if hp_live h p = None then h\<lparr>hp_fault := True\<rparr>
     else h\<lparr>hp_live := (hp_live h)(p \<mapsto> d)\<rparr>))"

text \<open>\<open>C.CString\<close> copies a string and appends a NUL; whoever reads a C string stops at the first NUL.\<close>

definition nul :: char where "nul = char_of (0 :: nat)"

definition CString :: "string \<Rightarrow> cdata" where
  "CString s = CStr (s @ [nul])"

definition cstr :: "string \<Rightarrow> string" where
  "cstr s = takeWhile (\<lambda>c. c \<noteq> nul) s"

lemma cstr_id [simp]: "nul \<notin> set s \<Longrightarrow> cstr s = s"
  by (auto simp: cstr_def takeWhile_eq_all_conv)

lemma cstr_terminated [simp]: "cstr (s @ [nul]) = cstr s"
  by (auto simp: cstr_def takeWhile_tail)

text \<open>
  An allocation with its deferred \<open>C.free\<close>, and a response with its deferred destructor. A panic of the
  code in between is a value of its result, so the deferred calls run after a panic too.
\<close>

definition with_alloc :: "cdata \<Rightarrow> (nat \<Rightarrow> 'a c) \<Rightarrow> 'a c" where
  "with_alloc d f = do { p \<leftarrow> malloc d; r \<leftarrow> f p; cfree p; creturn r }"

definition with_response :: "'r \<Rightarrow> ('r \<Rightarrow> 'a) \<Rightarrow> 'a c" where
  "with_response res f = with_alloc CResponse (\<lambda>p. creturn (f res))"

text \<open>
  A response that may be the null pointer (\<open>None\<close>) and whose destructor is deferred before the pointer
  is used: taking the address of a field panics, and the destructor then runs on the null pointer.
\<close>

definition with_response_unchecked :: "'r option \<Rightarrow> ('r \<Rightarrow> 'a) \<Rightarrow> 'a go c" where
  "with_response_unchecked res f =
     (case res of
        None \<Rightarrow> State (\<lambda>h. (Inl NilDereference, h\<lparr>hp_fault := True\<rparr>))
      | Some x \<Rightarrow> with_response x (\<lambda>x. Inr (f x)))"

text \<open>What a C function reads through its pointer arguments.\<close>

fun bytesIn :: "cdata option \<Rightarrow> byte list" where
  "bytesIn (Some (CBytes bs)) = bs"
| "bytesIn _ = []"

fun strIn :: "cdata option \<Rightarrow> string" where
  "strIn (Some (CStr s)) = cstr s"
| "strIn _ = []"

fun uint64sIn :: "cdata option \<Rightarrow> uint64 list" where
  "uint64sIn (Some (CUint64s xs)) = xs"
| "uint64sIn _ = []"

fun piecesIn :: "cdata option \<Rightarrow> cPiece list" where
  "piecesIn (Some (CPieces xs)) = xs"
| "piecesIn _ = []"

fun candidatesIn :: "cdata option \<Rightarrow> cCandidate list" where
  "candidatesIn (Some (CCandidates xs)) = xs"
| "candidatesIn _ = []"

fun replicasIn :: "cdata option \<Rightarrow> cReplica list" where
  "replicasIn (Some (CReplicas xs)) = xs"
| "replicasIn _ = []"

definition read_at :: "(cdata option \<Rightarrow> 'a) \<Rightarrow> nat \<Rightarrow> 'a c" where
  "read_at g p = do { d \<leftarrow> cload p; creturn (g d) }"

section \<open>What a computation does to the heap\<close>

text \<open>
  \<open>leaks n k h h'\<close>: \<open>h'\<close> has, beyond the blocks of \<open>h\<close>, \<open>n\<close> strings and \<open>k\<close> other blocks, allocated since;
  every other block is as it was, and no pointer was misused.
\<close>

definition heap_ok :: "heap \<Rightarrow> bool" where
  "heap_ok h \<longleftrightarrow> (\<forall>p\<ge>hp_next h. hp_live h p = None)"

definition leaks :: "nat \<Rightarrow> nat \<Rightarrow> heap \<Rightarrow> heap \<Rightarrow> bool" where
  "leaks n k h h' \<longleftrightarrow> hp_fault h' = hp_fault h \<and> hp_next h \<le> hp_next h' \<and>
     (\<exists>N M. N \<union> M \<subseteq> {hp_next h..<hp_next h'} \<and> N \<inter> M = {} \<and> card N = n \<and> card M = k \<and>
        (\<forall>p\<in>N. \<exists>s. hp_live h' p = Some (CStr s)) \<and> (\<forall>p\<in>M. hp_live h' p \<noteq> None) \<and>
        (\<forall>p. p \<notin> N \<union> M \<longrightarrow> hp_live h' p = hp_live h p))"

lemma leaksI:
  assumes "N \<union> M \<subseteq> {hp_next h..<hp_next h'}" "N \<inter> M = {}" "card N = n" "card M = k"
    and "\<And>p. p \<in> N \<Longrightarrow> \<exists>s. hp_live h' p = Some (CStr s)" "\<And>p. p \<in> M \<Longrightarrow> hp_live h' p \<noteq> None"
    and "\<And>p. p \<notin> N \<Longrightarrow> p \<notin> M \<Longrightarrow> hp_live h' p = hp_live h p" "hp_fault h' = hp_fault h" "hp_next h \<le> hp_next h'"
  shows "leaks n k h h'"
  unfolding leaks_def using assms by (intro conjI exI [of _ N] exI [of _ M]) simp_all

lemma leaks_refl: "leaks 0 0 h h"
  unfolding leaks_def by (intro conjI exI [of _ "{}"]) auto

lemma leaks_same: "hp_live h' = hp_live h \<Longrightarrow> hp_fault h' = hp_fault h \<Longrightarrow> hp_next h \<le> hp_next h' \<Longrightarrow> leaks 0 0 h h'"
  unfolding leaks_def by (intro conjI exI [of _ "{}"]) auto

lemma leaks_00: "leaks 0 0 h h' \<longleftrightarrow> hp_live h' = hp_live h \<and> hp_fault h' = hp_fault h \<and> hp_next h \<le> hp_next h'"
proof
  assume "leaks 0 0 h h'"
  then obtain N M where nm: "N \<union> M \<subseteq> {hp_next h..<hp_next h'}" "card N = 0" "card M = 0"
    "\<forall>p. p \<notin> N \<union> M \<longrightarrow> hp_live h' p = hp_live h p" "hp_fault h' = hp_fault h" "hp_next h \<le> hp_next h'"
    unfolding leaks_def by auto
  then have "finite N" "finite M" by (auto intro: finite_subset)
  with nm have "N \<union> M = {}" by simp
  with nm show "hp_live h' = hp_live h \<and> hp_fault h' = hp_fault h \<and> hp_next h \<le> hp_next h'" by (simp add: fun_eq_iff)
qed (simp add: leaks_same)

lemma heap_ok_leaks: "heap_ok h \<Longrightarrow> leaks n k h h' \<Longrightarrow> heap_ok h'"
  unfolding heap_ok_def leaks_def by (metis Un_iff atLeastLessThan_iff le_trans not_less subsetD)

lemma leaks_trans:
  assumes "leaks n k h h1" "leaks n' k' h1 h2"
  shows "leaks (n + n') (k + k') h h2"
proof -
  from assms(1) obtain N M where 1: "N \<union> M \<subseteq> {hp_next h..<hp_next h1}" "N \<inter> M = {}" "card N = n" "card M = k"
    "\<forall>p\<in>N. \<exists>s. hp_live h1 p = Some (CStr s)" "\<forall>p\<in>M. hp_live h1 p \<noteq> None"
    "\<forall>p. p \<notin> N \<union> M \<longrightarrow> hp_live h1 p = hp_live h p" "hp_fault h1 = hp_fault h" "hp_next h \<le> hp_next h1"
    unfolding leaks_def by blast
  from assms(2) obtain N' M' where 2: "N' \<union> M' \<subseteq> {hp_next h1..<hp_next h2}" "N' \<inter> M' = {}" "card N' = n'" "card M' = k'"
    "\<forall>p\<in>N'. \<exists>s. hp_live h2 p = Some (CStr s)" "\<forall>p\<in>M'. hp_live h2 p \<noteq> None"
    "\<forall>p. p \<notin> N' \<union> M' \<longrightarrow> hp_live h2 p = hp_live h1 p" "hp_fault h2 = hp_fault h1" "hp_next h1 \<le> hp_next h2"
    unfolding leaks_def by blast
  have fin: "finite N" "finite M" "finite N'" "finite M'" using 1(1) 2(1) by (auto intro: finite_subset)
  have dis: "(N \<union> M) \<inter> (N' \<union> M') = {}" using 1(1) 2(1) by fastforce
  show ?thesis
  proof (rule leaksI [of "N \<union> N'" "M \<union> M'"])
    show "N \<union> N' \<union> (M \<union> M') \<subseteq> {hp_next h..<hp_next h2}" using 1(1,9) 2(1,9) by fastforce
    show "(N \<union> N') \<inter> (M \<union> M') = {}" using dis 1(2) 2(2) by blast
    show "card (N \<union> N') = n + n'" "card (M \<union> M') = k + k'"
      using fin dis 1(3,4) 2(3,4) by (auto intro!: card_Un_disjoint [THEN trans])
    fix p
    show "\<exists>s. hp_live h2 p = Some (CStr s)" if "p \<in> N \<union> N'"
      using that dis 1(5) 2(5,7) by (metis Int_iff Un_iff empty_iff)
    show "hp_live h2 p \<noteq> None" if "p \<in> M \<union> M'"
      using that dis 1(6) 2(6,7) by (metis Int_iff Un_iff empty_iff)
    show "hp_live h2 p = hp_live h p" if "p \<notin> N \<union> N'" "p \<notin> M \<union> M'" using that 1(7) 2(7) by simp
  qed (use 1(8,9) 2(8,9) in simp_all)
qed

text \<open>
  \<open>does L m r n k\<close>: on every heap that has the blocks \<open>L\<close>, the computation returns \<open>r\<close> and leaks \<open>n\<close> strings
  and \<open>k\<close> other blocks. The rules follow the combinators, so that one pass over a binding gives its
  result and its effect on the heap.
\<close>

named_theorems does_intros

definition does :: "(nat \<rightharpoonup> cdata) \<Rightarrow> 'a c \<Rightarrow> 'a \<Rightarrow> nat \<Rightarrow> nat \<Rightarrow> bool" where
  "does L m r n k \<longleftrightarrow> (\<forall>h. heap_ok h \<and> L \<subseteq>\<^sub>m hp_live h \<longrightarrow>
     (\<exists>h'. run_state m h = (r, h') \<and> leaks n k h h'))"

definition fresh :: "(nat \<rightharpoonup> cdata) \<Rightarrow> nat \<Rightarrow> bool" where
  "fresh L p \<longleftrightarrow> L p = None"

lemma fresh_simps [simp]:
  "fresh Map.empty p" "fresh (L(q \<mapsto> d)) p \<longleftrightarrow> q \<noteq> p \<and> fresh L p"
  by (auto simp: fresh_def)

lemma fresh_next: "heap_ok h \<Longrightarrow> L \<subseteq>\<^sub>m hp_live h \<Longrightarrow> fresh L (hp_next h)"
  unfolding fresh_def by (metis domIff heap_ok_def map_le_def order_refl)

lemma doesD:
  assumes "does L m r n k" "heap_ok h" "L \<subseteq>\<^sub>m hp_live h"
  obtains h' where "run_state m h = (r, h')" "leaks n k h h'"
  using assms unfolding does_def by blast

lemma does_empty:
  assumes "does Map.empty m r n k" "heap_ok h"
  shows "fst (run_state m h) = r" "leaks n k h (snd (run_state m h))"
proof -
  obtain h' where "run_state m h = (r, h')" "leaks n k h h'" by (rule doesD [OF assms]) (simp add: map_le_def)
  then show "fst (run_state m h) = r" "leaks n k h (snd (run_state m h))" by simp_all
qed

lemma does_return [does_intros]: "x = r \<Longrightarrow> n = 0 \<Longrightarrow> k = 0 \<Longrightarrow> does L (creturn x) r n k"
  by (simp add: does_def leaks_refl)

lemma does_read [does_intros]:
  assumes "L p \<noteq> None" "does L (f (g (L p))) r n k"
  shows "does L (read_at g p \<bind> f) r n k"
  unfolding does_def
proof (intro allI impI)
  fix h assume h: "heap_ok h \<and> L \<subseteq>\<^sub>m hp_live h"
  with assms(1) obtain d where "L p = Some d" "hp_live h p = Some d" by (metis domI map_le_def not_None_eq)
  with h assms show "\<exists>h'. run_state (read_at g p \<bind> f) h = (r, h') \<and> leaks n k h h'"
    unfolding does_def by (simp add: read_at_def cload_def)
qed

text \<open>A block allocated first and freed last.\<close>

lemma leaks_freed:
  assumes "heap_ok h" "leaks n k (h\<lparr>hp_live := (hp_live h)(hp_next h \<mapsto> d), hp_next := Suc (hp_next h)\<rparr>) h2"
  shows "\<exists>h'. run_state (cfree (hp_next h)) h2 = ((), h') \<and> leaks n k h h'"
proof -
  let ?p = "hp_next h" and ?h1 = "h\<lparr>hp_live := (hp_live h)(hp_next h \<mapsto> d), hp_next := Suc (hp_next h)\<rparr>"
  let ?h' = "h2\<lparr>hp_live := (hp_live h2)(?p := None)\<rparr>"
  from assms(2) obtain N M where 2: "N \<union> M \<subseteq> {Suc ?p..<hp_next h2}" "N \<inter> M = {}" "card N = n" "card M = k"
    "\<forall>p\<in>N. \<exists>s. hp_live h2 p = Some (CStr s)" "\<forall>p\<in>M. hp_live h2 p \<noteq> None"
    "\<forall>p. p \<notin> N \<union> M \<longrightarrow> hp_live h2 p = ((hp_live h)(?p \<mapsto> d)) p" "hp_fault h2 = hp_fault h" "Suc ?p \<le> hp_next h2"
    unfolding leaks_def by auto
  have out: "?p \<notin> N \<union> M" using 2(1) by auto
  have "hp_live h ?p = None" using assms(1) by (simp add: heap_ok_def)
  moreover have "\<forall>p\<in>N. p \<noteq> ?p" "\<forall>p\<in>M. p \<noteq> ?p" using out by auto
  ultimately have "leaks n k h ?h'"
    using 2 by (intro leaksI [of N M]) auto
  moreover have "hp_live h2 ?p \<noteq> None" using 2(7) out by simp
  ultimately show ?thesis by (auto simp: cfree_def)
qed

lemma does_alloc [does_intros]:
  assumes "\<And>p. fresh L p \<Longrightarrow> does (L(p \<mapsto> d)) (f p) r n k"
  shows "does L (with_alloc d f) r n k"
  unfolding does_def
proof (intro allI impI)
  fix h assume h: "heap_ok h \<and> L \<subseteq>\<^sub>m hp_live h"
  let ?p = "hp_next h" and ?h1 = "h\<lparr>hp_live := (hp_live h)(hp_next h \<mapsto> d), hp_next := Suc (hp_next h)\<rparr>"
  have new: "fresh L ?p" using h by (simp add: fresh_next)
  have "heap_ok ?h1" "L(?p \<mapsto> d) \<subseteq>\<^sub>m hp_live ?h1" using h by (auto simp: heap_ok_def map_le_def)
  with assms [OF new] obtain h2 where h2: "run_state (f ?p) ?h1 = (r, h2)" "leaks n k ?h1 h2" by (blast elim: doesD)
  with h leaks_freed [of h n k d h2] show "\<exists>h'. run_state (with_alloc d f) h = (r, h') \<and> leaks n k h h'"
    by (auto simp: with_alloc_def malloc_def)
qed

lemma does_response [does_intros]:
  "f res = r \<Longrightarrow> n = 0 \<Longrightarrow> k = 0 \<Longrightarrow> does L (with_response res f) r n k"
  unfolding with_response_def by (intro does_intros)

lemma does_option [does_intros]:
  "(x = None \<Longrightarrow> does L a r n k) \<Longrightarrow> (\<And>y. x = Some y \<Longrightarrow> does L (b y) r n k) \<Longrightarrow>
   does L (case x of None \<Rightarrow> a | Some y \<Rightarrow> b y) r n k"
  by (cases x) auto

section \<open>Data of the bindings\<close>

record PublicSectorInfo =
  pub_SectorID :: uint64
  pub_CommR :: bytes32

record PrivateSectorInfo =
  prv_SectorID :: uint64
  prv_CommR :: bytes32
  prv_CacheDirPath :: string
  prv_SealedSectorPath :: string

record Candidate =
  cd_SectorID :: uint64
  cd_PartialTicket :: bytes32
  cd_Ticket :: bytes32
  cd_SectorChallengeIndex :: uint64

record PublicPieceInfo =
  pi_Size :: uint64
  pi_CommP :: bytes32

record RawSealPreCommitOutput =
  rs_CommD :: bytes32
  rs_CommR :: bytes32

record cSealPreCommit =
  sp_comm_d :: "byte list"
  sp_comm_r :: "byte list"

type_synonym sectorClass = "uint64 \<times> byte"

text \<open>A response of the C library: a status, the text of an error, and the result.\<close>

record 'p cResponse =
  cr_status_code :: "32 word"
  cr_error_msg :: string
  cr_payload :: 'p

definition checked :: "'p cResponse \<Rightarrow> ('p \<Rightarrow> 'a go) \<Rightarrow> (string + 'a) go" where
  "checked res f =
     (if cr_status_code res \<noteq> 0 then Inr (Inl (cstr (cr_error_msg res)))
      else gbind (f (cr_payload res)) (\<lambda>x. Inr (Inr x)))"

section \<open>Conversions\<close>

definition cSectorClass :: "uint64 \<Rightarrow> byte \<Rightarrow> sectorClass" where
  "cSectorClass sectorSize poRepProofPartitions = (sectorSize, poRepProofPartitions)"

definition cSealPreCommitOutput :: "RawSealPreCommitOutput \<Rightarrow> cSealPreCommit" where
  "cSealPreCommitOutput src = \<lparr>sp_comm_d = bytes (rs_CommD src), sp_comm_r = bytes (rs_CommR src)\<rparr>"

definition goRawSealPreCommitOutput :: "cSealPreCommit \<Rightarrow> RawSealPreCommitOutput" where
  "goRawSealPreCommitOutput src =
     \<lparr>rs_CommD = goCommitment (sp_comm_d src), rs_CommR = goCommitment (sp_comm_r src)\<rparr>"

definition size_t :: "'a list \<Rightarrow> uint64" where
  "size_t xs = word_of_nat (length xs)"

text \<open>
  Arrays in the C heap are filled through a pointer to a Go array of \<open>1 << 30\<close> elements: the entry
  beyond it panics, after the block was allocated and before its release is deferred.
\<close>

definition cArrayMax :: nat where "cArrayMax = 2 ^ 30"

definition over :: "'a list \<Rightarrow> bool" where
  "over xs \<longleftrightarrow> cArrayMax < length xs"

lemma over_map [simp]: "over (map f xs) = over xs"
  by (simp add: over_def)

lemma size_t_map [simp]: "size_t (map f xs) = size_t xs"
  by (simp add: size_t_def)

definition cArray :: "('b list \<Rightarrow> cdata) \<Rightarrow> 'b list \<Rightarrow> (nat \<times> uint64) go c" where
  "cArray con xs = do {
     p \<leftarrow> malloc (con (take cArrayMax xs));
     creturn (if over xs then Inl IndexOutOfRange else Inr (p, size_t xs)) }"

definition cPublicPieceInfo :: "PublicPieceInfo list \<Rightarrow> (nat \<times> uint64) go c" where
  "cPublicPieceInfo src =
     cArray CPieces (map (\<lambda>v. \<lparr>cp_num_bytes = pi_Size v, cp_comm_p = bytes (pi_CommP v)\<rparr>) src)"

definition cUint64s :: "uint64 list \<Rightarrow> (nat \<times> uint64) go c" where
  "cUint64s src = cArray CUint64s src"

definition cCandidate_of :: "Candidate \<Rightarrow> cCandidate" where
  "cCandidate_of v = \<lparr>cc_sector_id = cd_SectorID v, cc_partial_ticket = bytes (cd_PartialTicket v),
     cc_ticket = bytes (cd_Ticket v), cc_sector_challenge_index = cd_SectorChallengeIndex v\<rparr>"

definition cCandidates :: "Candidate list \<Rightarrow> (nat \<times> uint64) go c" where
  "cCandidates src = cArray CCandidates (map cCandidate_of src)"

text \<open>An array obtained in this way, with its deferred \<open>C.free\<close>.\<close>

definition with_array :: "(nat \<times> uint64) go c \<Rightarrow> (nat \<Rightarrow> uint64 \<Rightarrow> 'a go c) \<Rightarrow> 'a go c" where
  "with_array m f = m \<bind> (\<lambda>r.
     case r of
       Inl e \<Rightarrow> creturn (Inl e)
     | Inr (p, n) \<Rightarrow> do { x \<leftarrow> f p n; cfree p; creturn x })"

definition goCandidate :: "cCandidate \<Rightarrow> Candidate" where
  "goCandidate src = \<lparr>cd_SectorID = cc_sector_id src, cd_PartialTicket = goCommitment (cc_partial_ticket src),
     cd_Ticket = goCommitment (cc_ticket src), cd_SectorChallengeIndex = cc_sector_challenge_index src\<rparr>"

definition zeroCandidate :: Candidate where
  "zeroCandidate = \<lparr>cd_SectorID = 0, cd_PartialTicket = zero32, cd_Ticket = zero32, cd_SectorChallengeIndex = 0\<rparr>"

text \<open>
  The array behind a C pointer (\<open>None\<close>: the nil pointer) with the size that came with it. \<open>make\<close>
  refuses more than \<open>2^48\<close> bytes (a candidate has 80), and a slice of the Go array more than \<open>1 << 30\<close>
  elements.
\<close>

definition goCandidates :: "cCandidate list option \<Rightarrow> uint64 \<Rightarrow> Candidate list go" where
  "goCandidates src n =
     (if 2 ^ 48 div 80 < unat n then Inl InvalidCount
      else case src of
        None \<Rightarrow> Inr (replicate (unat n) zeroCandidate)
      | Some xs \<Rightarrow>
          if n = 0 then Inr []
          else if cArrayMax < unat n then Inl IndexOutOfRange
          else Inr (map goCandidate (take (unat n) xs)))"

text \<open>\<open>C.GoBytes\<close> takes the length as a C \<open>int\<close>; a negative one is refused by the run-time system.\<close>

definition goBytes :: "byte list \<Rightarrow> uint64 \<Rightarrow> byte list go" where
  "goBytes src n =
     (let k = sint (ucast n :: 32 word) in if k < 0 then Inl InvalidCount else Inr (take (nat k) src))"

text \<open>The loops that copy fixed-size arrays one after the other into one slice.\<close>

definition copyAt :: "byte list \<Rightarrow> nat \<Rightarrow> byte list \<Rightarrow> byte list" where
  "copyAt dst k src = take k dst @ src @ drop (k + length src) dst"

definition flatten :: "nat \<Rightarrow> byte list list \<Rightarrow> byte list" where
  "flatten w arrs = foldl (\<lambda>dst i. copyAt dst (w * i) (take w (arrs ! i)))
     (replicate (w * length arrs) 0) [0..<length arrs]"

lemma flatten_prefix:
  assumes "\<forall>a\<in>set arrs. length a = w" "k \<le> length arrs"
  shows "foldl (\<lambda>dst i. copyAt dst (w * i) (take w (arrs ! i))) (replicate (w * length arrs) 0) [0..<k] =
    concat (take k arrs) @ replicate (w * (length arrs - k)) 0"
  using assms(2)
proof (induction k)
  case (Suc k)
  have len: "length (concat (take k arrs)) = w * k"
    using assms(1) Suc.prems by (induction k) (auto simp: take_Suc_conv_app_nth)
  have w: "length (arrs ! k) = w" using assms(1) Suc.prems by simp
  have "w * (length arrs - k) = w + w * (length arrs - Suc k)"
    using Suc.prems by (metis Suc_diff_Suc Suc_le_lessD mult_Suc_right)
  then show ?case
    using Suc len w by (simp add: copyAt_def take_Suc_conv_app_nth)
qed simp

lemma flatten_concat: "\<forall>a\<in>set arrs. length a = w \<Longrightarrow> flatten w arrs = concat arrs"
  using flatten_prefix [of arrs w "length arrs"] by (simp add: flatten_def)

text \<open>
  The private replicas: an array in the C heap, with two strings for each entry. The strings of
  the entry that does not fit are allocated before the assignment panics.
\<close>

fun cReplicaList :: "PrivateSectorInfo list \<Rightarrow> cReplica list c" where
  "cReplicaList [] = creturn []"
| "cReplicaList (v # vs) = do {
     cache \<leftarrow> malloc (CString (prv_CacheDirPath v));
     path \<leftarrow> malloc (CString (prv_SealedSectorPath v));
     xs \<leftarrow> cReplicaList vs;
     creturn (\<lparr>cx_cache_dir_path = cache, cx_comm_r = bytes (prv_CommR v), cx_replica_path = path,
        cx_sector_id = prv_SectorID v\<rparr> # xs) }"

definition cPrivateReplicaInfos :: "PrivateSectorInfo list \<Rightarrow> (nat \<times> uint64) go c" where
  "cPrivateReplicaInfos src = do {
     p \<leftarrow> malloc (CReplicas []);
     xs \<leftarrow> cReplicaList (take (Suc cArrayMax) src);
     cstore p (CReplicas (take cArrayMax xs));
     creturn (if over src then Inl IndexOutOfRange else Inr (p, size_t src)) }"

text \<open>What the C library finds behind the array: the entries with their strings.\<close>

type_synonym replica = "string \<times> byte list \<times> string \<times> uint64"

fun readReplicas :: "cReplica list \<Rightarrow> replica list c" where
  "readReplicas [] = creturn []"
| "readReplicas (x # xs) = do {
     cache \<leftarrow> read_at strIn (cx_cache_dir_path x);
     path \<leftarrow> read_at strIn (cx_replica_path x);
     rs \<leftarrow> readReplicas xs;
     creturn ((cache, cx_comm_r x, path, cx_sector_id x) # rs) }"

definition replicas_at :: "nat \<Rightarrow> replica list c" where
  "replicas_at p = do { xs \<leftarrow> read_at replicasIn p; readReplicas xs }"

section \<open>Proof bindings (\<open>proofs.go\<close>)\<close>

definition VerifySeal ::
  "(uint64 \<Rightarrow> byte list \<Rightarrow> byte list \<Rightarrow> byte list \<Rightarrow> byte list \<Rightarrow> byte list \<Rightarrow> uint64 \<Rightarrow> byte list \<Rightarrow> uint64
      \<Rightarrow> bool cResponse)
    \<Rightarrow> uint64 \<Rightarrow> bytes32 \<Rightarrow> bytes32 \<Rightarrow> bytes32 \<Rightarrow> bytes32 \<Rightarrow> bytes32 \<Rightarrow> uint64 \<Rightarrow> byte list \<Rightarrow> (string + bool) go c" where
  "VerifySeal verify_seal sectorSize commR commD proverID ticket seed sectorID proof =
     with_alloc (CBytes (bytes commD)) (\<lambda>commDC.
     with_alloc (CBytes (bytes commR)) (\<lambda>commRC.
     with_alloc (CBytes proof) (\<lambda>proofC.
     with_alloc (CBytes (bytes proverID)) (\<lambda>proverIDC.
     with_alloc (CBytes (bytes ticket)) (\<lambda>ticketC.
     with_alloc (CBytes (bytes seed)) (\<lambda>seedC. do {
       r \<leftarrow> read_at bytesIn commRC; d \<leftarrow> read_at bytesIn commDC; i \<leftarrow> read_at bytesIn proverIDC;
       t \<leftarrow> read_at bytesIn ticketC; s \<leftarrow> read_at bytesIn seedC; pf \<leftarrow> read_at bytesIn proofC;
       with_response (verify_seal sectorSize r d i t s sectorID pf (size_t proof))
         (\<lambda>res. checked res Inr) }))))))"

definition VerifyPoSt ::
  "(uint64 \<Rightarrow> byte list \<Rightarrow> uint64 \<Rightarrow> uint64 list \<Rightarrow> uint64 \<Rightarrow> byte list \<Rightarrow> uint64 \<Rightarrow> byte list \<Rightarrow> uint64
      \<Rightarrow> cCandidate list \<Rightarrow> uint64 \<Rightarrow> byte list \<Rightarrow> bool cResponse)
    \<Rightarrow> uint64 \<Rightarrow> PublicSectorInfo list \<Rightarrow> bytes32 \<Rightarrow> uint64 \<Rightarrow> byte list \<Rightarrow> Candidate list \<Rightarrow> bytes32
    \<Rightarrow> (string + bool) go c" where
  "VerifyPoSt verify_post sectorSize sectorInfo randomness challengeCount proof winners proverID =
     (let sortedCommRs = map (\<lambda>v. bytes (pub_CommR v)) sectorInfo;
          sortedSectorIds = map pub_SectorID sectorInfo;
          flattened = flatten 32 sortedCommRs in
     with_alloc (CBytes flattened) (\<lambda>commRsC.
     with_alloc (CBytes (bytes randomness)) (\<lambda>randomnessC.
     with_alloc (CBytes proof) (\<lambda>proofC.
     with_array (cUint64s sortedSectorIds) (\<lambda>idsC idsSize.
     with_array (cCandidates winners) (\<lambda>winnersC winnersSize.
     with_alloc (CBytes (bytes proverID)) (\<lambda>proverIDC. do {
       r \<leftarrow> read_at bytesIn randomnessC; is \<leftarrow> read_at uint64sIn idsC; cs \<leftarrow> read_at bytesIn commRsC; pf \<leftarrow> read_at bytesIn proofC;
       ws \<leftarrow> read_at candidatesIn winnersC; i \<leftarrow> read_at bytesIn proverIDC;
       with_response (verify_post sectorSize r challengeCount is idsSize cs
           (size_t flattened) pf (size_t proof) ws winnersSize i)
         (\<lambda>res. checked res Inr) })))))))"

definition GetMaxUserBytesPerStagedSector :: "(uint64 \<Rightarrow> uint64) \<Rightarrow> uint64 \<Rightarrow> uint64" where
  "GetMaxUserBytesPerStagedSector get_max sectorSize = get_max sectorSize"

definition GenerateDataCommitment ::
  "(uint64 \<Rightarrow> cPiece list \<Rightarrow> uint64 \<Rightarrow> byte list cResponse) \<Rightarrow> uint64 \<Rightarrow> PublicPieceInfo list
    \<Rightarrow> (string + bytes32) go c" where
  "GenerateDataCommitment generate_data_commitment sectorSize pieces =
     with_array (cPublicPieceInfo pieces) (\<lambda>piecesC piecesLen. do {
       ps \<leftarrow> read_at piecesIn piecesC;
       with_response (generate_data_commitment sectorSize ps piecesLen)
         (\<lambda>res. checked res (\<lambda>c. Inr (goCommitment c))) })"

text \<open>A file is its descriptor; \<open>os.Open\<close> gives one or the text of an error.\<close>

definition GeneratePieceCommitmentFromFile ::
  "(32 word \<Rightarrow> uint64 \<Rightarrow> byte list cResponse) \<Rightarrow> uint64 \<Rightarrow> uint64 \<Rightarrow> (string + bytes32) go c" where
  "GeneratePieceCommitmentFromFile generate_piece_commitment pieceFd pieceSize =
     with_response (generate_piece_commitment (ucast pieceFd) pieceSize) (\<lambda>res. checked res (\<lambda>c. Inr (goCommitment c)))"

definition GeneratePieceCommitment ::
  "(string \<Rightarrow> string + uint64) \<Rightarrow> (32 word \<Rightarrow> uint64 \<Rightarrow> byte list cResponse) \<Rightarrow> string \<Rightarrow> uint64
    \<Rightarrow> (string + bytes32) go c" where
  "GeneratePieceCommitment os_open generate_piece_commitment piecePath pieceSize =
     (case os_open piecePath of
        Inl e \<Rightarrow> creturn (Inr (Inl e))
      | Inr fd \<Rightarrow> GeneratePieceCommitmentFromFile generate_piece_commitment fd pieceSize)"

definition WriteWithAlignment ::
  "(32 word \<Rightarrow> uint64 \<Rightarrow> 32 word \<Rightarrow> uint64 list \<Rightarrow> uint64 \<Rightarrow> (uint64 \<times> uint64 \<times> byte list) cResponse)
    \<Rightarrow> uint64 \<Rightarrow> uint64 \<Rightarrow> uint64 \<Rightarrow> uint64 list \<Rightarrow> (string + uint64 \<times> uint64 \<times> bytes32) go c" where
  "WriteWithAlignment write_with_alignment pieceFd pieceBytes stagedSectorFd existingPieceSizes =
     with_array (cUint64s existingPieceSizes) (\<lambda>ptr len. do {
       xs \<leftarrow> read_at uint64sIn ptr;
       with_response (write_with_alignment (ucast pieceFd) pieceBytes (ucast stagedSectorFd) xs
           len)
         (\<lambda>res. checked res (\<lambda>(left, total, commP). Inr (left, total, goCommitment commP))) })"

definition WriteWithoutAlignment ::
  "(32 word \<Rightarrow> uint64 \<Rightarrow> 32 word \<Rightarrow> (uint64 \<times> byte list) cResponse) \<Rightarrow> uint64 \<Rightarrow> uint64 \<Rightarrow> uint64
    \<Rightarrow> (string + uint64 \<times> bytes32) go c" where
  "WriteWithoutAlignment write_without_alignment pieceFd pieceBytes stagedSectorFd =
     with_response (write_without_alignment (ucast pieceFd) pieceBytes (ucast stagedSectorFd))
       (\<lambda>res. checked res (\<lambda>(total, commP). Inr (total, goCommitment commP)))"

definition SealPreCommit ::
  "(sectorClass \<Rightarrow> string \<Rightarrow> string \<Rightarrow> string \<Rightarrow> uint64 \<Rightarrow> byte list \<Rightarrow> byte list \<Rightarrow> cPiece list \<Rightarrow> uint64
      \<Rightarrow> cSealPreCommit cResponse)
    \<Rightarrow> uint64 \<Rightarrow> byte \<Rightarrow> string \<Rightarrow> string \<Rightarrow> string \<Rightarrow> uint64 \<Rightarrow> bytes32 \<Rightarrow> bytes32 \<Rightarrow> PublicPieceInfo list
    \<Rightarrow> (string + RawSealPreCommitOutput) go c" where
  "SealPreCommit seal_pre_commit sectorSize partitions cacheDirPath stagedSectorPath sealedSectorPath
       sectorID proverID ticket pieces =
     with_alloc (CString cacheDirPath) (\<lambda>cacheC.
     with_alloc (CString stagedSectorPath) (\<lambda>stagedC.
     with_alloc (CString sealedSectorPath) (\<lambda>sealedC.
     with_alloc (CBytes (bytes proverID)) (\<lambda>proverIDC.
     with_alloc (CBytes (bytes ticket)) (\<lambda>ticketC.
     with_array (cPublicPieceInfo pieces) (\<lambda>piecesC piecesLen. do {
       a \<leftarrow> read_at strIn cacheC; b \<leftarrow> read_at strIn stagedC; s \<leftarrow> read_at strIn sealedC;
       i \<leftarrow> read_at bytesIn proverIDC; t \<leftarrow> read_at bytesIn ticketC; ps \<leftarrow> read_at piecesIn piecesC;
       with_response (seal_pre_commit (cSectorClass sectorSize partitions) a b s sectorID i t ps
           piecesLen)
         (\<lambda>res. checked res (\<lambda>x. Inr (goRawSealPreCommitOutput x))) }))))))"

definition SealCommit ::
  "(sectorClass \<Rightarrow> string \<Rightarrow> uint64 \<Rightarrow> byte list \<Rightarrow> byte list \<Rightarrow> byte list \<Rightarrow> cPiece list \<Rightarrow> uint64
      \<Rightarrow> cSealPreCommit \<Rightarrow> (byte list \<times> uint64) cResponse)
    \<Rightarrow> uint64 \<Rightarrow> byte \<Rightarrow> string \<Rightarrow> uint64 \<Rightarrow> bytes32 \<Rightarrow> bytes32 \<Rightarrow> bytes32 \<Rightarrow> PublicPieceInfo list
    \<Rightarrow> RawSealPreCommitOutput \<Rightarrow> (string + byte list) go c" where
  "SealCommit seal_commit sectorSize partitions cacheDirPath sectorID proverID ticket seed pieces rspco =
     with_alloc (CString cacheDirPath) (\<lambda>cacheC.
     with_alloc (CBytes (bytes proverID)) (\<lambda>proverIDC.
     with_alloc (CBytes (bytes ticket)) (\<lambda>ticketC.
     with_alloc (CBytes (bytes seed)) (\<lambda>seedC.
     with_array (cPublicPieceInfo pieces) (\<lambda>piecesC piecesLen. do {
       a \<leftarrow> read_at strIn cacheC; i \<leftarrow> read_at bytesIn proverIDC; t \<leftarrow> read_at bytesIn ticketC; s \<leftarrow> read_at bytesIn seedC;
       ps \<leftarrow> read_at piecesIn piecesC;
       with_response (seal_commit (cSectorClass sectorSize partitions) a sectorID i t s ps
           piecesLen (cSealPreCommitOutput rspco))
         (\<lambda>res. checked res (\<lambda>(proof, len). goBytes proof len)) })))))"

definition Unseal ::
  "(sectorClass \<Rightarrow> string \<Rightarrow> string \<Rightarrow> string \<Rightarrow> uint64 \<Rightarrow> byte list \<Rightarrow> byte list \<Rightarrow> byte list \<Rightarrow> unit cResponse)
    \<Rightarrow> uint64 \<Rightarrow> byte \<Rightarrow> string \<Rightarrow> string \<Rightarrow> string \<Rightarrow> uint64 \<Rightarrow> bytes32 \<Rightarrow> bytes32 \<Rightarrow> bytes32
    \<Rightarrow> (string + unit) go c" where
  "Unseal unseal sectorSize partitions cacheDirPath sealedSectorPath unsealOutputPath sectorID proverID
       ticket commD =
     with_alloc (CString cacheDirPath) (\<lambda>cacheC.
     with_alloc (CString sealedSectorPath) (\<lambda>sealedC.
     with_alloc (CString unsealOutputPath) (\<lambda>outC.
     with_alloc (CBytes (bytes proverID)) (\<lambda>proverIDC.
     with_alloc (CBytes (bytes ticket)) (\<lambda>ticketC.
     with_alloc (CBytes (bytes commD)) (\<lambda>commDC. do {
       a \<leftarrow> read_at strIn cacheC; s \<leftarrow> read_at strIn sealedC; u \<leftarrow> read_at strIn outC;
       i \<leftarrow> read_at bytesIn proverIDC; t \<leftarrow> read_at bytesIn ticketC; d \<leftarrow> read_at bytesIn commDC;
       with_response (unseal (cSectorClass sectorSize partitions) a s u sectorID i t d)
         (\<lambda>res. checked res Inr) }))))))"

definition UnsealRange ::
  "(sectorClass \<Rightarrow> string \<Rightarrow> string \<Rightarrow> string \<Rightarrow> uint64 \<Rightarrow> byte list \<Rightarrow> byte list \<Rightarrow> byte list \<Rightarrow> uint64 \<Rightarrow> uint64
      \<Rightarrow> unit cResponse)
    \<Rightarrow> uint64 \<Rightarrow> byte \<Rightarrow> string \<Rightarrow> string \<Rightarrow> string \<Rightarrow> uint64 \<Rightarrow> bytes32 \<Rightarrow> bytes32 \<Rightarrow> bytes32 \<Rightarrow> uint64 \<Rightarrow> uint64
    \<Rightarrow> (string + unit) go c" where
  "UnsealRange unseal_range sectorSize partitions cacheDirPath sealedSectorPath unsealOutputPath sectorID
       proverID ticket commD off len =
     with_alloc (CString cacheDirPath) (\<lambda>cacheC.
     with_alloc (CString sealedSectorPath) (\<lambda>sealedC.
     with_alloc (CString unsealOutputPath) (\<lambda>outC.
     with_alloc (CBytes (bytes proverID)) (\<lambda>proverIDC.
     with_alloc (CBytes (bytes ticket)) (\<lambda>ticketC.
     with_alloc (CBytes (bytes commD)) (\<lambda>commDC. do {
       a \<leftarrow> read_at strIn cacheC; s \<leftarrow> read_at strIn sealedC; u \<leftarrow> read_at strIn outC;
       i \<leftarrow> read_at bytesIn proverIDC; t \<leftarrow> read_at bytesIn ticketC; d \<leftarrow> read_at bytesIn commDC;
       with_response (unseal_range (cSectorClass sectorSize partitions) a s u sectorID i t d off len)
         (\<lambda>res. checked res Inr) }))))))"

text \<open>\<open>FinalizeTicket\<close> passes a pointer into Go memory and allocates nothing but the response.\<close>

definition FinalizeTicket :: "(byte list \<Rightarrow> byte list cResponse) \<Rightarrow> bytes32 \<Rightarrow> (string + bytes32) go c" where
  "FinalizeTicket finalize_ticket partialTicket =
     with_response (finalize_ticket (bytes partialTicket)) (\<lambda>res. checked res (\<lambda>c. Inr (goCommitment c)))"

definition GenerateCandidates ::
  "(uint64 \<Rightarrow> byte list \<Rightarrow> uint64 \<Rightarrow> replica list \<Rightarrow> uint64 \<Rightarrow> byte list
      \<Rightarrow> (cCandidate list option \<times> uint64) cResponse)
    \<Rightarrow> uint64 \<Rightarrow> bytes32 \<Rightarrow> bytes32 \<Rightarrow> uint64 \<Rightarrow> PrivateSectorInfo list \<Rightarrow> (string + Candidate list) go c" where
  "GenerateCandidates generate_candidates sectorSize proverID randomness challengeCount privateSectorInfo =
     with_alloc (CBytes (bytes randomness)) (\<lambda>randomnessC.
     with_alloc (CBytes (bytes proverID)) (\<lambda>proverIDC.
     with_array (cPrivateReplicaInfos privateSectorInfo) (\<lambda>replicasPtr replicasSize. do {
       r \<leftarrow> read_at bytesIn randomnessC; rs \<leftarrow> replicas_at replicasPtr; i \<leftarrow> read_at bytesIn proverIDC;
       with_response (generate_candidates sectorSize r challengeCount rs replicasSize i)
         (\<lambda>res. checked res (\<lambda>(p, n). goCandidates p n)) })))"

definition GeneratePoSt ::
  "(uint64 \<Rightarrow> byte list \<Rightarrow> replica list \<Rightarrow> uint64 \<Rightarrow> cCandidate list \<Rightarrow> uint64 \<Rightarrow> byte list
      \<Rightarrow> (byte list \<times> uint64) cResponse)
    \<Rightarrow> uint64 \<Rightarrow> bytes32 \<Rightarrow> PrivateSectorInfo list \<Rightarrow> bytes32 \<Rightarrow> Candidate list \<Rightarrow> (string + byte list) go c" where
  "GeneratePoSt generate_post sectorSize proverID privateSectorInfo randomness winners =
     with_array (cPrivateReplicaInfos privateSectorInfo) (\<lambda>replicasPtr replicasSize.
     with_array (cCandidates winners) (\<lambda>winnersC winnersSize.
     with_alloc (CBytes (bytes proverID)) (\<lambda>proverIDC. do {
       rs \<leftarrow> replicas_at replicasPtr; ws \<leftarrow> read_at candidatesIn winnersC; i \<leftarrow> read_at bytesIn proverIDC;
       with_response (generate_post sectorSize (bytes randomness) rs replicasSize ws winnersSize i)
         (\<lambda>res. checked res (\<lambda>(proofs, len). goBytes proofs len)) })))"

section \<open>Signature bindings (\<open>bls.go\<close>)\<close>

definition SignatureBytes :: nat where "SignatureBytes = 96"
definition PrivateKeyBytes :: nat where "PrivateKeyBytes = 32"
definition PublicKeyBytes :: nat where "PublicKeyBytes = 48"
definition DigestBytes :: nat where "DigestBytes = 96"

text \<open>\<open>n\<close> bytes read through a C pointer and copied into a zeroed array of \<open>n\<close> bytes.\<close>

definition copyOut :: "nat \<Rightarrow> byte list \<Rightarrow> byte list" where
  "copyOut n bs = take n (take n bs @ replicate n 0)"

text \<open>The C functions return a pointer to their response, nil (\<open>None\<close>) for a failure.\<close>

definition Hash :: "(byte list \<Rightarrow> uint64 \<Rightarrow> byte list option) \<Rightarrow> byte list \<Rightarrow> byte list go c" where
  "Hash hash message =
     with_alloc (CBytes message) (\<lambda>messageC. do {
       m \<leftarrow> read_at bytesIn messageC;
       with_response_unchecked (hash m (size_t message)) (copyOut DigestBytes) })"

definition Verify ::
  "(byte list \<Rightarrow> byte list \<Rightarrow> uint64 \<Rightarrow> byte list \<Rightarrow> uint64 \<Rightarrow> 32 word) \<Rightarrow> byte list option \<Rightarrow> byte list list
    \<Rightarrow> byte list list \<Rightarrow> bool go c" where
  "Verify verify signature digests publicKeys =
     (let flattenedDigests = flatten DigestBytes digests;
          flattenedPublicKeys = flatten PublicKeyBytes publicKeys in
      case signature of
        None \<Rightarrow> creturn (Inl NilDereference)
      | Some sig \<Rightarrow>
          with_alloc (CBytes sig) (\<lambda>sigC.
          with_alloc (CBytes flattenedDigests) (\<lambda>digestsC.
          with_alloc (CBytes flattenedPublicKeys) (\<lambda>keysC. do {
            s \<leftarrow> read_at bytesIn sigC; ds \<leftarrow> read_at bytesIn digestsC; ks \<leftarrow> read_at bytesIn keysC;
            creturn (Inr (0 < sint (verify s ds (size_t flattenedDigests) ks (size_t flattenedPublicKeys)))) }))))"

definition Aggregate :: "(byte list \<Rightarrow> uint64 \<Rightarrow> byte list option) \<Rightarrow> byte list list \<Rightarrow> byte list option c" where
  "Aggregate aggregate signatures =
     (let flattenedSignatures = flatten SignatureBytes signatures in
      with_alloc (CBytes flattenedSignatures) (\<lambda>sigsC. do {
        ss \<leftarrow> read_at bytesIn sigsC;
        (case aggregate ss (size_t flattenedSignatures) of
           None \<Rightarrow> creturn None
         | Some s \<Rightarrow> with_response s (\<lambda>s. Some (copyOut SignatureBytes s))) }))"

definition PrivateKeyGenerate :: "byte list option \<Rightarrow> byte list go c" where
  "PrivateKeyGenerate private_key_generate =
     with_response_unchecked private_key_generate (copyOut PrivateKeyBytes)"

definition PrivateKeySign ::
  "(byte list \<Rightarrow> byte list \<Rightarrow> uint64 \<Rightarrow> byte list option) \<Rightarrow> byte list \<Rightarrow> byte list \<Rightarrow> byte list option c" where
  "PrivateKeySign private_key_sign privateKey message =
     with_alloc (CBytes privateKey) (\<lambda>keyC.
     with_alloc (CBytes message) (\<lambda>messageC. do {
       k \<leftarrow> read_at bytesIn keyC; m \<leftarrow> read_at bytesIn messageC;
       (case private_key_sign k m (size_t message) of
          None \<Rightarrow> creturn None
        | Some s \<Rightarrow> with_response s (\<lambda>s. Some (copyOut SignatureBytes s))) }))"

definition PrivateKeyPublicKey :: "(byte list \<Rightarrow> byte list option) \<Rightarrow> byte list \<Rightarrow> byte list go c" where
  "PrivateKeyPublicKey private_key_public_key privateKey =
     with_alloc (CBytes privateKey) (\<lambda>keyC. do {
       k \<leftarrow> read_at bytesIn keyC;
       with_response_unchecked (private_key_public_key k) (copyOut PublicKeyBytes) })"

section \<open>Arrays and replicas\<close>

lemma run_array:
  "run_state (with_array (cArray con xs) f) h =
     (let h1 = h\<lparr>hp_live := (hp_live h)(hp_next h \<mapsto> con (take cArrayMax xs)), hp_next := Suc (hp_next h)\<rparr> in
      if over xs then (Inl IndexOutOfRange, h1)
      else run_state (do { x \<leftarrow> f (hp_next h) (size_t xs); cfree (hp_next h); creturn x }) h1)"
  by (simp add: with_array_def cArray_def malloc_def Let_def)

text \<open>An array that does not fit: the panic leaves its block allocated.\<close>

lemma leaks_block:
  assumes "\<And>s. d \<noteq> CStr s"
  shows "leaks 0 1 h (h\<lparr>hp_live := (hp_live h)(hp_next h \<mapsto> d), hp_next := Suc (hp_next h)\<rparr>)"
  unfolding leaks_def by (intro conjI exI [of _ "{}"] exI [of _ "{hp_next h}"]) auto

lemma does_array [does_intros]:
  assumes "\<And>p. \<not> over xs \<Longrightarrow> fresh L p \<Longrightarrow> does (L(p \<mapsto> con xs)) (f p (size_t xs)) r n k"
    and "over xs \<Longrightarrow> r = Inl IndexOutOfRange" "over xs \<Longrightarrow> n = 0" "over xs \<Longrightarrow> k = 1" "\<And>ys s. con ys \<noteq> CStr s"
  shows "does L (with_array (cArray con xs) f) r n k"
proof (cases "over xs")
  case True
  with assms(2-4) leaks_block [OF assms(5), of _ "take cArrayMax xs"] show ?thesis
    by (simp add: does_def run_array Let_def)
next
  case False
  then have "with_array (cArray con xs) f = with_alloc (con xs) (\<lambda>p. f p (size_t xs))"
    by (simp add: with_array_def cArray_def with_alloc_def over_def)
  with does_alloc [OF assms(1) [OF False]] show ?thesis by simp
qed

lemma does_arrays [does_intros]:
  assumes "does L (with_array (cArray CPieces (map (\<lambda>v. \<lparr>cp_num_bytes = pi_Size v, cp_comm_p = bytes (pi_CommP v)\<rparr>) ps)) f) r n k"
  shows "does L (with_array (cPublicPieceInfo ps) f) r n k"
  using assms by (simp add: cPublicPieceInfo_def)

lemma does_uint64s [does_intros]:
  "does L (with_array (cArray CUint64s xs) f) r n k \<Longrightarrow> does L (with_array (cUint64s xs) f) r n k"
  by (simp add: cUint64s_def)

lemma does_candidates [does_intros]:
  "does L (with_array (cArray CCandidates (map cCandidate_of cs)) f) r n k \<Longrightarrow>
   does L (with_array (cCandidates cs) f) r n k"
  by (simp add: cCandidates_def)

text \<open>The entry the library reads for a private sector, and the heap that holds such entries.\<close>

definition replica_of :: "PrivateSectorInfo \<Rightarrow> replica" where
  "replica_of v = (cstr (prv_CacheDirPath v), bytes (prv_CommR v), cstr (prv_SealedSectorPath v), prv_SectorID v)"

definition holds :: "(nat \<rightharpoonup> cdata) \<Rightarrow> cReplica list \<Rightarrow> PrivateSectorInfo list \<Rightarrow> bool" where
  "holds L xs src \<longleftrightarrow> list_all2 (\<lambda>x v. L (cx_cache_dir_path x) = Some (CString (prv_CacheDirPath v)) \<and>
     L (cx_replica_path x) = Some (CString (prv_SealedSectorPath v)) \<and>
     cx_comm_r x = bytes (prv_CommR v) \<and> cx_sector_id x = prv_SectorID v) xs src"

lemma holds_mono: "holds L xs src \<Longrightarrow> (\<And>p s. L p = Some (CStr s) \<Longrightarrow> L' p = Some (CStr s)) \<Longrightarrow> holds L' xs src"
  unfolding holds_def by (erule list_all2_mono) (simp add: CString_def)

lemma holds_upd: "holds L xs src \<Longrightarrow> fresh L p \<Longrightarrow> holds (L(p \<mapsto> d)) xs src"
  by (erule holds_mono) (auto simp: fresh_def)

lemma holds_read:
  "holds L xs src \<Longrightarrow> L \<subseteq>\<^sub>m hp_live h \<Longrightarrow> run_state (readReplicas xs) h = (map replica_of src, h)"
proof (induction xs arbitrary: src)
  case (Cons x xs)
  then obtain v vs where v: "src = v # vs" "L (cx_cache_dir_path x) = Some (CString (prv_CacheDirPath v))"
    "L (cx_replica_path x) = Some (CString (prv_SealedSectorPath v))" "cx_comm_r x = bytes (prv_CommR v)"
    "cx_sector_id x = prv_SectorID v" "holds L xs vs" by (auto simp: holds_def list_all2_Cons1)
  then have "hp_live h (cx_cache_dir_path x) = Some (CString (prv_CacheDirPath v))"
    "hp_live h (cx_replica_path x) = Some (CString (prv_SealedSectorPath v))"
    using Cons.prems(2) by (metis domI map_le_def)+
  with v Cons show ?case by (simp add: read_at_def cload_def CString_def replica_of_def)
qed (simp add: holds_def)

lemma does_replicas_at [does_intros]:
  assumes "L p = Some (CReplicas xs)" "holds L xs src" "does L (f (map replica_of src)) r n k"
  shows "does L (replicas_at p \<bind> f) r n k"
  unfolding does_def
proof (intro allI impI)
  fix h assume h: "heap_ok h \<and> L \<subseteq>\<^sub>m hp_live h"
  with assms(1) have "hp_live h p = Some (CReplicas xs)" by (metis domI map_le_def)
  with h holds_read [OF assms(2)] assms(3) show "\<exists>h'. run_state (replicas_at p \<bind> f) h = (r, h') \<and> leaks n k h h'"
    unfolding does_def by (simp add: replicas_at_def read_at_def cload_def)
qed

lemma leaks_string:
  "leaks 1 0 h (h\<lparr>hp_live := (hp_live h)(hp_next h \<mapsto> CString s), hp_next := Suc (hp_next h)\<rparr>)"
  unfolding leaks_def by (intro conjI exI [of _ "{}"] exI [of _ "{hp_next h}"]) (auto simp: CString_def)

lemma leaks_live: "leaks n k h h' \<Longrightarrow> p < hp_next h \<Longrightarrow> hp_live h' p = hp_live h p"
  unfolding leaks_def by (metis Un_iff atLeastLessThan_iff not_less subsetD)

lemma cReplicaList_run:
  "\<exists>xs h'. run_state (cReplicaList src) h = (xs, h') \<and> leaks (2 * length src) 0 h h' \<and> holds (hp_live h') xs src \<and>
     length xs = length src"
proof (induction src arbitrary: h)
  case Nil
  then show ?case by (simp add: leaks_refl holds_def)
next
  case (Cons v src)
  let ?p = "hp_next h"
  let ?h1 = "h\<lparr>hp_live := (hp_live h)(?p \<mapsto> CString (prv_CacheDirPath v)), hp_next := Suc ?p\<rparr>"
  let ?h2 = "?h1\<lparr>hp_live := (hp_live ?h1)(Suc ?p \<mapsto> CString (prv_SealedSectorPath v)), hp_next := Suc (Suc ?p)\<rparr>"
  from Cons.IH [of ?h2] obtain xs h3 where h3: "run_state (cReplicaList src) ?h2 = (xs, h3)"
    "leaks (2 * length src) 0 ?h2 h3" "holds (hp_live h3) xs src" "length xs = length src" by blast
  have two: "leaks 2 0 h ?h2"
    using leaks_trans [OF leaks_string [of h "prv_CacheDirPath v"] leaks_string [of ?h1 "prv_SealedSectorPath v"]]
    by (simp add: numeral_2_eq_2)
  have "hp_live h3 ?p = Some (CString (prv_CacheDirPath v))" "hp_live h3 (Suc ?p) = Some (CString (prv_SealedSectorPath v))"
    using leaks_live [OF h3(2), of ?p] leaks_live [OF h3(2), of "Suc ?p"] by simp_all
  then show ?case
    using h3 leaks_trans [OF two h3(2)] by (simp add: malloc_def holds_def)
qed

lemma leaks_store:
  assumes "leaks n k h h'" "p < hp_next h"
  shows "leaks n k (h\<lparr>hp_live := (hp_live h)(p \<mapsto> d)\<rparr>) (h'\<lparr>hp_live := (hp_live h')(p \<mapsto> d)\<rparr>)"
proof -
  from assms(1) obtain N M where "N \<union> M \<subseteq> {hp_next h..<hp_next h'}" "N \<inter> M = {}" "card N = n" "card M = k"
    "\<forall>p\<in>N. \<exists>s. hp_live h' p = Some (CStr s)" "\<forall>p\<in>M. hp_live h' p \<noteq> None"
    "\<forall>p. p \<notin> N \<union> M \<longrightarrow> hp_live h' p = hp_live h p" "hp_fault h' = hp_fault h" "hp_next h \<le> hp_next h'"
    unfolding leaks_def by blast
  moreover from this(1) assms(2) have "\<forall>q\<in>N. q \<noteq> p" "\<forall>q\<in>M. q \<noteq> p" by auto
  ultimately show ?thesis by (intro leaksI [of N M]) auto
qed

text \<open>The array of replicas with its strings, and whether they all fit.\<close>

lemma cPrivateReplicaInfos_run:
  assumes "heap_ok h"
  shows "\<exists>h' xs. run_state (cPrivateReplicaInfos src) h = (if over src then Inl IndexOutOfRange else Inr (hp_next h, size_t src), h') \<and>
    leaks (2 * min (length src) (Suc cArrayMax)) 0
      (h\<lparr>hp_live := (hp_live h)(hp_next h \<mapsto> CReplicas xs), hp_next := Suc (hp_next h)\<rparr>) h' \<and>
    hp_live h' (hp_next h) = Some (CReplicas xs) \<and> (\<not> over src \<longrightarrow> holds (hp_live h') xs src)"
proof -
  let ?p = "hp_next h" and ?h1 = "h\<lparr>hp_live := (hp_live h)(hp_next h \<mapsto> CReplicas []), hp_next := Suc (hp_next h)\<rparr>"
  from cReplicaList_run [of "take (Suc cArrayMax) src" ?h1] obtain xs h2 where
    h2: "run_state (cReplicaList (take (Suc cArrayMax) src)) ?h1 = (xs, h2)"
      "leaks (2 * min (length src) (Suc cArrayMax)) 0 ?h1 h2" "holds (hp_live h2) xs (take (Suc cArrayMax) src)"
      "length xs = min (length src) (Suc cArrayMax)" by auto
  have p: "hp_live h2 ?p = Some (CReplicas [])" using leaks_live [OF h2(2), of ?p] by simp
  let ?xs = "take cArrayMax xs"
  let ?h' = "h2\<lparr>hp_live := (hp_live h2)(?p \<mapsto> CReplicas ?xs)\<rparr>"
  have "holds (hp_live ?h') xs (take (Suc cArrayMax) src)"
    using p by (intro holds_mono [OF h2(3)]) auto
  then have "\<not> over src \<Longrightarrow> holds (hp_live ?h') ?xs src" using h2(4) by (simp add: over_def)
  moreover have ext_upd: "h\<lparr>hp_next := Suc ?p, hp_live := L\<rparr> = h\<lparr>hp_live := L, hp_next := Suc ?p\<rparr>" for L by simp
  ultimately show ?thesis
    using h2(1) p leaks_store [OF h2(2), of ?p "CReplicas ?xs"]
    by (intro exI [of _ ?h'] exI [of _ ?xs]) (auto simp: cPrivateReplicaInfos_def malloc_def cstore_def ext_upd)
qed

lemma does_replicas:
  assumes "\<And>p L' xs. fresh L p \<Longrightarrow> L \<subseteq>\<^sub>m L' \<Longrightarrow> L' p = Some (CReplicas xs) \<Longrightarrow> holds L' xs src \<Longrightarrow>
      does L' (f p (size_t src)) r n k" "\<not> over src" "m = 2 * length src + n"
  shows "does L (with_array (cPrivateReplicaInfos src) f) r m k"
  unfolding does_def
proof (intro allI impI)
  fix h assume h: "heap_ok h \<and> L \<subseteq>\<^sub>m hp_live h"
  let ?p = "hp_next h"
  from cPrivateReplicaInfos_run [of h src] h assms(2) obtain h1 xs where
    h1: "run_state (cPrivateReplicaInfos src) h = (Inr (?p, size_t src), h1)"
      "leaks (2 * length src) 0 (h\<lparr>hp_live := (hp_live h)(?p \<mapsto> CReplicas xs), hp_next := Suc ?p\<rparr>) h1"
      "hp_live h1 ?p = Some (CReplicas xs)" "holds (hp_live h1) xs src"
    by (auto simp: over_def min_def split: if_splits)
  have new: "fresh L ?p" using h by (simp add: fresh_next)
  have "heap_ok (h\<lparr>hp_live := (hp_live h)(?p \<mapsto> CReplicas xs), hp_next := Suc ?p\<rparr>)" using h by (simp add: heap_ok_def)
  then have ok: "heap_ok h1" using h1(2) by (rule heap_ok_leaks)
  have le: "L \<subseteq>\<^sub>m hp_live h1"
    unfolding map_le_def
  proof
    fix q assume q: "q \<in> dom L"
    then have live: "hp_live h q = L q" using h by (simp add: map_le_def)
    then have "q < ?p" using q h by (metis domIff heap_ok_def not_less)
    with leaks_live [OF h1(2), of q] live show "L q = hp_live h1 q" by simp
  qed
  from doesD [OF assms(1) [OF new le h1(3,4)] ok map_le_refl] obtain h2 where
    h2: "run_state (f ?p (size_t src)) h1 = (r, h2)" "leaks n k h1 h2" .
  from leaks_freed [of h _ _ "CReplicas xs", OF _ leaks_trans [OF h1(2) h2(2)]] h h1(1) h2(1)
  show "\<exists>h'. run_state (with_array (cPrivateReplicaInfos src) f) h = (r, h') \<and> leaks m k h h'"
    by (auto simp: with_array_def assms(3))
qed

lemma does_replicas_over:
  assumes "over src"
  shows "does L (with_array (cPrivateReplicaInfos src) f) (Inl IndexOutOfRange) (2 * Suc cArrayMax) 1"
  unfolding does_def
proof (intro allI impI)
  fix h assume h: "heap_ok h \<and> L \<subseteq>\<^sub>m hp_live h"
  from cPrivateReplicaInfos_run [of h src] h assms obtain h1 xs where
    h1: "run_state (cPrivateReplicaInfos src) h = (Inl IndexOutOfRange, h1)"
      "leaks (2 * Suc cArrayMax) 0 (h\<lparr>hp_live := (hp_live h)(hp_next h \<mapsto> CReplicas xs), hp_next := Suc (hp_next h)\<rparr>) h1"
    by (auto simp: over_def min_absorb2)
  with leaks_trans [OF leaks_block [of "CReplicas xs" h] h1(2)]
  show "\<exists>h'. run_state (with_array (cPrivateReplicaInfos src) f) h = (Inl IndexOutOfRange, h') \<and>
      leaks (2 * Suc cArrayMax) 1 h h'"
    by (auto simp: with_array_def)
qed

section \<open>What each binding does\<close>

lemma flatten_bytes: "flatten 32 (map (\<lambda>v. bytes (f v)) xs) = concat (map (\<lambda>v. bytes (f v)) xs)"
  by (rule flatten_concat) auto

abbreviation pieces_of :: "PublicPieceInfo list \<Rightarrow> cPiece list" where
  "pieces_of ps \<equiv> map (\<lambda>v. \<lparr>cp_num_bytes = pi_Size v, cp_comm_p = bytes (pi_CommP v)\<rparr>) ps"

abbreviation commRs_of :: "PublicSectorInfo list \<Rightarrow> byte list" where
  "commRs_of infos \<equiv> concat (map (\<lambda>v. bytes (pub_CommR v)) infos)"

text \<open>The result of a binding that copies the array \<open>xs\<close>, and the blocks that stay behind when it does not fit.\<close>

definition fitting :: "'a list \<Rightarrow> 'b go \<Rightarrow> 'b go" where
  "fitting xs r = (if over xs then Inl IndexOutOfRange else r)"

definition stranded :: "'a list \<Rightarrow> nat \<Rightarrow> nat" where
  "stranded xs k = (if over xs then 1 else k)"

lemmas does_simps = fitting_def stranded_def cSectorClass_def cSealPreCommitOutput_def CString_def

lemma VerifySeal_does:
  "does Map.empty (VerifySeal f sz commR commD prover ticket seed sid pf)
     (checked (f sz (bytes commR) (bytes commD) (bytes prover) (bytes ticket) (bytes seed) sid pf (size_t pf)) Inr) 0 0"
  unfolding VerifySeal_def by (intro does_intros) (simp_all add: does_simps)

lemma VerifyPoSt_does:
  "does Map.empty (VerifyPoSt f sz infos rnd n pf winners prover)
     (fitting infos (fitting winners (checked (f sz (bytes rnd) n (map pub_SectorID infos) (size_t infos)
       (commRs_of infos) (size_t (commRs_of infos)) pf (size_t pf) (map cCandidate_of winners) (size_t winners)
       (bytes prover)) Inr))) 0 (stranded infos (stranded winners 0))"
  unfolding VerifyPoSt_def Let_def by (intro does_intros) (simp_all add: does_simps flatten_bytes)

lemma GenerateDataCommitment_does:
  "does Map.empty (GenerateDataCommitment f sz ps)
     (fitting ps (checked (f sz (pieces_of ps) (size_t ps)) (\<lambda>c. Inr (goCommitment c)))) 0 (stranded ps 0)"
  unfolding GenerateDataCommitment_def by (intro does_intros) (simp_all add: does_simps)

lemma GeneratePieceCommitment_does:
  "does Map.empty (GeneratePieceCommitment op f path sz)
     (case op path of Inl e \<Rightarrow> Inr (Inl e) | Inr fd \<Rightarrow> checked (f (ucast fd) sz) (\<lambda>c. Inr (goCommitment c))) 0 0"
  unfolding GeneratePieceCommitment_def GeneratePieceCommitmentFromFile_def
  by (cases "op path") (simp_all add: does_return does_response)

lemma WriteWithAlignment_does:
  "does Map.empty (WriteWithAlignment f fd n fd2 szs)
     (fitting szs (checked (f (ucast fd) n (ucast fd2) szs (size_t szs))
        (\<lambda>(left, total, commP). Inr (left, total, goCommitment commP)))) 0 (stranded szs 0)"
  unfolding WriteWithAlignment_def by (intro does_intros) (simp_all add: does_simps)

lemma WriteWithoutAlignment_does:
  "does Map.empty (WriteWithoutAlignment f fd n fd2)
     (checked (f (ucast fd) n (ucast fd2)) (\<lambda>(total, commP). Inr (total, goCommitment commP))) 0 0"
  unfolding WriteWithoutAlignment_def by (intro does_intros) simp_all

lemma SealPreCommit_does:
  "does Map.empty (SealPreCommit f sz parts cache staged sealed sid prover ticket ps)
     (fitting ps (checked (f (sz, parts) (cstr cache) (cstr staged) (cstr sealed) sid (bytes prover) (bytes ticket)
        (pieces_of ps) (size_t ps)) (\<lambda>x. Inr (goRawSealPreCommitOutput x)))) 0 (stranded ps 0)"
  unfolding SealPreCommit_def by (intro does_intros) (simp_all add: does_simps)

lemma SealCommit_does:
  "does Map.empty (SealCommit f sz parts cache sid prover ticket seed ps rspco)
     (fitting ps (checked (f (sz, parts) (cstr cache) sid (bytes prover) (bytes ticket) (bytes seed) (pieces_of ps)
        (size_t ps) \<lparr>sp_comm_d = bytes (rs_CommD rspco), sp_comm_r = bytes (rs_CommR rspco)\<rparr>)
        (\<lambda>(proof, len). goBytes proof len))) 0 (stranded ps 0)"
  unfolding SealCommit_def by (intro does_intros) (simp_all add: does_simps)

lemma Unseal_does:
  "does Map.empty (Unseal f sz parts cache sealed out sid prover ticket commD)
     (checked (f (sz, parts) (cstr cache) (cstr sealed) (cstr out) sid (bytes prover) (bytes ticket) (bytes commD)) Inr) 0 0"
  unfolding Unseal_def by (intro does_intros) (simp_all add: does_simps)

lemma UnsealRange_does:
  "does Map.empty (UnsealRange f sz parts cache sealed out sid prover ticket commD off len)
     (checked (f (sz, parts) (cstr cache) (cstr sealed) (cstr out) sid (bytes prover) (bytes ticket) (bytes commD)
        off len) Inr) 0 0"
  unfolding UnsealRange_def by (intro does_intros) (simp_all add: does_simps)

lemma FinalizeTicket_does:
  "does Map.empty (FinalizeTicket f t) (checked (f (bytes t)) (\<lambda>c. Inr (goCommitment c))) 0 0"
  unfolding FinalizeTicket_def by (intro does_intros) simp_all

lemma Verify_does:
  "does Map.empty (Verify f (Some sg) ds ks)
     (Inr (0 < sint (f sg (flatten DigestBytes ds) (size_t (flatten DigestBytes ds))
        (flatten PublicKeyBytes ks) (size_t (flatten PublicKeyBytes ks))))) 0 0"
  unfolding Verify_def Let_def option.case by (intro does_intros) simp_all

lemma Verify_nil_does: "does Map.empty (Verify f None ds ks) (Inl NilDereference) 0 0"
  by (simp add: Verify_def does_return)

lemma Aggregate_does:
  "does Map.empty (Aggregate f sgs) (map_option (copyOut SignatureBytes)
     (f (flatten SignatureBytes sgs) (size_t (flatten SignatureBytes sgs)))) 0 0"
  unfolding Aggregate_def Let_def by (intro does_intros) simp_all

lemma PrivateKeySign_does:
  "does Map.empty (PrivateKeySign f key msg) (map_option (copyOut SignatureBytes) (f key msg (size_t msg))) 0 0"
  unfolding PrivateKeySign_def by (intro does_intros) simp_all

text \<open>The three bindings that use a response without comparing it with nil.\<close>

lemma does_unchecked:
  "does L (with_response_unchecked (Some x) f) (Inr (f x)) 0 0"
  by (simp add: with_response_unchecked_def does_response)

lemma Hash_does: "f msg (size_t msg) = Some d \<Longrightarrow> does Map.empty (Hash f msg) (Inr (copyOut DigestBytes d)) 0 0"
  unfolding Hash_def by (intro does_intros) (simp_all add: does_unchecked)

lemma PrivateKeyGenerate_does:
  "f = Some k \<Longrightarrow> does Map.empty (PrivateKeyGenerate f) (Inr (copyOut PrivateKeyBytes k)) 0 0"
  by (simp add: PrivateKeyGenerate_def does_unchecked)

lemma PrivateKeyPublicKey_does:
  "f key = Some k \<Longrightarrow> does Map.empty (PrivateKeyPublicKey f key) (Inr (copyOut PublicKeyBytes k)) 0 0"
  unfolding PrivateKeyPublicKey_def by (intro does_intros) (simp_all add: does_unchecked)

text \<open>A null response: the binding panics, its other blocks are freed, and the destructor gets the null pointer.\<close>

lemma null_response:
  assumes "heap_ok h"
  shows "f key = None \<Longrightarrow> \<exists>h'. run_state (PrivateKeyPublicKey f key) h = (Inl NilDereference, h') \<and> hp_fault h' \<and> hp_live h' = hp_live h"
    and "g msg (size_t msg) = None \<Longrightarrow> \<exists>h'. run_state (Hash g msg) h = (Inl NilDereference, h') \<and> hp_fault h' \<and> hp_live h' = hp_live h"
    and "\<exists>h'. run_state (PrivateKeyGenerate None) h = (Inl NilDereference, h') \<and> hp_fault h' \<and> hp_live h' = hp_live h"
proof -
  have "(hp_live h)(hp_next h := None) = hp_live h" using assms by (auto simp: heap_ok_def)
  note heap = this with_alloc_def malloc_def read_at_def cload_def cfree_def with_response_unchecked_def
  show "f key = None \<Longrightarrow> \<exists>h'. run_state (PrivateKeyPublicKey f key) h = (Inl NilDereference, h') \<and> hp_fault h' \<and> hp_live h' = hp_live h"
    by (simp add: PrivateKeyPublicKey_def heap)
  show "g msg (size_t msg) = None \<Longrightarrow> \<exists>h'. run_state (Hash g msg) h = (Inl NilDereference, h') \<and> hp_fault h' \<and> hp_live h' = hp_live h"
    by (simp add: Hash_def heap)
  show "\<exists>h'. run_state (PrivateKeyGenerate None) h = (Inl NilDereference, h') \<and> hp_fault h' \<and> hp_live h' = hp_live h"
    by (simp add: PrivateKeyGenerate_def heap)
qed

lemmas bindings_does = VerifySeal_does VerifyPoSt_does GenerateDataCommitment_does GeneratePieceCommitment_does
  WriteWithAlignment_does WriteWithoutAlignment_does SealPreCommit_does SealCommit_does Unseal_does
  UnsealRange_does FinalizeTicket_does Verify_does Verify_nil_does Aggregate_does PrivateKeySign_does

text \<open>
  C22: the C heap after a call, for every binding but the two that take private replicas, on every
  outcome, errors of the library included. Each block that was allocated is freed once, the response
  is destroyed and no block is read or freed that is not allocated, with two exceptions: an
  array of more than \<open>1 << 30\<close> entries stays allocated after the panic it causes, and when the library
  answers \<open>Hash\<close>, \<open>PrivateKeyGenerate\<close> or \<open>PrivateKeyPublicKey\<close> with the null pointer (which its
  documentation announces for an invalid key) the binding panics and the null pointer is destroyed.
\<close>

theorem bindings_balanced:
  assumes "heap_ok h"
  shows "leaks 0 0 h (snd (run_state (VerifySeal f1 sz r d i t s sid pf) h)) \<and>
   leaks 0 (stranded infos (stranded ws 0)) h (snd (run_state (VerifyPoSt f2 sz infos rnd n pf ws i) h)) \<and>
   leaks 0 (stranded ps 0) h (snd (run_state (GenerateDataCommitment f3 sz ps) h)) \<and>
   leaks 0 0 h (snd (run_state (GeneratePieceCommitment op f4 path sz) h)) \<and>
   leaks 0 (stranded szs 0) h (snd (run_state (WriteWithAlignment f5 fd sz fd2 szs) h)) \<and>
   leaks 0 0 h (snd (run_state (WriteWithoutAlignment f6 fd sz fd2) h)) \<and>
   leaks 0 (stranded ps 0) h (snd (run_state (SealPreCommit f7 sz pt a b e sid i t ps) h)) \<and>
   leaks 0 (stranded ps 0) h (snd (run_state (SealCommit f8 sz pt a sid i t s ps rs) h)) \<and>
   leaks 0 0 h (snd (run_state (Unseal f9 sz pt a b e sid i t d) h)) \<and>
   leaks 0 0 h (snd (run_state (UnsealRange f10 sz pt a b e sid i t d off len) h)) \<and>
   leaks 0 0 h (snd (run_state (FinalizeTicket f11 t) h)) \<and>
   leaks 0 0 h (snd (run_state (Verify f12 sg ds ks) h)) \<and>
   leaks 0 0 h (snd (run_state (Aggregate f13 sgs) h)) \<and>
   leaks 0 0 h (snd (run_state (PrivateKeySign f14 k m) h)) \<and>
   (case f15 m (size_t m) of
      Some x \<Rightarrow> leaks 0 0 h (snd (run_state (Hash f15 m) h))
    | None \<Rightarrow> \<exists>h'. run_state (Hash f15 m) h = (Inl NilDereference, h') \<and> hp_fault h' \<and> hp_live h' = hp_live h) \<and>
   (case f16 of
      Some x \<Rightarrow> leaks 0 0 h (snd (run_state (PrivateKeyGenerate f16) h))
    | None \<Rightarrow> \<exists>h'. run_state (PrivateKeyGenerate f16) h = (Inl NilDereference, h') \<and> hp_fault h' \<and> hp_live h' = hp_live h) \<and>
   (case f17 k of
      Some x \<Rightarrow> leaks 0 0 h (snd (run_state (PrivateKeyPublicKey f17 k) h))
    | None \<Rightarrow> \<exists>h'. run_state (PrivateKeyPublicKey f17 k) h = (Inl NilDereference, h') \<and> hp_fault h' \<and> hp_live h' = hp_live h)"
proof (intro conjI)
  show "leaks 0 0 h (snd (run_state (Verify f12 sg ds ks) h))"
    by (cases sg) (auto intro: does_empty(2) [OF Verify_does assms] does_empty(2) [OF Verify_nil_does assms])
next
  show "case f15 m (size_t m) of
      Some x \<Rightarrow> leaks 0 0 h (snd (run_state (Hash f15 m) h))
    | None \<Rightarrow> \<exists>h'. run_state (Hash f15 m) h = (Inl NilDereference, h') \<and> hp_fault h' \<and> hp_live h' = hp_live h"
    by (auto simp: null_response(2) [OF assms] intro: does_empty(2) [OF Hash_does assms] split: option.split)
next
  show "case f16 of
      Some x \<Rightarrow> leaks 0 0 h (snd (run_state (PrivateKeyGenerate f16) h))
    | None \<Rightarrow> \<exists>h'. run_state (PrivateKeyGenerate f16) h = (Inl NilDereference, h') \<and> hp_fault h' \<and> hp_live h' = hp_live h"
    by (auto simp: null_response(3) [OF assms] intro: does_empty(2) [OF PrivateKeyGenerate_does assms] split: option.split)
next
  show "case f17 k of
      Some x \<Rightarrow> leaks 0 0 h (snd (run_state (PrivateKeyPublicKey f17 k) h))
    | None \<Rightarrow> \<exists>h'. run_state (PrivateKeyPublicKey f17 k) h = (Inl NilDereference, h') \<and> hp_fault h' \<and> hp_live h' = hp_live h"
    by (auto simp: null_response(1) [OF assms] intro: does_empty(2) [OF PrivateKeyPublicKey_does assms] split: option.split)
qed (rule does_empty(2) [OF _ assms], rule bindings_does)+

definition demo_heap :: heap where
  "demo_heap = \<lparr>hp_live = Map.empty, hp_next = 0, hp_fault = False\<rparr>"

lemma demo_heap_ok: "heap_ok demo_heap"
  by (simp add: heap_ok_def demo_heap_def)

theorem bindings_balanced_witness:
  "leaks 0 0 demo_heap (snd (run_state (GenerateDataCommitment
      (\<lambda>sz ps n. \<lparr>cr_status_code = 1, cr_error_msg = ''no'', cr_payload = []\<rparr>) 1024
      [\<lparr>pi_Size = 508, pi_CommP = zero32\<rparr>]) demo_heap)) \<and>
   (\<exists>h'. run_state (PrivateKeyPublicKey (\<lambda>k. None) []) demo_heap = (Inl NilDereference, h') \<and> hp_fault h')"
proof -
  have "leaks 0 0 demo_heap (snd (run_state (GenerateDataCommitment
      (\<lambda>sz ps n. \<lparr>cr_status_code = 1, cr_error_msg = ''no'', cr_payload = []\<rparr>) 1024
      [\<lparr>pi_Size = 508, pi_CommP = zero32\<rparr>]) demo_heap))"
    using bindings_balanced [OF demo_heap_ok, where ps = "[\<lparr>pi_Size = 508, pi_CommP = zero32\<rparr>]" and sz = 1024
        and ?f3.0 = "\<lambda>sz ps n. \<lparr>cr_status_code = 1, cr_error_msg = ''no'', cr_payload = []\<rparr>"]
    by (simp add: stranded_def over_def cArrayMax_def)
  moreover have "\<exists>h'. run_state (PrivateKeyPublicKey (\<lambda>k. None) []) demo_heap = (Inl NilDereference, h') \<and> hp_fault h'"
    using bindings_balanced [OF demo_heap_ok, where ?f17.0 = "\<lambda>k. None" and k = "[]", THEN conjunct2, THEN conjunct2,
      THEN conjunct2, THEN conjunct2, THEN conjunct2, THEN conjunct2, THEN conjunct2, THEN conjunct2, THEN conjunct2,
      THEN conjunct2, THEN conjunct2, THEN conjunct2, THEN conjunct2, THEN conjunct2, THEN conjunct2, THEN conjunct2]
    by auto
  ultimately show ?thesis by blast
qed

section \<open>What the C library receives\<close>



text \<open>
  Data that goes to the C library and comes back is unchanged: candidates through
  \<open>cCandidates\<close> and \<open>goCandidates\<close>, and the output of the pre-commit.
\<close>

theorem ffi_data_roundtrip:
  assumes "\<not> over cs"
  shows "goCandidates (Some (map cCandidate_of cs)) (size_t cs) = Inr cs"
    and "goRawSealPreCommitOutput (cSealPreCommitOutput out) = out"
proof -
  have n: "unat (size_t cs) = length cs"
    using assms unfolding size_t_def by (intro unat_of_nat_small) (simp add: over_def cArrayMax_def)
  have "map (goCandidate \<circ> cCandidate_of) cs = cs"
    by (rule map_idI) (simp add: goCandidate_def cCandidate_of_def)
  moreover have "size_t cs = 0 \<Longrightarrow> cs = []" using n by (metis length_0_conv unat_0)
  ultimately show "goCandidates (Some (map cCandidate_of cs)) (size_t cs) = Inr cs"
    using assms n by (auto simp: goCandidates_def over_def cArrayMax_def)
  show "goRawSealPreCommitOutput (cSealPreCommitOutput out) = out"
    by (simp add: goRawSealPreCommitOutput_def cSealPreCommitOutput_def)
qed

section \<open>The bindings that take private replicas\<close>

lemma map_le_Some: "L \<subseteq>\<^sub>m L' \<Longrightarrow> L p = Some d \<Longrightarrow> L' p = Some d"
  by (metis domI map_le_def)

lemma GenerateCandidates_does:
  "does Map.empty (GenerateCandidates f sz prover rnd n infos)
     (fitting infos (checked (f sz (bytes rnd) n (map replica_of infos) (size_t infos) (bytes prover))
        (\<lambda>(p, k). goCandidates p k))) (2 * min (length infos) (Suc cArrayMax)) (stranded infos 0)"
proof (cases "over infos")
  case True
  then have m: "2 * min (length infos) (Suc cArrayMax) = 2 * Suc cArrayMax" "stranded infos k = 1"
    "fitting infos r = Inl IndexOutOfRange" for k and r :: "'z go"
    by (simp_all add: over_def does_simps)
  show ?thesis unfolding GenerateCandidates_def m by (intro does_alloc does_replicas_over True)
next
  case False
  then have m: "2 * min (length infos) (Suc cArrayMax) = 2 * length infos + 0" by (simp add: over_def)
  show ?thesis
    unfolding GenerateCandidates_def
  proof (rule does_alloc, rule does_alloc, rule does_replicas [OF _ False m])
    fix p pa pb :: nat and L' xs
    let ?L = "[p \<mapsto> CBytes (bytes rnd), pa \<mapsto> CBytes (bytes prover)]"
    assume fr: "fresh [p \<mapsto> CBytes (bytes rnd)] pa" and le: "?L \<subseteq>\<^sub>m L'" and rep: "L' pb = Some (CReplicas xs)" "holds L' xs infos"
    have "L' p = Some (CBytes (bytes rnd))" "L' pa = Some (CBytes (bytes prover))"
      using map_le_Some [OF le] fr by auto
    then show "does L' (do { r \<leftarrow> read_at bytesIn p; rs \<leftarrow> replicas_at pb; i \<leftarrow> read_at bytesIn pa;
        with_response (f sz r n rs (size_t infos) i) (\<lambda>res. checked res (\<lambda>(p, n). goCandidates p n)) })
      (fitting infos (checked (f sz (bytes rnd) n (map replica_of infos) (size_t infos) (bytes prover))
        (\<lambda>(p, k). goCandidates p k))) 0 (stranded infos 0)"
      using False by (intro does_read does_replicas_at [OF rep] does_response) (simp_all add: does_simps)
  qed
qed

lemma GeneratePoSt_does:
  "does Map.empty (GeneratePoSt g sz prover infos rnd winners)
     (fitting infos (fitting winners (checked (g sz (bytes rnd) (map replica_of infos) (size_t infos)
        (map cCandidate_of winners) (size_t winners) (bytes prover)) (\<lambda>(b, k). goBytes b k))))
     (2 * min (length infos) (Suc cArrayMax)) (stranded infos (stranded winners 0))"
proof (cases "over infos")
  case True
  then have m: "2 * min (length infos) (Suc cArrayMax) = 2 * Suc cArrayMax" "stranded infos k = 1"
    "fitting infos r = Inl IndexOutOfRange" for k and r :: "'z go"
    by (simp_all add: over_def does_simps)
  show ?thesis unfolding GeneratePoSt_def m by (rule does_replicas_over [OF True])
next
  case False
  then have m: "2 * min (length infos) (Suc cArrayMax) = 2 * length infos + 0" by (simp add: over_def)
  show ?thesis
    unfolding GeneratePoSt_def
  proof (rule does_replicas [OF _ False m])
    fix p L' xs
    assume rep: "L' p = Some (CReplicas xs)" "holds L' xs infos"
    show "does L' (with_array (cCandidates winners) (\<lambda>winnersC winnersSize.
        with_alloc (CBytes (bytes prover)) (\<lambda>proverIDC. do {
          rs \<leftarrow> replicas_at p; ws \<leftarrow> read_at candidatesIn winnersC; i \<leftarrow> read_at bytesIn proverIDC;
          with_response (g sz (bytes rnd) rs (size_t infos) ws winnersSize i)
            (\<lambda>res. checked res (\<lambda>(proofs, len). goBytes proofs len)) })))
      (fitting infos (fitting winners (checked (g sz (bytes rnd) (map replica_of infos) (size_t infos)
        (map cCandidate_of winners) (size_t winners) (bytes prover)) (\<lambda>(b, k). goBytes b k))))
      0 (stranded infos (stranded winners 0))"
    proof (intro does_candidates does_array does_alloc)
      fix q t
      assume fr: "\<not> over (map cCandidate_of winners)" "fresh L' q" "fresh (L'(q \<mapsto> CCandidates (map cCandidate_of winners))) t"
      let ?L = "L'(q \<mapsto> CCandidates (map cCandidate_of winners), t \<mapsto> CBytes (bytes prover))"
      have "p \<noteq> q" "p \<noteq> t" using rep(1) fr(2) fr(3) [unfolded fresh_simps] by (auto simp: fresh_def)
      moreover have "holds ?L xs infos" using rep(2) fr by (intro holds_upd)
      ultimately show "does ?L (do { rs \<leftarrow> replicas_at p; ws \<leftarrow> read_at candidatesIn q; i \<leftarrow> read_at bytesIn t;
          with_response (g sz (bytes rnd) rs (size_t infos) ws (size_t (map cCandidate_of winners)) i)
            (\<lambda>res. checked res (\<lambda>(proofs, len). goBytes proofs len)) })
        (fitting infos (fitting winners (checked (g sz (bytes rnd) (map replica_of infos) (size_t infos)
          (map cCandidate_of winners) (size_t winners) (bytes prover)) (\<lambda>(b, k). goBytes b k))))
        0 (stranded infos (stranded winners 0))"
        using rep(1) fr False
        by (intro does_replicas_at [of _ _ xs] does_read does_response) (simp_all add: does_simps)
    qed (use False in \<open>simp_all add: does_simps\<close>)
  qed
qed



section \<open>Sorted sector infos\<close>

text \<open>
  What \<open>sort.Slice\<close> promises, for a comparison by a 32-byte key: a permutation, sorted by the key.
  The order of equal elements is left open. The lemma inside says that with distinct keys nothing
  is left open.
\<close>

locale slice_sorter =
  fixes sortSlice :: "('a \<Rightarrow> 'a \<Rightarrow> bool) \<Rightarrow> 'a list \<Rightarrow> 'a list"
  assumes perm: "mset (sortSlice lt xs) = mset xs"
    and sorts: "sorted (map key (sortSlice (\<lambda>a b. key a < (key b :: bytes32)) xs))"
begin

lemma sort_unique:
  assumes "distinct (map key xs)"
  shows "sortSlice (\<lambda>a b. key a < (key b :: bytes32)) xs = sort_key key xs"
proof -
  let ?ys = "sortSlice (\<lambda>a b. key a < key b) xs"
  have "mset ?ys = mset xs" by (rule perm)
  then have "mset (map key ?ys) = mset (map key (sort_key key xs))" and set: "set ?ys = set xs"
    by (auto simp: mset_map dest: mset_eq_setD)
  then have "map key ?ys = map key (sort_key key xs)"
    using sorts [of key xs] by (metis properties_for_sort sorted_sort_key)
  moreover have "inj_on key (set ?ys \<union> set (sort_key key xs))"
    using assms set by (simp add: distinct_map)
  ultimately show ?thesis by (rule map_inj_on)
qed

end

text \<open>
  The part of \<open>sort.Slice\<close> that runs for at most twelve elements: one pass of shell sort with gap
  six, then insertion sort, which moves each element down past the greater ones before it. The
  sorted part is kept with its last element first.
\<close>

fun insertDown :: "('a \<Rightarrow> 'a \<Rightarrow> bool) \<Rightarrow> 'a \<Rightarrow> 'a list \<Rightarrow> 'a list" where
  "insertDown lt x [] = [x]"
| "insertDown lt x (y # ys) = (if lt x y then y # insertDown lt x ys else x # y # ys)"

definition insertionSort :: "('a \<Rightarrow> 'a \<Rightarrow> bool) \<Rightarrow> 'a list \<Rightarrow> 'a list" where
  "insertionSort lt xs = rev (foldl (\<lambda>acc x. insertDown lt x acc) [] xs)"

definition gapPass :: "('a \<Rightarrow> 'a \<Rightarrow> bool) \<Rightarrow> 'a list \<Rightarrow> 'a list" where
  "gapPass lt xs = foldl (\<lambda>ys i. if lt (ys ! i) (ys ! (i - 6))
     then ys[i := ys ! (i - 6), i - 6 := ys ! i] else ys) xs [6..<length xs]"

definition sortSliceSmall :: "('a \<Rightarrow> 'a \<Rightarrow> bool) \<Rightarrow> 'a list \<Rightarrow> 'a list" where
  "sortSliceSmall lt xs = insertionSort lt (gapPass lt xs)"

lemma mset_insertDown: "mset (insertDown lt x ys) = add_mset x (mset ys)"
  by (induction ys) auto

lemma mset_insertionSort: "mset (insertionSort lt xs) = mset xs"
proof -
  have "mset (foldl (\<lambda>acc x. insertDown lt x acc) acc xs) = mset acc + mset xs" for acc
    by (induction xs arbitrary: acc) (auto simp: mset_insertDown)
  then show ?thesis by (simp add: insertionSort_def)
qed

lemma mset_gapPass: "mset (gapPass lt xs) = mset xs"
proof -
  have "mset (foldl (\<lambda>ys i. if lt (ys ! i) (ys ! (i - 6))
     then ys[i := ys ! (i - 6), i - 6 := ys ! i] else ys) ys is) = mset ys"
    if "\<forall>i\<in>set is. i < length ys" for ys "is"
    using that by (induction "is" arbitrary: ys) (auto simp: mset_swap less_imp_diff_less)
  then show ?thesis by (simp add: gapPass_def)
qed

lemma sorted_insertDown:
  fixes key :: "'a \<Rightarrow> 'k :: linorder"
  assumes "sorted_wrt (\<lambda>a b. key b \<le> key a) ys"
  shows "sorted_wrt (\<lambda>a b. key b \<le> key a) (insertDown (\<lambda>a b. key a < key b) x ys)"
  using assms
proof (induction ys)
  case (Cons y ys)
  have "set (insertDown (\<lambda>a b. key a < key b) x ys) = insert x (set ys)"
    by (metis mset_insertDown set_mset_add_mset_insert set_mset_mset)
  with Cons show ?case by force
qed simp

lemma sorted_insertionSort:
  fixes key :: "'a \<Rightarrow> 'k :: linorder"
  shows "sorted (map key (insertionSort (\<lambda>a b. key a < key b) xs))"
proof -
  have "sorted_wrt (\<lambda>a b. key b \<le> key a) (foldl (\<lambda>acc x. insertDown (\<lambda>a b. key a < key b) x acc) acc xs)"
    if "sorted_wrt (\<lambda>a b. key b \<le> key a) acc" for acc
    using that by (induction xs arbitrary: acc) (auto intro: sorted_insertDown)
  from this [of "[]"] show ?thesis
    by (simp add: insertionSort_def sorted_map sorted_wrt_rev)
qed

interpretation small: slice_sorter sortSliceSmall
  by unfold_locales (simp_all add: sortSliceSmall_def mset_insertionSort mset_gapPass sorted_insertionSort)

text \<open>\<open>NewSortedPublicSectorInfo\<close> and \<open>NewSortedPrivateSectorInfo\<close>, over the sort of the library.\<close>

definition NewSortedPublicSectorInfo ::
  "((PublicSectorInfo \<Rightarrow> PublicSectorInfo \<Rightarrow> bool) \<Rightarrow> PublicSectorInfo list \<Rightarrow> PublicSectorInfo list)
    \<Rightarrow> PublicSectorInfo list \<Rightarrow> PublicSectorInfo list" where
  "NewSortedPublicSectorInfo sortSlice sectorInfo =
     sortSlice (\<lambda>a b. bytesCompare (bytes (pub_CommR a)) (bytes (pub_CommR b)) = -1) sectorInfo"

definition NewSortedPrivateSectorInfo ::
  "((PrivateSectorInfo \<Rightarrow> PrivateSectorInfo \<Rightarrow> bool) \<Rightarrow> PrivateSectorInfo list \<Rightarrow> PrivateSectorInfo list)
    \<Rightarrow> PrivateSectorInfo list \<Rightarrow> PrivateSectorInfo list" where
  "NewSortedPrivateSectorInfo sortSlice sectorInfo =
     sortSlice (\<lambda>a b. bytesCompare (bytes (prv_CommR a)) (bytes (prv_CommR b)) = -1) sectorInfo"

lemma bytesCompare_bytes: "bytesCompare (bytes a) (bytes b) = -1 \<longleftrightarrow> a < b"
  by (simp add: bytesCompare_less less_bytes32.rep_eq)

definition pub_entry :: "PublicSectorInfo \<Rightarrow> uint64 \<times> bytes32" where
  "pub_entry p = (pub_SectorID p, pub_CommR p)"

definition prv_entry :: "PrivateSectorInfo \<Rightarrow> uint64 \<times> bytes32" where
  "prv_entry p = (prv_SectorID p, prv_CommR p)"

text \<open>
  C23: prover and verifier see the sectors in the same order. Whatever correct sort each side runs
  and in whatever order the sectors were given, the private infos handed to \<open>generate_post\<close> and the
  public infos of the same sectors handed to \<open>verify_post\<close> list the same ids and commitments, in
  ascending order of the commitments, provided no two sectors have the same commitment.
\<close>

theorem sorted_infos_agree:
  assumes "slice_sorter s1" "slice_sorter s2" "mset (map prv_entry privs) = mset (map pub_entry pubs)"
    and "distinct (map pub_CommR pubs)"
  shows "map prv_entry (NewSortedPrivateSectorInfo s1 privs) = map pub_entry (NewSortedPublicSectorInfo s2 pubs) \<and>
    sorted (map pub_CommR (NewSortedPublicSectorInfo s2 pubs))"
proof -
  have keys: "mset (map prv_CommR privs) = mset (map pub_CommR pubs)"
    using arg_cong [OF assms(3), of "image_mset snd"]
    by (simp add: mset_map [symmetric] o_def prv_entry_def pub_entry_def del: mset_map)
  then have dk: "distinct (map prv_CommR privs)" using assms(4) by (metis mset_eq_imp_distinct_iff)
  have pub: "NewSortedPublicSectorInfo s2 pubs = sort_key pub_CommR pubs"
    using slice_sorter.sort_unique [OF assms(2,4)] by (simp add: NewSortedPublicSectorInfo_def bytesCompare_bytes)
  have prv: "NewSortedPrivateSectorInfo s1 privs = sort_key prv_CommR privs"
    using slice_sorter.sort_unique [OF assms(1) dk] by (simp add: NewSortedPrivateSectorInfo_def bytesCompare_bytes)
  let ?xs = "map prv_entry (sort_key prv_CommR privs)" and ?ys = "map pub_entry (sort_key pub_CommR pubs)"
  have snd_map: "map snd ?xs = map prv_CommR (sort_key prv_CommR privs)"
    "map snd ?ys = map pub_CommR (sort_key pub_CommR pubs)" by (simp_all add: prv_entry_def pub_entry_def)
  have "mset (map prv_CommR (sort_key prv_CommR privs)) = mset (map pub_CommR (sort_key pub_CommR pubs))"
    using keys by (simp add: mset_map)
  then have "map snd ?xs = map snd ?ys"
    unfolding snd_map by (metis properties_for_sort sorted_sort_key)
  moreover have "mset ?xs = mset ?ys" using assms(3) by (simp add: mset_map)
  then have "set ?xs = set ?ys" by (rule mset_eq_setD)
  moreover have "inj_on snd (set ?ys)"
    using assms(4) by (auto simp: distinct_map inj_on_def pub_entry_def)
  ultimately have "?xs = ?ys" by (intro map_inj_on [of snd]) simp_all
  with pub prv show ?thesis by simp
qed

definition demo_commR :: "byte \<Rightarrow> bytes32" where
  "demo_commR b = goCommitment [b]"

lemma bytes_demo_commR: "bytes (demo_commR b) = b # replicate 31 0"
  unfolding demo_commR_def by (transfer, simp add: numeral_eq_Suc)

theorem sorted_infos_agree_witness:
  "map prv_entry (NewSortedPrivateSectorInfo sortSliceSmall
      [\<lparr>prv_SectorID = 1, prv_CommR = demo_commR 9, prv_CacheDirPath = ''a'', prv_SealedSectorPath = ''b''\<rparr>,
       \<lparr>prv_SectorID = 2, prv_CommR = demo_commR 4, prv_CacheDirPath = ''c'', prv_SealedSectorPath = ''d''\<rparr>]) =
   map pub_entry (NewSortedPublicSectorInfo sortSliceSmall
      [\<lparr>pub_SectorID = 1, pub_CommR = demo_commR 9\<rparr>, \<lparr>pub_SectorID = 2, pub_CommR = demo_commR 4\<rparr>])"
proof -
  have "demo_commR 9 \<noteq> demo_commR 4" by (simp add: bytes_demo_commR flip: bytes_inject)
  then show ?thesis
    using sorted_infos_agree [OF small.slice_sorter_axioms small.slice_sorter_axioms,
      of "[\<lparr>prv_SectorID = 1, prv_CommR = demo_commR 9, prv_CacheDirPath = ''a'', prv_SealedSectorPath = ''b''\<rparr>,
       \<lparr>prv_SectorID = 2, prv_CommR = demo_commR 4, prv_CacheDirPath = ''c'', prv_SealedSectorPath = ''d''\<rparr>]"
      "[\<lparr>pub_SectorID = 1, pub_CommR = demo_commR 9\<rparr>, \<lparr>pub_SectorID = 2, pub_CommR = demo_commR 4\<rparr>]"]
    by (simp add: prv_entry_def pub_entry_def)
qed

end
