(* ===== verification/SectorJson.thy ===== *)
theory SectorJson
  imports Ffi RpcTypes
begin

text \<open>
  The JSON form of the sorted sector infos (\<open>src/main/extern/filecoin-ffi/proofs.go\<close>): their
  \<open>MarshalJSON\<close> and \<open>UnmarshalJSON\<close> methods with the rules of \<open>encoding/json\<close> for the two struct types,
  and the struct types of the file that carry no code.
\<close>

section \<open>Struct types\<close>

record SealTicket =
  st_BlockHeight :: uint64
  st_TicketBytes :: bytes32

record SealSeed =
  ss_BlockHeight :: uint64
  ss_TicketBytes :: bytes32

record PieceMetadata =
  pm_Key :: string
  pm_Size :: uint64
  pm_CommP :: bytes32

record SealPreCommitOutput =
  po_SectorID :: uint64
  po_CommD :: bytes32
  po_CommR :: bytes32
  po_Pieces :: "PieceMetadata list"
  po_Ticket :: SealTicket

record SealCommitOutput =
  co_SectorID :: uint64
  co_CommD :: bytes32
  co_CommR :: bytes32
  co_Proof :: "byte list"
  co_Pieces :: "PieceMetadata list"
  co_Ticket :: SealTicket
  co_Seed :: SealSeed

text \<open>The field \<open>f\<close> of the sorted infos; \<open>None\<close> is the nil slice.\<close>

record SortedPublicSectorInfo =
  pub_f :: "PublicSectorInfo list option"

record SortedPrivateSectorInfo =
  prv_f :: "PrivateSectorInfo list option"

definition publicValues :: "SortedPublicSectorInfo \<Rightarrow> PublicSectorInfo list option" where
  "publicValues s = pub_f s"

definition privateValues :: "SortedPrivateSectorInfo \<Rightarrow> PrivateSectorInfo list option" where
  "privateValues s = prv_f s"

section \<open>Strings\<close>

text \<open>
  Go strings are sequences of bytes. \<open>encoding/json\<close> writes the characters it decodes from the UTF-8 text
  of a string; a byte that does not belong to the encoding of a character is replaced by U+FFFD.
  \<open>runeTail\<close> is the number of bytes that follow the first one of a character, \<open>None\<close> for an invalid one.
\<close>

definition byteIn :: "nat \<Rightarrow> nat \<Rightarrow> char \<Rightarrow> bool" where
  "byteIn lo hi c \<longleftrightarrow> lo \<le> of_char c \<and> of_char c \<le> hi"

definition contBytes :: "nat \<Rightarrow> nat \<Rightarrow> nat \<Rightarrow> string \<Rightarrow> nat option" where
  "contBytes n lo hi cs =
     (if n \<le> length cs \<and> byteIn lo hi (hd cs) \<and> (\<forall>c\<in>set (take (n - 1) (tl cs)). byteIn 0x80 0xBF c) then Some n else None)"

definition runeTail :: "char \<Rightarrow> string \<Rightarrow> nat option" where
  "runeTail c cs =
     (if byteIn 0x00 0x7F c then Some 0
      else if byteIn 0xC2 0xDF c then contBytes 1 0x80 0xBF cs
      else if byteIn 0xE0 0xE0 c then contBytes 2 0xA0 0xBF cs
      else if byteIn 0xE1 0xEC c then contBytes 2 0x80 0xBF cs
      else if byteIn 0xED 0xED c then contBytes 2 0x80 0x9F cs
      else if byteIn 0xEE 0xEF c then contBytes 2 0x80 0xBF cs
      else if byteIn 0xF0 0xF0 c then contBytes 3 0x90 0xBF cs
      else if byteIn 0xF1 0xF3 c then contBytes 3 0x80 0xBF cs
      else if byteIn 0xF4 0xF4 c then contBytes 3 0x80 0x8F cs
      else None)"

fun coerceUTF8 :: "string \<Rightarrow> string" where
  "coerceUTF8 [] = []"
| "coerceUTF8 (c # cs) =
     (case runeTail c cs of
        Some n \<Rightarrow> c # take n cs @ coerceUTF8 (drop n cs)
      | None \<Rightarrow> CHR 0xEF # CHR 0xBF # CHR 0xBD # coerceUTF8 cs)"

fun validUTF8 :: "string \<Rightarrow> bool" where
  "validUTF8 [] \<longleftrightarrow> True"
| "validUTF8 (c # cs) \<longleftrightarrow> (case runeTail c cs of Some n \<Rightarrow> validUTF8 (drop n cs) | None \<Rightarrow> False)"

text \<open>Exactly the valid strings are written as they are.\<close>

lemma coerceUTF8_iff: "coerceUTF8 s = s \<longleftrightarrow> validUTF8 s"
proof (induction s rule: coerceUTF8.induct)
  case (2 c cs)
  show ?case
  proof (cases "runeTail c cs")
    case None
    have "runeTail (CHR 0xEF) (CHR 0xBF # CHR 0xBD # ds) = Some 2" for ds
      by (simp add: runeTail_def byteIn_def contBytes_def)
    with None have "c # cs \<noteq> CHR 0xEF # CHR 0xBF # CHR 0xBD # coerceUTF8 cs" by (metis list.inject option.distinct(1))
    with None show ?thesis by auto
  next
    case (Some n)
    have "take n cs @ coerceUTF8 (drop n cs) = cs \<longleftrightarrow> coerceUTF8 (drop n cs) = drop n cs"
      by (metis append_take_drop_id same_append_eq)
    with Some 2 show ?thesis by simp
  qed
qed simp

section \<open>Encoding\<close>

text \<open>An array of bytes is an array of numbers; only slices of bytes are encoded in base64.\<close>

definition encBytes32 :: "bytes32 \<Rightarrow> json" where
  "encBytes32 c = JArr (map (\<lambda>b. JInt (uint b)) (bytes c))"

definition encPublic :: "PublicSectorInfo \<Rightarrow> json" where
  "encPublic p = JObj [(''SectorID'', JInt (uint (pub_SectorID p))), (''CommR'', encBytes32 (pub_CommR p))]"

definition encPrivate :: "PrivateSectorInfo \<Rightarrow> json" where
  "encPrivate p = JObj [(''SectorID'', JInt (uint (prv_SectorID p))), (''CommR'', encBytes32 (prv_CommR p)),
     (''CacheDirPath'', JStr (coerceUTF8 (prv_CacheDirPath p))),
     (''SealedSectorPath'', JStr (coerceUTF8 (prv_SealedSectorPath p)))]"

definition encSlice :: "('a \<Rightarrow> json) \<Rightarrow> 'a list option \<Rightarrow> json" where
  "encSlice enc xs = (case xs of None \<Rightarrow> JNull | Some ys \<Rightarrow> JArr (map enc ys))"

definition publicMarshalJSON :: "SortedPublicSectorInfo \<Rightarrow> json" where
  "publicMarshalJSON s = encSlice encPublic (pub_f s)"

definition privateMarshalJSON :: "SortedPrivateSectorInfo \<Rightarrow> json" where
  "privateMarshalJSON s = encSlice encPrivate (prv_f s)"

section \<open>Decoding\<close>

text \<open>
  Decoding overwrites a value. \<open>null\<close> leaves it; numbers have to be integers in range; an array of
  the wrong length is cut or filled with zeros; names of members are compared up to the case of
  letters, where U+017F counts as an s and U+212A as a k, unknown ones are skipped, and of several the
  last one counts. \<open>None\<close> is an error.
\<close>

definition decNumber :: "'w::len word \<Rightarrow> json \<Rightarrow> 'w word option" where
  "decNumber old j =
     (case j of
        JNull \<Rightarrow> Some old
      | JInt n \<Rightarrow> if 0 \<le> n \<and> n < 2 ^ LENGTH('w) then Some (word_of_int n) else None
      | _ \<Rightarrow> None)"

definition decString :: "string \<Rightarrow> json \<Rightarrow> string option" where
  "decString old j = (case j of JNull \<Rightarrow> Some old | JStr s \<Rightarrow> Some s | _ \<Rightarrow> None)"

definition decBytes32 :: "bytes32 \<Rightarrow> json \<Rightarrow> bytes32 option" where
  "decBytes32 old j =
     (case j of
        JNull \<Rightarrow> Some old
      | JArr js \<Rightarrow> map_option goCommitment (those (map (\<lambda>(b, j). decNumber b j) (zip (bytes old) js)))
      | _ \<Rightarrow> None)"

definition lowerAscii :: "char \<Rightarrow> char" where
  "lowerAscii c = (if (65 :: nat) \<le> of_char c \<and> of_char c \<le> (90 :: nat) then char_of (of_char c + 32 :: nat) else c)"

fun foldSpecial :: "string \<Rightarrow> string" where
  "foldSpecial [] = []"
| "foldSpecial (c # cs) =
     (if c = CHR 0xC5 \<and> take 1 cs = [CHR 0xBF] then CHR ''s'' # foldSpecial (drop 1 cs)
      else if c = CHR 0xE2 \<and> take 2 cs = [CHR 0x84, CHR 0xAA] then CHR ''k'' # foldSpecial (drop 2 cs)
      else c # foldSpecial cs)"

definition foldName :: "string \<Rightarrow> string" where
  "foldName s = map lowerAscii (foldSpecial s)"

definition sameName :: "string \<Rightarrow> string \<Rightarrow> bool" where
  "sameName key name \<longleftrightarrow> foldName key = foldName name"

fun ofold :: "('s \<Rightarrow> 'x \<Rightarrow> 's option) \<Rightarrow> 's \<Rightarrow> 'x list \<Rightarrow> 's option" where
  "ofold f s [] = Some s"
| "ofold f s (x # xs) = Option.bind (f s x) (\<lambda>s'. ofold f s' xs)"

definition decStruct :: "('s \<Rightarrow> string \<times> json \<Rightarrow> 's option) \<Rightarrow> 's \<Rightarrow> json \<Rightarrow> 's option" where
  "decStruct member old j = (case j of JNull \<Rightarrow> Some old | JObj ms \<Rightarrow> ofold member old ms | _ \<Rightarrow> None)"

definition publicMember :: "PublicSectorInfo \<Rightarrow> string \<times> json \<Rightarrow> PublicSectorInfo option" where
  "publicMember p m =
     (case m of (k, j) \<Rightarrow>
        if sameName k ''SectorID'' then map_option (\<lambda>n. p\<lparr>pub_SectorID := n\<rparr>) (decNumber (pub_SectorID p) j)
        else if sameName k ''CommR'' then map_option (\<lambda>c. p\<lparr>pub_CommR := c\<rparr>) (decBytes32 (pub_CommR p) j)
        else Some p)"

definition privateMember :: "PrivateSectorInfo \<Rightarrow> string \<times> json \<Rightarrow> PrivateSectorInfo option" where
  "privateMember p m =
     (case m of (k, j) \<Rightarrow>
        if sameName k ''SectorID'' then map_option (\<lambda>n. p\<lparr>prv_SectorID := n\<rparr>) (decNumber (prv_SectorID p) j)
        else if sameName k ''CommR'' then map_option (\<lambda>c. p\<lparr>prv_CommR := c\<rparr>) (decBytes32 (prv_CommR p) j)
        else if sameName k ''CacheDirPath'' then map_option (\<lambda>s. p\<lparr>prv_CacheDirPath := s\<rparr>) (decString (prv_CacheDirPath p) j)
        else if sameName k ''SealedSectorPath'' then map_option (\<lambda>s. p\<lparr>prv_SealedSectorPath := s\<rparr>) (decString (prv_SealedSectorPath p) j)
        else Some p)"

definition zeroPublic :: PublicSectorInfo where
  "zeroPublic = \<lparr>pub_SectorID = 0, pub_CommR = zero32\<rparr>"

definition zeroPrivate :: PrivateSectorInfo where
  "zeroPrivate = \<lparr>prv_SectorID = 0, prv_CommR = zero32, prv_CacheDirPath = '''', prv_SealedSectorPath = ''''\<rparr>"

text \<open>\<open>json.Unmarshal\<close> into a nil slice.\<close>

definition decSlice :: "(json \<Rightarrow> 'a option) \<Rightarrow> json \<Rightarrow> 'a list option option" where
  "decSlice dec j =
     (case j of
        JNull \<Rightarrow> Some None
      | JArr js \<Rightarrow> map_option Some (those (map dec js))
      | _ \<Rightarrow> None)"

text \<open>\<open>UnmarshalJSON\<close> of a zero value.\<close>

definition publicUnmarshalJSON :: "json \<Rightarrow> SortedPublicSectorInfo option" where
  "publicUnmarshalJSON j = map_option (\<lambda>f. \<lparr>pub_f = f\<rparr>) (decSlice (decStruct publicMember zeroPublic) j)"

definition privateUnmarshalJSON :: "json \<Rightarrow> SortedPrivateSectorInfo option" where
  "privateUnmarshalJSON j = map_option (\<lambda>f. \<lparr>prv_f = f\<rparr>) (decSlice (decStruct privateMember zeroPrivate) j)"

section \<open>Round trips\<close>

lemma decNumber_uint [simp]: "decNumber old (JInt (uint w)) = Some w"
  for w :: "'w::len word"
  using unsigned_less [of w, where 'a = int] by (simp add: decNumber_def)

lemma those_inverse: "(\<And>x. dec (enc x) = Some (f x)) \<Longrightarrow> those (map (\<lambda>x. dec (enc x)) xs) = Some (map f xs)"
  by (induction xs) auto

lemma decBytes32_enc [simp]: "decBytes32 old (encBytes32 c) = Some c"
proof -
  have "those (map (\<lambda>(b, j). decNumber b j) (zip xs (map (\<lambda>b. JInt (uint b)) bs))) = Some bs"
    if "length xs = length bs" for xs bs :: "byte list"
    using that by (induction xs bs rule: list_induct2) simp_all
  from this [of "bytes old" "bytes c"] show ?thesis by (simp add: decBytes32_def encBytes32_def)
qed

lemma decSlice_enc:
  assumes "\<And>x. dec (enc x) = Some (f x)"
  shows "decSlice dec (encSlice enc xs) = Some (map_option (map f) xs)"
  using those_inverse [of dec enc, OF assms] by (cases xs) (simp_all add: encSlice_def decSlice_def o_def)

lemmas name_simps = sameName_def foldName_def lowerAscii_def

lemma decStruct_public: "decStruct publicMember zeroPublic (encPublic p) = Some p"
  by (simp add: decStruct_def encPublic_def publicMember_def name_simps)

text \<open>What a private info is after it was written and read.\<close>

definition coercePaths :: "PrivateSectorInfo \<Rightarrow> PrivateSectorInfo" where
  "coercePaths p = p\<lparr>prv_CacheDirPath := coerceUTF8 (prv_CacheDirPath p),
     prv_SealedSectorPath := coerceUTF8 (prv_SealedSectorPath p)\<rparr>"

lemma coercePaths_iff: "coercePaths p = p \<longleftrightarrow> validUTF8 (prv_CacheDirPath p) \<and> validUTF8 (prv_SealedSectorPath p)"
  unfolding coercePaths_def coerceUTF8_iff [symmetric] by (cases p) simp

lemma decStruct_private: "decStruct privateMember zeroPrivate (encPrivate p) = Some (coercePaths p)"
  by (cases p) (simp add: decStruct_def encPrivate_def privateMember_def name_simps decString_def coercePaths_def)

lemma map_fixed_iff: "map f xs = xs \<longleftrightarrow> (\<forall>x\<in>set xs. f x = x)"
  by (induction xs) auto

text \<open>
  C24: sorted infos and their JSON form. Public infos survive it, the nil slice included, and so does
  their order. Private infos come back in their order with their ids and commitments, but each byte of a
  path that is not part of a UTF-8 character has become U+FFFD: they survive exactly when all their
  paths are valid UTF-8. Reading sorts nothing, so the JSON form of unsorted infos gives unsorted infos.
\<close>

theorem sorted_info_json_roundtrip:
  "publicUnmarshalJSON (publicMarshalJSON s) = Some s \<and>
   privateUnmarshalJSON (privateMarshalJSON t) = Some \<lparr>prv_f = map_option (map coercePaths) (prv_f t)\<rparr> \<and>
   (privateUnmarshalJSON (privateMarshalJSON t) = Some t \<longleftrightarrow>
      (case prv_f t of
         None \<Rightarrow> True
       | Some ps \<Rightarrow> list_all (\<lambda>p. validUTF8 (prv_CacheDirPath p) \<and> validUTF8 (prv_SealedSectorPath p)) ps))"
proof -
  have "publicUnmarshalJSON (publicMarshalJSON s) = Some s"
    using decSlice_enc [of "decStruct publicMember zeroPublic" encPublic id "pub_f s"]
    by (simp add: publicUnmarshalJSON_def publicMarshalJSON_def decStruct_public option.map_id)
  moreover have prv: "privateUnmarshalJSON (privateMarshalJSON t) = Some \<lparr>prv_f = map_option (map coercePaths) (prv_f t)\<rparr>"
    using decSlice_enc [of "decStruct privateMember zeroPrivate" encPrivate coercePaths "prv_f t"]
    by (simp add: privateUnmarshalJSON_def privateMarshalJSON_def decStruct_private)
  moreover have "\<lparr>prv_f = map_option (map coercePaths) (prv_f t)\<rparr> = t \<longleftrightarrow> map_option (map coercePaths) (prv_f t) = prv_f t"
    by (cases t) simp
  ultimately show ?thesis
    by (cases "prv_f t") (simp_all add: map_fixed_iff coercePaths_iff list_all_iff)
qed

end
