(* ===== verification/WsThreads.thy ===== *)
theory WsThreads
  imports WsConn
begin

text \<open>
  The goroutines of one connection (\<open>src/main/rpc/websocket.go\<close>) and how they interleave: the loop of
  \<open>handleWsConn\<close>, one goroutine per call being handled, the goroutine that forwards channels and those
  that wait for a context. They share \<open>writeLK\<close>, the registration channel and the connection.
\<close>

section \<open>Goroutines\<close>

text \<open>
  Where a handler goroutine is: between two of the calls \<open>handle\<close> makes of its function arguments,
  inside \<open>nextWriter\<close> (it holds \<open>writeLK\<close>), or inside \<open>nextWriter\<close> and blocked in \<open>handleChanOut\<close> on the
  send to \<open>registerCh\<close>, with the id it drew and the channel.
\<close>

datatype phase = Between | Writing | Registering uint64 nat

record 'v thread =
  th_call :: "nat \<times> 'v request"
  th_acts :: "'v action list"
  th_end :: "go_panic option"
  th_phase :: phase

text \<open>The forwarding goroutine: not started, in \<open>reflect.Select\<close>, about to send a notification, returned.\<close>

datatype 'v outForwarder = FwNone | FwSelect outChans | FwSend outChans "'v request" | FwReturned

text \<open>
  The loop: in its \<open>select\<close>, waiting for \<open>writeLK\<close> to send a request or the close message, in the
  deferred functions, returned (\<open>exiting\<close> and \<open>registerCh\<close> closed), or blocked for ever.
\<close>

datatype 'v loopState = LpSelect | LpSend "'v request" | LpStop | LpCleanup | LpEnded | LpBlocked

datatype writer = ByHandler nat | ByForwarder | ByLoop | ByWatcher nat

text \<open>
  The state of all goroutines. \<open>writeLK\<close> holds the handler that has the lock; the other writers
  take it, write and release it in one step. \<open>sy_log\<close> records who wrote which message.
\<close>

record 'v connSys =
  sy_conn :: "'v wsConn"
  sy_writeLK :: "nat option"
  sy_threads :: "'v thread list"
  sy_forwarder :: "'v outForwarder"
  sy_loop :: "'v loopState"
  sy_fired :: "nat list"
  sy_log :: "(writer \<times> 'v wsMsg) list"
  sy_panic :: "go_panic option"

definition sys_init :: "'v connSys" where
  "sys_init = \<lparr>sy_conn = ws_init, sy_writeLK = None, sy_threads = [], sy_forwarder = FwNone,
     sy_loop = LpSelect, sy_fired = [], sy_log = [], sy_panic = None\<rparr>"

definition ended :: "'v connSys \<Rightarrow> bool" where
  "ended s = (case sy_loop s of LpEnded \<Rightarrow> True | _ \<Rightarrow> False)"

definition panics :: "go_panic \<Rightarrow> 'v connSys \<Rightarrow> 'v connSys" where
  "panics p s = s\<lparr>sy_panic := Some p\<rparr>"

definition setThread :: "nat \<Rightarrow> 'v thread \<Rightarrow> 'v connSys \<Rightarrow> 'v connSys" where
  "setThread n h s = s\<lparr>sy_threads := (sy_threads s)[n := h]\<rparr>"

section \<open>The handler goroutines\<close>

text \<open>\<open>go c.handler.handle(...)\<close> of \<open>handleCall\<close>.\<close>

definition newThread :: "('v, 'sc) env \<Rightarrow> 'v handlers \<Rightarrow> nat \<times> 'v request \<Rightarrow> 'v thread" where
  "newThread E hs g =
     (case handle E hs (fst g) (snd g) True of
        (as, p) \<Rightarrow> \<lparr>th_call = g, th_acts = as, th_end = p, th_phase = Between\<rparr>)"

text \<open>The channel a reply carries, the reply with the id in its place, and the message of a reply.\<close>

definition chanOf :: "'v action \<Rightarrow> nat option" where
  "chanOf a = (case a of Respond r \<Rightarrow> (case resp_Result r of GChan ch \<Rightarrow> Some ch | _ \<Rightarrow> None) | _ \<Rightarrow> None)"

definition withId :: "uint64 \<Rightarrow> 'v action \<Rightarrow> 'v action" where
  "withId i a = (case a of Respond r \<Rightarrow> Respond (r\<lparr>resp_Result := GUint i\<rparr>) | _ \<Rightarrow> a)"

definition replyMsg :: "('v, 'sc) env \<Rightarrow> 'v request \<Rightarrow> 'v action \<Rightarrow> 'v wsMsg" where
  "replyMsg E req a =
     (case a of
        RpcError code err \<Rightarrow> (case rpcErrorResponse req code err of None \<Rightarrow> EmptyMsg | Some resp \<Rightarrow> encoded E resp)
      | Respond resp \<Rightarrow> encoded E resp
      | _ \<Rightarrow> EmptyMsg)"

text \<open>
  The pieces of \<open>nextWriter\<close>: the lock, with the early return when no writer can be had (\<open>ok\<close> false);
  the end, which closes the writer and releases the lock.
\<close>

definition lockWriter :: "bool \<Rightarrow> nat \<Rightarrow> 'v thread \<Rightarrow> 'v action list \<Rightarrow> 'v connSys \<Rightarrow> 'v connSys option" where
  "lockWriter ok n h as s =
     (case sy_writeLK s of
        Some _ \<Rightarrow> None
      | None \<Rightarrow>
          Some (if ok then (setThread n (h\<lparr>th_phase := Writing\<rparr>) s)\<lparr>sy_writeLK := Some n\<rparr>
                else setThread n (h\<lparr>th_acts := as\<rparr>) s))"

definition finishWrite ::
  "bool \<Rightarrow> nat \<Rightarrow> 'v thread \<Rightarrow> 'v action list \<Rightarrow> 'v wsMsg \<Rightarrow> 'v connSys \<Rightarrow> 'v connSys" where
  "finishWrite ok n h as m s =
     (setThread n (h\<lparr>th_acts := as, th_phase := Between\<rparr>) s)
       \<lparr>sy_writeLK := None, sy_conn := nextWriter ok m (sy_conn s),
        sy_log := sy_log s @ (if ok then [(ByHandler n, m)] else [])\<rparr>"

text \<open>
  \<open>handleChanOut\<close>: it starts the forwarding goroutine the first time, draws an id, and sends the
  registration on the unbuffered channel: a panic once it is closed, and otherwise a rendezvous with
  the forwarding goroutine, possible only while that one selects.
\<close>

definition drawId :: "nat \<Rightarrow> 'v thread \<Rightarrow> nat \<Rightarrow> 'v connSys \<Rightarrow> 'v connSys" where
  "drawId n h ch s =
     (let i = ws_chanCtr (sy_conn s) + 1 in
      (setThread n (h\<lparr>th_phase := Registering i ch\<rparr>) s)
        \<lparr>sy_conn := (sy_conn s)\<lparr>ws_chanCtr := i\<rparr>,
         sy_forwarder := (case sy_forwarder s of
            FwNone \<Rightarrow> FwSelect \<lparr>oh_cases = [], oh_caseToID = []\<rparr> | f \<Rightarrow> f)\<rparr>)"

definition registerChan ::
  "nat \<Rightarrow> 'v thread \<Rightarrow> 'v action \<Rightarrow> 'v action list \<Rightarrow> uint64 \<Rightarrow> nat \<Rightarrow> 'v connSys \<Rightarrow> 'v connSys option" where
  "registerChan n h a as i ch s =
     (if ended s then Some (panics SendOnClosedChannel s)
      else case sy_forwarder s of
        FwSelect oc \<Rightarrow>
          (case outChansRound (Registered i ch :: 'v selected) oc of
             Inr (Some (oc', _)) \<Rightarrow>
               Some ((setThread n (h\<lparr>th_acts := withId i a # as, th_phase := Writing\<rparr>) s)
                 \<lparr>sy_forwarder := FwSelect oc',
                  sy_conn := (sy_conn s)\<lparr>ws_regs := ws_regs (sy_conn s) @ [(i, ch)]\<rparr>\<rparr>)
           | _ \<Rightarrow> None)
      | _ \<Rightarrow> None)"

text \<open>
  One step of handler goroutine \<open>n\<close>; none when it is blocked or has returned. Outside of
  \<open>nextWriter\<close> the goroutine runs the method or \<open>done\<close>, which take no lock another goroutine keeps.
\<close>

definition handlerStep :: "('v, 'sc) env \<Rightarrow> nat \<Rightarrow> bool \<Rightarrow> 'v connSys \<Rightarrow> 'v connSys option" where
  "handlerStep E n ok s =
     (if \<not> n < length (sy_threads s) then None
      else let h = sy_threads s ! n in
        case th_acts h of
          [] \<Rightarrow> map_option (\<lambda>p. panics p s) (th_end h)
        | a # as \<Rightarrow>
            (case th_phase h of
               Between \<Rightarrow>
                 if is_reply a then lockWriter ok n h as s
                 else (case wsAct E ok (ended s) (th_call h) a (sy_conn s) of
                         Next c \<Rightarrow> Some ((setThread n (h\<lparr>th_acts := as\<rparr>) s)\<lparr>sy_conn := c\<rparr>)
                       | Panic p \<Rightarrow> Some (panics p s)
                       | _ \<Rightarrow> None)
             | Writing \<Rightarrow>
                 (case chanOf a of
                    Some ch \<Rightarrow> Some (drawId n h ch s)
                  | None \<Rightarrow> Some (finishWrite ok n h as (replyMsg E (snd (th_call h)) a) s))
             | Registering i ch \<Rightarrow> registerChan n h a as i ch s))"

section \<open>The other goroutines\<close>

text \<open>\<open>sendRequest\<close> of a goroutine \<open>w\<close>: it waits for the lock; a failed write ends in a double unlock.\<close>

definition sendLocked :: "writer \<Rightarrow> bool \<Rightarrow> 'v request \<Rightarrow> 'v connSys \<Rightarrow> 'v connSys option" where
  "sendLocked w ok rq s =
     (case sy_writeLK s of
        Some _ \<Rightarrow> None
      | None \<Rightarrow>
          (case sendRequest ok rq (sy_conn s) of
             Next c \<Rightarrow> Some (s\<lparr>sy_conn := c, sy_log := sy_log s @ [(w, FrameMsg (frame_of_request rq))]\<rparr>)
           | Panic p \<Rightarrow> Some (panics p s)
           | _ \<Rightarrow> None))"

text \<open>
  \<open>handleOutChans\<close>: a round of its \<open>select\<close> on one of the forwarded channels or the closed control
  channel, and the send that follows. A registration is the step of the handler that sends it.
\<close>

definition forwarderSelect :: "'v selected \<Rightarrow> 'v connSys \<Rightarrow> 'v connSys option" where
  "forwarderSelect sel s =
     (case sy_forwarder s of
        FwSelect oc \<Rightarrow>
          if (case sel of Registered _ _ \<Rightarrow> False | ControlClosed \<Rightarrow> ended s
                | ChanClosed k \<Rightarrow> 0 < k \<and> k \<le> length (oh_cases oc)
                | ChanValue k v \<Rightarrow> 0 < k \<and> k \<le> length (oh_cases oc))
          then (case outChansRound sel oc of
                  Inl p \<Rightarrow> Some (panics p s)
                | Inr None \<Rightarrow> Some (s\<lparr>sy_forwarder := FwReturned\<rparr>)
                | Inr (Some (oc', None)) \<Rightarrow> Some (s\<lparr>sy_forwarder := FwSelect oc'\<rparr>)
                | Inr (Some (oc', Some rq)) \<Rightarrow> Some (s\<lparr>sy_forwarder := FwSend oc' rq\<rparr>))
          else None
      | _ \<Rightarrow> None)"

definition forwarderSend :: "bool \<Rightarrow> 'v connSys \<Rightarrow> 'v connSys option" where
  "forwarderSend ok s =
     (case sy_forwarder s of
        FwSend oc rq \<Rightarrow> map_option (\<lambda>t. t\<lparr>sy_forwarder := FwSelect oc\<rparr>) (sendLocked ByForwarder ok rq s)
      | _ \<Rightarrow> None)"

text \<open>\<open>handleCtxAsync\<close>: the \<open>k\<close>-th goroutine that waits for a context, once it is done.\<close>

definition watcherStep :: "(goint \<Rightarrow> 'v goval) \<Rightarrow> nat \<Rightarrow> bool \<Rightarrow> 'v connSys \<Rightarrow> 'v connSys option" where
  "watcherStep box k ok s =
     (if k < length (ws_watch (sy_conn s)) \<and> k \<notin> set (sy_fired s) then
        map_option (\<lambda>t. t\<lparr>sy_fired := k # sy_fired t\<rparr>)
          (sendLocked (ByWatcher k) ok (cancelRequest (box (snd (ws_watch (sy_conn s) ! k)))) s)
      else None)"

text \<open>
  The loop: an event of its \<open>select\<close>, up to the point where it needs \<open>writeLK\<close>; the write; and the
  deferred functions. A frame that starts a handler adds its goroutine.
\<close>

definition loopEvent ::
  "('v, 'sc) env \<Rightarrow> 'v handlers \<Rightarrow> 'v event \<Rightarrow> 'v connSys \<Rightarrow> 'v connSys option" where
  "loopEvent E hs ev s =
     (case sy_loop s of
        LpSelect \<Rightarrow>
          (case ev of
             Request q ok \<Rightarrow>
               Some (case req_ID (cq_req q) of
                       None \<Rightarrow> panics NilDereference s
                     | Some i \<Rightarrow> s\<lparr>sy_conn := (sy_conn s)\<lparr>ws_inflight := (ws_inflight (sy_conn s))(i \<mapsto> q)\<rparr>,
                         sy_loop := LpSend (cq_req q)\<rparr>)
           | Stop \<Rightarrow> Some (s\<lparr>sy_loop := LpStop\<rparr>)
           | _ \<Rightarrow>
               Some (case wsLoop ev (sy_conn s) of
                       Next c \<Rightarrow> s\<lparr>sy_conn := c, sy_threads := sy_threads s @
                         map (newThread E hs) (drop (length (ws_spawned (sy_conn s))) (ws_spawned c))\<rparr>
                     | Exit c \<Rightarrow> s\<lparr>sy_conn := c, sy_loop := LpCleanup\<rparr>
                     | Panic p \<Rightarrow> panics p s
                     | Block \<Rightarrow> s\<lparr>sy_loop := LpBlocked\<rparr>))
      | _ \<Rightarrow> None)"

definition loopWrite :: "bool \<Rightarrow> 'v connSys \<Rightarrow> 'v connSys option" where
  "loopWrite ok s =
     (case sy_loop s of
        LpSend rq \<Rightarrow> map_option (\<lambda>t. t\<lparr>sy_loop := LpSelect\<rparr>) (sendLocked ByLoop ok rq s)
      | LpStop \<Rightarrow>
          (case sy_writeLK s of
             Some _ \<Rightarrow> None
           | None \<Rightarrow> Some (s\<lparr>sy_conn := nextWriter ok CloseMsg (sy_conn s), sy_loop := LpCleanup,
                             sy_log := sy_log s @ (if ok then [(ByLoop, CloseMsg)] else [])\<rparr>))
      | _ \<Rightarrow> None)"

definition loopCleanup :: "(goint \<Rightarrow> goint) \<Rightarrow> nat list \<Rightarrow> goint list \<Rightarrow> 'v connSys \<Rightarrow> 'v connSys option" where
  "loopCleanup seen cs ids s =
     (case sy_loop s of
        LpCleanup \<Rightarrow>
          (case wsCleanup seen cs ids (sy_conn s) of
             Exit c \<Rightarrow> Some (s\<lparr>sy_conn := c, sy_loop := LpEnded\<rparr>)
           | Block \<Rightarrow> Some (s\<lparr>sy_loop := LpBlocked\<rparr>)
           | _ \<Rightarrow> None)
      | _ \<Rightarrow> None)"

section \<open>Runs\<close>

datatype 'v sysAct =
    HandlerAct nat bool
  | SelectAct "'v selected"
  | ForwardAct bool
  | WatcherAct "goint \<Rightarrow> 'v goval" nat bool
  | LoopEvent "'v event"
  | LoopWrite bool
  | LoopCleanup "goint \<Rightarrow> goint" "nat list" "goint list"

definition sysStep :: "('v, 'sc) env \<Rightarrow> 'v handlers \<Rightarrow> 'v sysAct \<Rightarrow> 'v connSys \<Rightarrow> 'v connSys option" where
  "sysStep E hs a s =
     (case a of
        HandlerAct n ok \<Rightarrow> handlerStep E n ok s
      | SelectAct sel \<Rightarrow> forwarderSelect sel s
      | ForwardAct ok \<Rightarrow> forwarderSend ok s
      | WatcherAct box k ok \<Rightarrow> watcherStep box k ok s
      | LoopEvent ev \<Rightarrow> loopEvent E hs ev s
      | LoopWrite ok \<Rightarrow> loopWrite ok s
      | LoopCleanup seen cs ids \<Rightarrow> loopCleanup seen cs ids s)"

text \<open>Whether every write of an act succeeds, and whether an act's orders of iteration fit the maps.\<close>

fun act_ok :: "'v sysAct \<Rightarrow> bool" where
  "act_ok (HandlerAct n ok) = ok"
| "act_ok (ForwardAct ok) = ok"
| "act_ok (WatcherAct box k ok) = ok"
| "act_ok (LoopWrite ok) = ok"
| "act_ok _ = True"

fun act_fits :: "'v sysAct \<Rightarrow> 'v connSys \<Rightarrow> bool" where
  "act_fits (LoopCleanup seen cs ids) s \<longleftrightarrow> distinct ids \<and> set ids = dom (ws_inflight (sy_conn s)) \<and>
     set cs = ran (ws_handling (sy_conn s))"
| "act_fits _ s \<longleftrightarrow> True"

text \<open>
  The step relation: any goroutine that can move may move, until one panics, which ends the
  program. With \<open>faults\<close> false, every write on the connection succeeds.
\<close>

inductive sys_step :: "('v, 'sc) env \<Rightarrow> 'v handlers \<Rightarrow> bool \<Rightarrow> 'v connSys \<Rightarrow> 'v connSys \<Rightarrow> bool"
  for E hs faults where
  act: "sy_panic s = None \<Longrightarrow> act_fits a s \<Longrightarrow> act_ok a \<or> faults \<Longrightarrow> sysStep E hs a s = Some t \<Longrightarrow>
    sys_step E hs faults s t"

inductive_cases sys_stepE: "sys_step E hs faults s t"

fun sysRun :: "('v, 'sc) env \<Rightarrow> 'v handlers \<Rightarrow> 'v sysAct list \<Rightarrow> 'v connSys \<Rightarrow> 'v connSys option" where
  "sysRun E hs [] s = Some s"
| "sysRun E hs (a # as) s =
     (if sy_panic s = None then Option.bind (sysStep E hs a s) (sysRun E hs as) else None)"

section \<open>The invariant\<close>

text \<open>
  The reference of a handler goroutine is \<open>handle\<close>: it invokes the method or not, replies with \<open>a\<close>
  and ends with \<open>Done\<close>. The message it writes is that of \<open>a\<close>, with a channel replaced by the id it was
  registered under.
\<close>

definition msgs_of :: "nat \<Rightarrow> 'v connSys \<Rightarrow> 'v wsMsg list" where
  "msgs_of n s = map snd (filter (\<lambda>e. fst e = ByHandler n) (sy_log s))"

definition resolved :: "'v wsConn \<Rightarrow> 'v action \<Rightarrow> 'v action \<Rightarrow> bool" where
  "resolved c a b \<longleftrightarrow>
     (case chanOf a of None \<Rightarrow> b = a | Some ch \<Rightarrow> \<exists>i. (i, ch) \<in> set (ws_regs c) \<and> b = withId i a)"

definition answered :: "('v, 'sc) env \<Rightarrow> bool \<Rightarrow> 'v connSys \<Rightarrow> nat \<Rightarrow> 'v request \<Rightarrow> 'v action \<Rightarrow> bool" where
  "answered E faults s n req a \<longleftrightarrow>
     (\<exists>b. resolved (sy_conn s) a b \<and> msgs_of n s = [replyMsg E req b]) \<or> faults \<and> msgs_of n s = []"

definition thread_shape ::
  "('v, 'sc) env \<Rightarrow> 'v handlers \<Rightarrow> 'v thread \<Rightarrow> 'v action list \<Rightarrow> 'v action \<Rightarrow> bool \<Rightarrow> bool" where
  "thread_shape E hs h bs a k \<longleftrightarrow> th_end h = None \<and>
     handle E hs (fst (th_call h)) (snd (th_call h)) True = (bs @ [a, Done k], None) \<and>
     (bs = [] \<or> (\<exists>args. bs = [Invoke args])) \<and> is_reply a \<and>
     (\<exists>i. req_ID (snd (th_call h)) = Some i \<and> (\<forall>r. a = Respond r \<longrightarrow> resp_ID r = i))"

definition thread_at ::
  "('v, 'sc) env \<Rightarrow> bool \<Rightarrow> 'v connSys \<Rightarrow> nat \<Rightarrow> 'v thread \<Rightarrow> 'v action list \<Rightarrow> 'v action \<Rightarrow> bool \<Rightarrow> bool" where
  "thread_at E faults s n h bs a k \<longleftrightarrow>
     (case th_phase h of
        Between \<Rightarrow> sy_writeLK s \<noteq> Some n \<and>
          (th_acts h \<in> {bs @ [a, Done k], [a, Done k]} \<and> msgs_of n s = [] \<or>
           th_acts h \<in> {[Done k], []} \<and> answered E faults s n (snd (th_call h)) a)
      | Writing \<Rightarrow> sy_writeLK s = Some n \<and> msgs_of n s = [] \<and>
          (\<exists>b. th_acts h = [b, Done k] \<and> (b = a \<or> resolved (sy_conn s) a b))
      | Registering i ch \<Rightarrow> sy_writeLK s = Some n \<and> msgs_of n s = [] \<and> th_acts h = [a, Done k] \<and>
          chanOf a = Some ch \<and> sy_forwarder s \<noteq> FwNone)"

definition sys_inv :: "('v, 'sc) env \<Rightarrow> 'v handlers \<Rightarrow> bool \<Rightarrow> 'v connSys \<Rightarrow> bool" where
  "sys_inv E hs faults s \<longleftrightarrow> wf_handlers hs \<and>
     (\<forall>n<length (sy_threads s). \<exists>bs a k. thread_shape E hs (sy_threads s ! n) bs a k \<and>
        thread_at E faults s n (sy_threads s ! n) bs a k) \<and>
     (\<forall>n. sy_writeLK s = Some n \<longrightarrow> n < length (sy_threads s)) \<and>
     (\<forall>n\<ge>length (sy_threads s). msgs_of n s = []) \<and>
     ws_sent (sy_conn s) = map snd (sy_log s) \<and>
     (sy_forwarder s = FwReturned \<longrightarrow> ended s)"

lemma chanOf_withId [simp]: "chanOf (withId i a) = None"
  by (cases a) (simp_all add: chanOf_def withId_def)

lemma is_reply_withId [simp]: "is_reply (withId i a) = is_reply a"
  by (cases a) (auto simp: withId_def)

lemma resolved_mono: "resolved c a b \<Longrightarrow> set (ws_regs c) \<subseteq> set (ws_regs d) \<Longrightarrow> resolved d a b"
  by (auto simp: resolved_def split: option.splits)

lemma resolved_chanOf [simp]: "resolved c a b \<Longrightarrow> chanOf b = None"
  by (auto simp: resolved_def split: option.splits)

lemma resolved_is_reply: "resolved c a b \<Longrightarrow> is_reply b = is_reply a"
  unfolding resolved_def by (cases "chanOf a") (simp_all, metis is_reply_withId)

lemma resolved_self: "chanOf a = None \<Longrightarrow> resolved c a a"
  by (simp add: resolved_def)

text \<open>The part of the state a goroutine's own position depends on.\<close>

definition unmoved :: "nat \<Rightarrow> 'v connSys \<Rightarrow> 'v connSys \<Rightarrow> bool" where
  "unmoved m s t \<longleftrightarrow> msgs_of m t = msgs_of m s \<and> (sy_writeLK t = Some m \<longleftrightarrow> sy_writeLK s = Some m)"

definition grows :: "'v connSys \<Rightarrow> 'v connSys \<Rightarrow> bool" where
  "grows s t \<longleftrightarrow> set (ws_regs (sy_conn s)) \<subseteq> set (ws_regs (sy_conn t)) \<and>
     (sy_forwarder t = FwNone \<longrightarrow> sy_forwarder s = FwNone)"

lemma thread_at_mono:
  assumes "thread_at E faults s m h bs a k" "unmoved m s t" "grows s t"
  shows "thread_at E faults t m h bs a k"
  using assms resolved_mono [of "sy_conn s" a _ "sy_conn t"]
  by (auto simp: thread_at_def unmoved_def grows_def answered_def split: phase.splits)

lemma sys_inv_setThread:
  assumes "sys_inv E hs faults s" "n < length (sy_threads s)" "sy_threads t = (sy_threads s)[n := h]"
    and "th_call h = th_call (sy_threads s ! n)" "th_end h = th_end (sy_threads s ! n)"
    and "\<And>bs a k. thread_shape E hs (sy_threads s ! n) bs a k \<Longrightarrow>
           thread_at E faults s n (sy_threads s ! n) bs a k \<Longrightarrow> thread_at E faults t n h bs a k"
    and "\<And>m. m \<noteq> n \<Longrightarrow> unmoved m s t" "grows s t"
    and "ws_sent (sy_conn t) = map snd (sy_log t)" "sy_forwarder t = FwReturned \<longrightarrow> ended t"
  shows "sys_inv E hs faults t"
proof -
  have "\<exists>bs a k. thread_shape E hs (sy_threads t ! m) bs a k \<and> thread_at E faults t m (sy_threads t ! m) bs a k"
    if m: "m < length (sy_threads t)" for m
  proof -
    from m assms(1,3) obtain bs a k where old: "thread_shape E hs (sy_threads s ! m) bs a k"
      "thread_at E faults s m (sy_threads s ! m) bs a k" by (auto simp: sys_inv_def)
    show ?thesis
    proof (cases "m = n")
      case True
      with old assms(2-6) have "thread_shape E hs h bs a k" "thread_at E faults t n h bs a k"
        by (auto simp: thread_shape_def)
      with True assms(2,3) show ?thesis by auto
    next
      case False
      with thread_at_mono [OF old(2) assms(7) assms(8)] old(1) assms(3) show ?thesis by auto
    qed
  qed
  moreover have "m < length (sy_threads t)" if "sy_writeLK t = Some m" for m
    using that assms(1-3) assms(7) [of m] by (cases "m = n") (auto simp: sys_inv_def unmoved_def)
  moreover have "msgs_of m t = []" if "length (sy_threads t) \<le> m" for m
    using that assms(1-3) assms(7) [of m] by (cases "m = n") (auto simp: sys_inv_def unmoved_def)
  ultimately show ?thesis using assms(1,9,10) by (simp add: sys_inv_def)
qed

text \<open>Steps of the other goroutines leave the handlers where they are, and may start new ones.\<close>

lemma sys_inv_frame:
  assumes "sys_inv E hs faults s" "sy_threads t = sy_threads s @ map (newThread E hs) gs"
    and "\<forall>g\<in>set gs. req_ID (snd g) \<noteq> None" "\<And>m. unmoved m s t" "grows s t"
    and "ws_sent (sy_conn t) = map snd (sy_log t)" "sy_forwarder t = FwReturned \<longrightarrow> ended t"
  shows "sys_inv E hs faults t"
proof -
  have "\<exists>bs a k. thread_shape E hs (sy_threads t ! m) bs a k \<and> thread_at E faults t m (sy_threads t ! m) bs a k"
    if m: "m < length (sy_threads t)" for m
  proof (cases "m < length (sy_threads s)")
    case True
    with assms(1) obtain bs a k where old: "thread_shape E hs (sy_threads s ! m) bs a k"
      "thread_at E faults s m (sy_threads s ! m) bs a k" by (auto simp: sys_inv_def)
    with thread_at_mono [OF old(2) assms(4,5)] True assms(2) show ?thesis by (auto simp: nth_append)
  next
    case False
    define g where "g = gs ! (m - length (sy_threads s))"
    from False m assms(2) have g: "sy_threads t ! m = newThread E hs g" "g \<in> set gs"
      by (auto simp: nth_append g_def)
    with assms(3) obtain i where i: "req_ID (snd g) = Some i" by auto
    from handle_shape [OF _ i, of hs E "fst g" True] assms(1) obtain bs a k where
      h: "handle E hs (fst g) (snd g) True = (bs @ [a, Done k], None)"
        "bs = [] \<or> (\<exists>args. bs = [Invoke args])" "is_reply a" "\<forall>r. a = Respond r \<longrightarrow> resp_ID r = i"
      by (auto simp: sys_inv_def)
    from False assms(1) assms(4) [of m] have "sy_writeLK t \<noteq> Some m" "msgs_of m t = []"
      by (auto simp: sys_inv_def unmoved_def)
    with h i have "thread_shape E hs (newThread E hs g) bs a k \<and> thread_at E faults t m (newThread E hs g) bs a k"
      by (simp add: thread_shape_def thread_at_def newThread_def)
    with g show ?thesis by auto
  qed
  moreover have "m < length (sy_threads t)" if "sy_writeLK t = Some m" for m
    using that assms(1,2) assms(4) [of m] by (auto simp: sys_inv_def unmoved_def)
  moreover have "msgs_of m t = []" if "length (sy_threads t) \<le> m" for m
    using that assms(1,2) assms(4) [of m] by (auto simp: sys_inv_def unmoved_def)
  ultimately show ?thesis using assms(1,6,7) by (simp add: sys_inv_def)
qed

text \<open>What a frame, a cleanup and \<open>done\<close> leave alone.\<close>

lemma handleFrame_frame:
  assumes "handleFrame fr c = Next c'"
  shows "ws_sent c' = ws_sent c \<and> ws_regs c' = ws_regs c \<and> ws_chanCtr c' = ws_chanCtr c \<and>
    (\<exists>gs. ws_spawned c' = ws_spawned c @ gs \<and> (\<forall>g\<in>set gs. req_ID (snd g) \<noteq> None))"
proof -
  have d: "deliver i q fr c0 = Next c' \<Longrightarrow> ws_sent c' = ws_sent c0 \<and> ws_regs c' = ws_regs c0 \<and>
      ws_chanCtr c' = ws_chanCtr c0 \<and> ws_spawned c' = ws_spawned c0" for i q c0
    by (auto simp: deliver_def split: option.splits)
  have "handleResponse fr c = Next c' \<Longrightarrow> ?thesis"
    by (auto simp: handleResponse_def split: option.splits dest!: d)
  moreover have "cancelCtx fr c = Next c' \<Longrightarrow> ?thesis" "handleChanMessage fr c = Next c' \<Longrightarrow> ?thesis"
    "handleChanClose fr c = Next c' \<Longrightarrow> ?thesis"
    by (auto simp: cancelCtx_def handleChanMessage_def handleChanClose_def Let_def
        split: list.splits option.splits)
  moreover have "handleCall fr c = Next c' \<Longrightarrow> ?thesis"
    by (auto simp: handleCall_def Let_def request_of_frame_def split: option.splits)
  ultimately show ?thesis using assms by (auto simp: handleFrame_def split: if_splits)
qed

lemma wsCleanup_frame:
  "wsCleanup seen cs ids c = Exit c' \<Longrightarrow>
   ws_sent c' = ws_sent c \<and> ws_regs c' = ws_regs c \<and> ws_chanCtr c' = ws_chanCtr c"
  by (induction ids arbitrary: c) (auto split: option.splits)

lemma wsAct_frame:
  "\<not> is_reply a \<Longrightarrow> wsAct E ok e g a c = Next c' \<Longrightarrow>
   ws_sent c' = ws_sent c \<and> ws_regs c' = ws_regs c \<and> ws_chanCtr c' = ws_chanCtr c"
  by (cases a) (auto simp: wsAct_def split: if_splits option.splits)

lemma grows_same: "ws_regs (sy_conn t) = ws_regs (sy_conn s) \<Longrightarrow> sy_forwarder t = sy_forwarder s \<Longrightarrow> grows s t"
  by (simp add: grows_def)

text \<open>Each kind of step keeps the invariant.\<close>

lemma inv_panics [simp]: "sys_inv E hs faults (panics p s) = sys_inv E hs faults s"
  by (simp add: sys_inv_def panics_def thread_at_def msgs_of_def answered_def ended_def
      cong: phase.case_cong)

lemma inv_thread:
  assumes "sys_inv E hs faults s" "n < length (sy_threads s)"
  obtains bs a k where "thread_shape E hs (sy_threads s ! n) bs a k"
    "thread_at E faults s n (sy_threads s ! n) bs a k"
  using assms by (auto simp: sys_inv_def)

lemma inv_lockWriter:
  assumes "sys_inv E hs faults s" "n < length (sy_threads s)" "h = sy_threads s ! n"
    and "th_acts h = a # as" "th_phase h = Between" "is_reply a" "lockWriter ok n h as s = Some t" "ok \<or> faults"
  shows "sys_inv E hs faults t"
proof -
  from assms(7) have lk: "sy_writeLK s = None" by (auto simp: lockWriter_def split: option.splits)
  define h' where "h' = (if ok then h\<lparr>th_phase := Writing\<rparr> else h\<lparr>th_acts := as\<rparr>)"
  have t: "t = (setThread n h' s)\<lparr>sy_writeLK := if ok then Some n else None\<rparr>"
    using assms(7) lk by (cases s) (auto simp: lockWriter_def h'_def setThread_def split: if_splits)
  show ?thesis
  proof (rule sys_inv_setThread [OF assms(1,2), where h = h'])
    fix bs b k assume "thread_shape E hs (sy_threads s ! n) bs b k" "thread_at E faults s n (sy_threads s ! n) bs b k"
    then have "as = [Done k]" "a = b" "msgs_of n s = []"
      using assms(3-6) by (auto simp: thread_at_def thread_shape_def)
    then show "thread_at E faults t n h' bs b k"
      using assms(3-5,8) lk
      by (auto simp: t h'_def thread_at_def setThread_def msgs_of_def answered_def)
  next
    show "ws_sent (sy_conn t) = map snd (sy_log t)" "sy_forwarder t = FwReturned \<longrightarrow> ended t"
      using assms(1) by (auto simp: t sys_inv_def setThread_def ended_def)
  qed (use assms(3) lk in \<open>auto simp: t h'_def setThread_def unmoved_def msgs_of_def grows_def\<close>)
qed

lemma inv_finishWrite:
  assumes "sys_inv E hs faults s" "n < length (sy_threads s)" "h = sy_threads s ! n"
    and "th_acts h = a # as" "th_phase h = Writing" "chanOf a = None" "ok \<or> faults"
    and "t = finishWrite ok n h as (replyMsg E (snd (th_call h)) a) s"
  shows "sys_inv E hs faults t"
proof (rule sys_inv_setThread [OF assms(1,2), where h = "h\<lparr>th_acts := as, th_phase := Between\<rparr>"])
  fix bs b k assume "thread_shape E hs (sy_threads s ! n) bs b k" "thread_at E faults s n (sy_threads s ! n) bs b k"
  then have "as = [Done k]" "a = b \<or> resolved (sy_conn s) b a" "msgs_of n s = []" "sy_writeLK s = Some n"
    using assms(3-5) by (auto simp: thread_at_def)
  moreover from this have "resolved (sy_conn s) b a" using assms(6) resolved_self by blast
  then have "resolved (sy_conn t) b a"
    by (rule resolved_mono) (simp add: assms(8) finishWrite_def nextWriter_def)
  moreover have "msgs_of n t = msgs_of n s @ (if ok then [replyMsg E (snd (th_call h)) a] else [])" "sy_writeLK t = None"
    by (simp_all add: assms(8) finishWrite_def msgs_of_def setThread_def)
  ultimately show "thread_at E faults t n (h\<lparr>th_acts := as, th_phase := Between\<rparr>) bs b k"
    using assms(7) unfolding thread_at_def answered_def by (cases ok) (simp_all, blast)
next
  from assms(1,2,3,5) have lk: "sy_writeLK s = Some n" by (auto elim!: inv_thread simp: thread_at_def)
  show "unmoved m s t" if "m \<noteq> n" for m
    using that lk by (simp add: assms(8) finishWrite_def unmoved_def msgs_of_def setThread_def)
  show "ws_sent (sy_conn t) = map snd (sy_log t)" "sy_forwarder t = FwReturned \<longrightarrow> ended t"
    using assms(1) by (auto simp: assms(8) finishWrite_def sys_inv_def setThread_def ended_def nextWriter_def)
qed (simp_all add: assms(3,8) finishWrite_def setThread_def grows_def nextWriter_def)

lemma inv_drawId:
  assumes "sys_inv E hs faults s" "n < length (sy_threads s)" "h = sy_threads s ! n"
    and "th_acts h = a # as" "th_phase h = Writing" "chanOf a = Some ch" "t = drawId n h ch s"
  shows "sys_inv E hs faults t"
proof (rule sys_inv_setThread [OF assms(1,2), where h = "h\<lparr>th_phase := Registering (ws_chanCtr (sy_conn s) + 1) ch\<rparr>"])
  have t: "msgs_of m t = msgs_of m s" "sy_writeLK t = sy_writeLK s" "sy_forwarder t \<noteq> FwNone" for m
    by (simp_all add: assms(7) drawId_def msgs_of_def setThread_def Let_def split: outForwarder.split)
  fix bs b k assume "thread_shape E hs (sy_threads s ! n) bs b k" "thread_at E faults s n (sy_threads s ! n) bs b k"
  then have "as = [Done k]" "a = b \<or> resolved (sy_conn s) b a" "msgs_of n s = []" "sy_writeLK s = Some n"
    using assms(3-5) by (auto simp: thread_at_def)
  moreover from this have "a = b" using assms(6) by auto
  ultimately show "thread_at E faults t n (h\<lparr>th_phase := Registering (ws_chanCtr (sy_conn s) + 1) ch\<rparr>) bs b k"
    using assms(4,6) t by (simp add: thread_at_def)
next
  show "ws_sent (sy_conn t) = map snd (sy_log t)" "sy_forwarder t = FwReturned \<longrightarrow> ended t"
    using assms(1) by (auto simp: assms(7) drawId_def sys_inv_def setThread_def ended_def Let_def split: outForwarder.splits)
qed (simp_all add: assms(3,7) drawId_def setThread_def grows_def Let_def unmoved_def msgs_of_def
    split: outForwarder.splits)

lemma registerChan_cases:
  assumes "registerChan n h a as i ch s = Some t"
  obtains "ended s" "t = panics SendOnClosedChannel s"
  | oc where "\<not> ended s" "sy_forwarder s = FwSelect oc"
      "t = (setThread n (h\<lparr>th_acts := withId i a # as, th_phase := Writing\<rparr>) s)
        \<lparr>sy_forwarder := FwSelect \<lparr>oh_cases = oh_cases oc @ [ch], oh_caseToID = oh_caseToID oc @ [i]\<rparr>,
         sy_conn := (sy_conn s)\<lparr>ws_regs := ws_regs (sy_conn s) @ [(i, ch)]\<rparr>\<rparr>"
proof (cases "ended s")
  case True
  with assms that(1) show thesis by (simp add: registerChan_def)
next
  case False
  with assms obtain oc where "sy_forwarder s = FwSelect oc"
    by (auto simp: registerChan_def split: outForwarder.splits)
  with False assms that(2) show thesis by (simp add: registerChan_def outChansRound_def)
qed

lemma inv_registerChan:
  assumes "sys_inv E hs faults s" "n < length (sy_threads s)" "h = sy_threads s ! n"
    and "th_acts h = a # as" "th_phase h = Registering i ch" "registerChan n h a as i ch s = Some t"
  shows "sys_inv E hs faults t"
  using assms(6)
proof (cases rule: registerChan_cases)
  case (2 oc)
  show ?thesis
  proof (rule sys_inv_setThread [OF assms(1,2), where h = "h\<lparr>th_acts := withId i a # as, th_phase := Writing\<rparr>"])
    fix bs b k assume "thread_shape E hs (sy_threads s ! n) bs b k" "thread_at E faults s n (sy_threads s ! n) bs b k"
    then have "as = [Done k]" "a = b" "msgs_of n s = []" "sy_writeLK s = Some n" "chanOf b = Some ch"
      using assms(3-5) by (auto simp: thread_at_def)
    then show "thread_at E faults t n (h\<lparr>th_acts := withId i a # as, th_phase := Writing\<rparr>) bs b k"
      by (auto simp: 2 thread_at_def setThread_def msgs_of_def resolved_def)
  next
    show "ws_sent (sy_conn t) = map snd (sy_log t)" "sy_forwarder t = FwReturned \<longrightarrow> ended t"
      using assms(1) by (auto simp: 2 sys_inv_def setThread_def)
  qed (auto simp: assms(3) 2 setThread_def grows_def unmoved_def msgs_of_def)
qed (use assms(1) in simp)

lemma inv_local:
  assumes "sys_inv E hs faults s" "n < length (sy_threads s)" "h = sy_threads s ! n"
    and "th_acts h = a # as" "th_phase h = Between" "\<not> is_reply a" "wsAct E ok e (th_call h) a (sy_conn s) = Next c"
    and "t = (setThread n (h\<lparr>th_acts := as\<rparr>) s)\<lparr>sy_conn := c\<rparr>"
  shows "sys_inv E hs faults t"
proof (rule sys_inv_setThread [OF assms(1,2), where h = "h\<lparr>th_acts := as\<rparr>"])
  note c = wsAct_frame [OF assms(6,7)]
  have t: "msgs_of m t = msgs_of m s" "sy_writeLK t = sy_writeLK s" "ws_regs (sy_conn t) = ws_regs (sy_conn s)" for m
    using c by (simp_all add: assms(8) msgs_of_def setThread_def)
  then have ans: "answered E faults t n q b = answered E faults s n q b" for q b
    by (simp add: answered_def resolved_def cong: option.case_cong)
  fix bs b k assume "thread_shape E hs (sy_threads s ! n) bs b k" "thread_at E faults s n (sy_threads s ! n) bs b k"
  moreover from this have "as = [b, Done k] \<or> as = []"
    using assms(3-6) by (auto simp: thread_shape_def thread_at_def)
  ultimately show "thread_at E faults t n (h\<lparr>th_acts := as\<rparr>) bs b k"
    using assms(3-6) t ans by (auto simp: thread_shape_def thread_at_def)
next
  show "ws_sent (sy_conn t) = map snd (sy_log t)" "sy_forwarder t = FwReturned \<longrightarrow> ended t"
    using assms(1) wsAct_frame [OF assms(6,7)] by (auto simp: assms(8) sys_inv_def setThread_def ended_def)
  show "grows s t" using wsAct_frame [OF assms(6,7)] by (simp add: assms(8) grows_def setThread_def)
qed (simp_all add: assms(3,8) setThread_def unmoved_def msgs_of_def)

text \<open>The cases of a handler's step.\<close>

lemma handlerStep_cases:
  assumes "handlerStep E n ok s = Some t"
  obtains p where "th_end (sy_threads s ! n) = Some p" "t = panics p s" "n < length (sy_threads s)"
  | h a as where "n < length (sy_threads s)" "h = sy_threads s ! n" "th_acts h = a # as" "th_phase h = Between"
      "is_reply a" "lockWriter ok n h as s = Some t"
  | h a as c where "n < length (sy_threads s)" "h = sy_threads s ! n" "th_acts h = a # as" "th_phase h = Between"
      "\<not> is_reply a" "wsAct E ok (ended s) (th_call h) a (sy_conn s) = Next c"
      "t = (setThread n (h\<lparr>th_acts := as\<rparr>) s)\<lparr>sy_conn := c\<rparr>"
  | h a as p where "n < length (sy_threads s)" "h = sy_threads s ! n" "th_acts h = a # as" "th_phase h = Between"
      "\<not> is_reply a" "wsAct E ok (ended s) (th_call h) a (sy_conn s) = Panic p" "t = panics p s"
  | h a as ch where "n < length (sy_threads s)" "h = sy_threads s ! n" "th_acts h = a # as" "th_phase h = Writing"
      "chanOf a = Some ch" "t = drawId n h ch s"
  | h a as where "n < length (sy_threads s)" "h = sy_threads s ! n" "th_acts h = a # as" "th_phase h = Writing"
      "chanOf a = None" "t = finishWrite ok n h as (replyMsg E (snd (th_call h)) a) s"
  | h a as i ch where "n < length (sy_threads s)" "h = sy_threads s ! n" "th_acts h = a # as"
      "th_phase h = Registering i ch" "registerChan n h a as i ch s = Some t"
proof -
  from assms have n: "n < length (sy_threads s)" by (auto simp: handlerStep_def split: if_splits)
  define h where "h = sy_threads s ! n"
  note step = assms [unfolded handlerStep_def, folded h_def]
  show thesis
  proof (cases "th_acts h")
    case Nil
    with step n that(1) show thesis by (auto simp: h_def)
  next
    case (Cons a as)
    show thesis
    proof (cases "th_phase h")
      case Between
      with Cons step n show thesis
        using that(2-4) [OF n h_def Cons Between] by (auto split: if_splits flow.splits)
    next
      case Writing
      with Cons step n show thesis using that(5,6) [OF n h_def Cons Writing] by (auto split: option.splits)
    next
      case (Registering i ch)
      with Cons step n show thesis using that(7) [OF n h_def Cons Registering] by auto
    qed
  qed
qed

lemma inv_handlerStep:
  assumes "sys_inv E hs faults s" "handlerStep E n ok s = Some t" "ok \<or> faults"
  shows "sys_inv E hs faults t"
  using assms(2)
proof (cases rule: handlerStep_cases)
  case 2
  then show ?thesis using inv_lockWriter [OF assms(1)] assms(3) by blast
next
  case 3
  then show ?thesis using inv_local [OF assms(1)] by blast
next
  case 5
  then show ?thesis using inv_drawId [OF assms(1)] by blast
next
  case 6
  then show ?thesis using inv_finishWrite [OF assms(1)] assms(3) by blast
next
  case 7
  then show ?thesis using inv_registerChan [OF assms(1)] by blast
qed (use assms(1) in simp_all)

lemma sys_inv_quiet:
  assumes "sys_inv E hs faults s" "sy_threads t = sy_threads s" "sy_writeLK t = sy_writeLK s"
    and "\<And>m. msgs_of m t = msgs_of m s" "ws_regs (sy_conn t) = ws_regs (sy_conn s)"
    and "sy_forwarder t = FwNone \<longrightarrow> sy_forwarder s = FwNone"
    and "ws_sent (sy_conn t) = map snd (sy_log t)" "sy_forwarder t = FwReturned \<longrightarrow> ended t"
  shows "sys_inv E hs faults t"
  by (rule sys_inv_frame [OF assms(1), where gs = "[]"])
    (use assms(2-8) in \<open>simp_all add: unmoved_def grows_def\<close>)

lemma sendLocked_cases:
  assumes "sendLocked w ok rq s = Some t"
  obtains c m where "sy_writeLK s = None" "c = (sy_conn s)\<lparr>ws_sent := ws_sent (sy_conn s) @ [m]\<rparr>"
      "t = s\<lparr>sy_conn := c, sy_log := sy_log s @ [(w, m)]\<rparr>"
  | p where "sy_writeLK s = None" "t = panics p s"
  using assms by (auto simp: sendLocked_def sendRequest_def split: option.splits if_splits)

lemma inv_sendLocked:
  assumes "sys_inv E hs faults s" "sendLocked w ok rq s = Some t" "\<forall>n. w \<noteq> ByHandler n"
  shows "sys_inv E hs faults t"
  using assms(2)
proof (cases rule: sendLocked_cases)
  case 1
  with assms(1,3) show ?thesis
    by (intro sys_inv_quiet [OF assms(1)]) (auto simp: msgs_of_def sys_inv_def ended_def)
qed (use assms(1) in simp)

lemma sendLocked_frame:
  "sendLocked w ok rq s = Some t \<Longrightarrow> sy_forwarder t = sy_forwarder s \<and> sy_loop t = sy_loop s \<and>
   sy_threads t = sy_threads s \<and> sy_writeLK s = None \<and> ws_regs (sy_conn t) = ws_regs (sy_conn s) \<and>
   ws_chanCtr (sy_conn t) = ws_chanCtr (sy_conn s) \<and> sy_writeLK t = None"
  by (erule sendLocked_cases) (auto simp: panics_def)

lemma outChansRound_None: "outChansRound sel oc = Inr None \<longleftrightarrow> sel = ControlClosed"
  by (cases sel) (auto simp: outChansRound_def Let_def gbind_Inr_iff)

lemma inv_forwarderSelect:
  assumes "sys_inv E hs faults s" "forwarderSelect sel s = Some t"
  shows "sys_inv E hs faults t"
proof -
  from assms(2) obtain oc where oc: "sy_forwarder s = FwSelect oc"
    by (auto simp: forwarderSelect_def split: outForwarder.splits)
  from assms(2) oc have "(\<exists>p. t = panics p s) \<or> (\<exists>f. t = s\<lparr>sy_forwarder := f\<rparr> \<and> f \<noteq> FwNone \<and> (f = FwReturned \<longrightarrow> ended s))"
    by (cases "outChansRound sel oc") (auto simp: forwarderSelect_def outChansRound_None split: if_splits option.splits selected.splits)
  then show ?thesis
  proof (elim disjE exE conjE)
    fix f assume "t = s\<lparr>sy_forwarder := f\<rparr>" "f \<noteq> FwNone" "f = FwReturned \<longrightarrow> ended s"
    with assms(1) show ?thesis
      by (intro sys_inv_quiet [OF assms(1)]) (auto simp: msgs_of_def sys_inv_def ended_def)
  qed (use assms(1) in simp)
qed

lemma inv_forwarderSend:
  assumes "sys_inv E hs faults s" "forwarderSend ok s = Some t"
  shows "sys_inv E hs faults t"
proof -
  from assms(2) obtain oc rq u where u: "sendLocked ByForwarder ok rq s = Some u" "t = u\<lparr>sy_forwarder := FwSelect oc\<rparr>"
    "sy_forwarder s = FwSend oc rq"
    by (auto simp: forwarderSend_def split: outForwarder.splits)
  have "sys_inv E hs faults u" using inv_sendLocked [OF assms(1) u(1)] by simp
  then show ?thesis
    by (rule sys_inv_quiet) (use u sendLocked_frame [OF u(1)] \<open>sys_inv E hs faults u\<close> in \<open>auto simp: msgs_of_def sys_inv_def\<close>)
qed

lemma inv_watcherStep:
  assumes "sys_inv E hs faults s" "watcherStep box k ok s = Some t"
  shows "sys_inv E hs faults t"
proof -
  from assms(2) obtain rq u where u: "sendLocked (ByWatcher k) ok rq s = Some u" "t = u\<lparr>sy_fired := k # sy_fired u\<rparr>"
    by (auto simp: watcherStep_def split: if_splits)
  have "sys_inv E hs faults u" using inv_sendLocked [OF assms(1) u(1)] by simp
  then show ?thesis
    by (rule sys_inv_quiet) (use u \<open>sys_inv E hs faults u\<close> in \<open>auto simp: msgs_of_def sys_inv_def ended_def\<close>)
qed

lemma inv_loopWrite:
  assumes "sys_inv E hs faults s" "loopWrite ok s = Some t"
  shows "sys_inv E hs faults t"
proof (cases "sy_loop s")
  case (LpSend rq)
  with assms(2) obtain u where u: "sendLocked ByLoop ok rq s = Some u" "t = u\<lparr>sy_loop := LpSelect\<rparr>"
    by (auto simp: loopWrite_def)
  have inv: "sys_inv E hs faults u" using inv_sendLocked [OF assms(1) u(1)] by simp
  have "sy_forwarder u \<noteq> FwReturned"
    using assms(1) LpSend sendLocked_frame [OF u(1)] by (auto simp: sys_inv_def ended_def)
  with inv u show ?thesis
    by (intro sys_inv_quiet [OF inv]) (auto simp: msgs_of_def sys_inv_def)
next
  case LpStop
  with assms show ?thesis
    by (intro sys_inv_quiet [OF assms(1)])
      (auto simp: loopWrite_def nextWriter_def msgs_of_def sys_inv_def ended_def split: option.splits)
qed (use assms(2) in \<open>simp_all add: loopWrite_def\<close>)

lemma inv_loopCleanup:
  assumes "sys_inv E hs faults s" "loopCleanup seen cs ids s = Some t"
  shows "sys_inv E hs faults t"
proof (rule sys_inv_quiet [OF assms(1)])
  from assms(2) have "(\<exists>c. wsCleanup seen cs ids (sy_conn s) = Exit c \<and> t = s\<lparr>sy_conn := c, sy_loop := LpEnded\<rparr>) \<or>
    t = s\<lparr>sy_loop := LpBlocked\<rparr>" and "\<not> ended s"
    by (auto simp: loopCleanup_def ended_def split: loopState.splits flow.splits)
  then show "ws_regs (sy_conn t) = ws_regs (sy_conn s)" "ws_sent (sy_conn t) = map snd (sy_log t)"
    "sy_forwarder t = FwReturned \<longrightarrow> ended t" "sy_threads t = sy_threads s" "sy_writeLK t = sy_writeLK s"
    "msgs_of m t = msgs_of m s" "sy_forwarder t = FwNone \<longrightarrow> sy_forwarder s = FwNone" for m
    using assms(1) wsCleanup_frame [of seen cs ids "sy_conn s"] by (auto simp: sys_inv_def msgs_of_def)
qed

lemma loopEvent_cases:
  assumes "loopEvent E hs ev s = Some t"
  obtains p where "t = panics p s"
  | c gs where "sy_loop s = LpSelect" "t = s\<lparr>sy_conn := c, sy_threads := sy_threads s @ map (newThread E hs) gs\<rparr>"
      "ws_sent c = ws_sent (sy_conn s)" "ws_regs c = ws_regs (sy_conn s)" "ws_chanCtr c = ws_chanCtr (sy_conn s)"
      "\<forall>g\<in>set gs. req_ID (snd g) \<noteq> None"
  | c l where "sy_loop s = LpSelect" "t = s\<lparr>sy_conn := c, sy_loop := l\<rparr>" "l \<noteq> LpEnded"
      "ws_sent c = ws_sent (sy_conn s)" "ws_regs c = ws_regs (sy_conn s)" "ws_chanCtr c = ws_chanCtr (sy_conn s)"
proof -
  from assms have l: "sy_loop s = LpSelect" by (auto simp: loopEvent_def split: loopState.splits)
  show thesis
  proof (cases ev)
    case (Incoming f)
    show thesis
    proof (cases f)
      case None
      with assms l Incoming show thesis by (intro that(3)) (auto simp: loopEvent_def wsLoop_def)
    next
      case (Some fr)
      with assms l Incoming have t: "t = (case handleFrame fr (sy_conn s) of
          Next c \<Rightarrow> s\<lparr>sy_conn := c, sy_threads := sy_threads s @
            map (newThread E hs) (drop (length (ws_spawned (sy_conn s))) (ws_spawned c))\<rparr>
        | Exit c \<Rightarrow> s\<lparr>sy_conn := c, sy_loop := LpCleanup\<rparr> | Panic p \<Rightarrow> panics p s | Block \<Rightarrow> s\<lparr>sy_loop := LpBlocked\<rparr>)"
        by (simp add: loopEvent_def wsLoop_def)
      show thesis
      proof (cases "handleFrame fr (sy_conn s)")
        case (Next c)
        from handleFrame_frame [OF Next] obtain gs where gs: "ws_spawned c = ws_spawned (sy_conn s) @ gs"
          "\<forall>g\<in>set gs. req_ID (snd g) \<noteq> None" by auto
        show thesis
          by (rule that(2) [where c = c and gs = gs]) (use handleFrame_frame [OF Next] Next gs t l in simp_all)
      next
        case Block
        with t l show thesis by (intro that(3) [where c = "sy_conn s" and l = LpBlocked]) auto
      qed (use t that(1) handleFrame_no_Exit in auto)
    qed
  next
    case Closed
    with assms l show thesis by (intro that(3)) (auto simp: loopEvent_def wsLoop_def)
  next
    case (Request q ok)
    show thesis
    proof (cases "req_ID (cq_req q)")
      case None
      with Request assms l show thesis by (intro that(1) [of NilDereference]) (simp add: loopEvent_def)
    next
      case (Some i)
      show thesis
        by (rule that(3) [where l = "LpSend (cq_req q)"
              and c = "(sy_conn s)\<lparr>ws_inflight := (ws_inflight (sy_conn s))(i \<mapsto> q)\<rparr>"])
          (use Some Request assms l in \<open>simp_all add: loopEvent_def\<close>)
    qed
  next
    case Stop
    with assms l show thesis by (intro that(3) [where c = "sy_conn s" and l = LpStop]) (auto simp: loopEvent_def)
  qed
qed

lemma inv_loopEvent:
  assumes "sys_inv E hs faults s" "loopEvent E hs ev s = Some t"
  shows "sys_inv E hs faults t"
  using assms(2)
proof (cases rule: loopEvent_cases)
  case (2 c gs)
  with assms(1) show ?thesis
    by (intro sys_inv_frame [OF assms(1), of t gs])
      (auto simp: unmoved_def grows_def msgs_of_def sys_inv_def ended_def)
next
  case (3 c l)
  with assms(1) show ?thesis
    by (intro sys_inv_quiet [OF assms(1)]) (auto simp: msgs_of_def sys_inv_def ended_def)
qed (use assms(1) in simp)

lemma inv_sys_init: "wf_handlers hs \<Longrightarrow> sys_inv E hs faults sys_init"
  by (simp add: sys_inv_def sys_init_def msgs_of_def ws_init_def)

lemma inv_sys_step:
  assumes "sys_inv E hs faults s" "sys_step E hs faults s t"
  shows "sys_inv E hs faults t"
  using assms(2)
proof (rule sys_stepE)
  fix a assume a: "act_ok a \<or> faults" "sysStep E hs a s = Some t"
  show ?thesis
  proof (cases a)
    case (HandlerAct n ok)
    with a show ?thesis using inv_handlerStep [OF assms(1)] by (auto simp: sysStep_def)
  qed (use a assms(1) in \<open>auto simp: sysStep_def intro: inv_forwarderSelect inv_forwarderSend inv_watcherStep
      inv_loopEvent inv_loopWrite inv_loopCleanup\<close>)
qed

interpretation threads: invariant "\<lambda>s. wf_handlers hs \<and> s = sys_init" "sys_step E hs faults" "sys_inv E hs faults"
  for E hs faults
  by unfold_locales (auto intro: inv_sys_init inv_sys_step)

text \<open>The states a connection can reach whose goroutines interleave in any way.\<close>

definition sys_reachable :: "('v, 'sc) env \<Rightarrow> 'v handlers \<Rightarrow> bool \<Rightarrow> 'v connSys \<Rightarrow> bool" where
  "sys_reachable E hs faults = reachable (\<lambda>s. s = sys_init) (sys_step E hs faults)"

lemma sys_reachable_inv: "wf_handlers hs \<Longrightarrow> sys_reachable E hs faults s \<Longrightarrow> sys_inv E hs faults s"
  by (rule threads.inv_reachable) (simp add: sys_reachable_def reachable_def)

lemma sysRun_reachable:
  assumes "sysRun E hs as s = Some t" "sys_reachable E hs faults s" "\<forall>a\<in>set as. act_ok a \<and> (\<forall>s. act_fits a s)"
  shows "sys_reachable E hs faults t"
  using assms
proof (induction as arbitrary: s)
  case (Cons a as)
  then obtain u where u: "sy_panic s = None" "sysStep E hs a s = Some u" "sysRun E hs as u = Some t"
    by (auto split: if_splits bind_splits)
  with Cons.prems have "sys_step E hs faults s u" by (intro sys_step.act [of s a]) auto
  with Cons.prems(2) have "sys_reachable E hs faults u"
    unfolding sys_reachable_def by (rule reachable_step [where step = "sys_step E hs faults"])
  with Cons.IH u Cons.prems(3) show ?case by auto
qed simp

lemma sys_reachable_init: "sys_reachable E hs faults sys_init"
  by (simp add: sys_reachable_def reachable_init)

section \<open>Every handler replies once\<close>

lemma replyMsg_id:
  assumes "req_ID req = Some i" "\<forall>r. a = Respond r \<longrightarrow> resp_ID r = i"
  shows "replyMsg E req a = EmptyMsg \<or> reply_id (replyMsg E req a) = Some i"
proof (cases a)
  case (RpcError code err)
  with assms(1) show ?thesis
    using encoded_id [of E "the (rpcErrorResponse req code err)"]
    by (simp add: replyMsg_def rpcErrorResponse_def)
next
  case (Respond r)
  then show ?thesis using assms(2) encoded_id [of E r] by (simp add: replyMsg_def)
qed (simp_all add: replyMsg_def)

lemma resolved_id:
  assumes "resolved c a b" "\<forall>r. a = Respond r \<longrightarrow> resp_ID r = i"
  shows "\<forall>r. b = Respond r \<longrightarrow> resp_ID r = i"
proof (cases "chanOf a")
  case (Some ch)
  with assms(1) obtain j where "b = withId j a" by (auto simp: resolved_def)
  with assms(2) show ?thesis by (cases a) (simp_all add: withId_def)
qed (use assms in \<open>simp add: resolved_def\<close>)

text \<open>Every message a handler has written is that of the reply of \<open>handle\<close>, and carries the id of the request.\<close>

lemma msgs_answer:
  assumes "sys_inv E hs faults s" "n < length (sy_threads s)" "m \<in> set (msgs_of n s)"
  shows "\<exists>bs a k b i. handle E hs (fst (th_call (sy_threads s ! n))) (snd (th_call (sy_threads s ! n))) True
      = (bs @ [a, Done k], None) \<and> resolved (sy_conn s) a b \<and> m = replyMsg E (snd (th_call (sy_threads s ! n))) b \<and>
    req_ID (snd (th_call (sy_threads s ! n))) = Some i \<and> (m = EmptyMsg \<or> reply_id m = Some i)"
proof -
  define h where "h = sy_threads s ! n"
  from inv_thread [OF assms(1,2)] obtain bs a k where
    shape: "thread_shape E hs h bs a k" and at: "thread_at E faults s n h bs a k" unfolding h_def .
  from shape obtain i where i: "req_ID (snd (th_call h)) = Some i" "\<forall>r. a = Respond r \<longrightarrow> resp_ID r = i"
    by (auto simp: thread_shape_def)
  from at assms(3) obtain b where b: "resolved (sy_conn s) a b" "m = replyMsg E (snd (th_call h)) b"
    by (auto simp: thread_at_def answered_def split: phase.splits)
  with replyMsg_id [OF i(1) resolved_id [OF b(1) i(2)]] shape i(1) show ?thesis
    unfolding h_def [symmetric] thread_shape_def by blast
qed

text \<open>
  C7: concurrent calls on one connection. In every state the goroutines of a connection can reach,
  in whatever order they run and whatever frames arrive, what handler goroutine \<open>n\<close> has written is
  determined by \<open>handle\<close> alone: nothing until it has replied, and afterwards exactly one message,
  the encoding of the reply of \<open>handle\<close> for its request (a channel replaced by the id it was
  registered under), with the request's id unless the encoding failed; when writes may
  fail the message may be missing. A goroutine is inside \<open>nextWriter\<close> exactly when it holds \<open>writeLK\<close>,
  so at most one is, and the messages on the connection are those of its goroutines, in order.
\<close>

theorem handlers_reply_once:
  assumes "wf_handlers hs" "sys_reachable E hs faults s" "n < length (sy_threads s)"
  shows "\<exists>bs a k i. handle E hs (fst (th_call (sy_threads s ! n))) (snd (th_call (sy_threads s ! n))) True
        = (bs @ [a, Done k], None) \<and> is_reply a \<and> req_ID (snd (th_call (sy_threads s ! n))) = Some i \<and>
    (if length (th_acts (sy_threads s ! n)) \<ge> 2 then msgs_of n s = []
     else answered E faults s n (snd (th_call (sy_threads s ! n))) a) \<and>
    (\<forall>m\<in>set (msgs_of n s). m = EmptyMsg \<or> reply_id m = Some i) \<and>
    (th_phase (sy_threads s ! n) \<noteq> Between \<longleftrightarrow> sy_writeLK s = Some n) \<and>
    ws_sent (sy_conn s) = map snd (sy_log s)"
proof -
  define h where "h = sy_threads s ! n"
  note inv = sys_reachable_inv [OF assms(1,2)]
  from inv_thread [OF inv assms(3)] obtain bs a k where
    shape: "thread_shape E hs h bs a k" and at: "thread_at E faults s n h bs a k" unfolding h_def .
  from shape obtain i where i: "req_ID (snd (th_call h)) = Some i" "\<forall>r. a = Respond r \<longrightarrow> resp_ID r = i"
    by (auto simp: thread_shape_def)
  have ans: "if length (th_acts h) \<ge> 2 then msgs_of n s = [] else answered E faults s n (snd (th_call h)) a"
    using at by (auto simp: thread_at_def split: phase.splits)
  moreover have "m = EmptyMsg \<or> reply_id m = Some i" if "m \<in> set (msgs_of n s)" for m
    using msgs_answer [OF inv assms(3) that] i(1) unfolding h_def by auto
  moreover have "th_phase h \<noteq> Between \<longleftrightarrow> sy_writeLK s = Some n"
    using at by (auto simp: thread_at_def split: phase.splits)
  moreover have "ws_sent (sy_conn s) = map snd (sy_log s)" using inv by (simp add: sys_inv_def)
  moreover have "handle E hs (fst (th_call h)) (snd (th_call h)) True = (bs @ [a, Done k], None)" "is_reply a"
    using shape by (simp_all add: thread_shape_def)
  ultimately show ?thesis
    unfolding h_def [symmetric] using i(1)
    by (intro exI [of _ bs] exI [of _ a] exI [of _ k] exI [of _ i]) (auto simp only:)
qed

end
