(* ===== verification/WsProgress.thy ===== *)
theory WsProgress
  imports WsThreads
begin

text \<open>
  What the goroutines of a connection can wait for: the deadlock of a handler that registers a
  channel with the forwarding goroutine, that it is the only one, and the ids of forwarded channels.
\<close>

section \<open>A handler that registers a channel can stop the connection\<close>

text \<open>
  A handler holds \<open>writeLK\<close> and has a channel to register, while the forwarding goroutine waits for
  \<open>writeLK\<close> to send a notification.
\<close>

definition jammed :: "nat \<Rightarrow> 'v connSys \<Rightarrow> bool" where
  "jammed n s \<longleftrightarrow> n < length (sy_threads s) \<and> sy_writeLK s = Some n \<and>
     (\<exists>oc rq. sy_forwarder s = FwSend oc rq) \<and> th_phase (sy_threads s ! n) \<noteq> Between \<and>
     (\<exists>a as. th_acts (sy_threads s ! n) = a # as \<and> chanOf a \<noteq> None)"

definition finished :: "'v connSys \<Rightarrow> bool" where
  "finished s \<longleftrightarrow> (\<forall>h\<in>set (sy_threads s). th_acts h = [])"

lemma holder_unique:
  assumes "sys_inv E hs faults s" "sy_writeLK s = Some n" "m < length (sy_threads s)" "m \<noteq> n"
  shows "th_phase (sy_threads s ! m) = Between"
proof -
  from inv_thread [OF assms(1,3)] obtain bs a k where "thread_at E faults s m (sy_threads s ! m) bs a k" .
  with assms(2,4) show ?thesis by (auto simp: thread_at_def split: phase.splits)
qed

lemma jammed_handlerStep:
  assumes "sys_inv E hs faults s" "jammed n s" "handlerStep E m ok s = Some t"
  shows "sy_log t = sy_log s \<and> (jammed n t \<or> sy_panic t \<noteq> None)"
  using assms(3)
proof (cases rule: handlerStep_cases)
  case (3 h a as c)
  with assms(2) have "m \<noteq> n" by (auto simp: jammed_def)
  with 3 assms(2) show ?thesis by (auto simp: jammed_def setThread_def)
next
  case (5 h a as ch)
  with holder_unique [OF assms(1), of n m] assms(2) have "m = n" by (auto simp: jammed_def)
  with 5 assms(2) show ?thesis by (auto simp: jammed_def drawId_def setThread_def Let_def)
next
  case (6 h a as)
  with holder_unique [OF assms(1), of n m] assms(2) have "m = n" by (auto simp: jammed_def)
  with 6 assms(2) show ?thesis by (auto simp: jammed_def)
next
  case (7 h a as i ch)
  from 7(5) show ?thesis
    by (cases rule: registerChan_cases) (use assms(2) in \<open>auto simp: jammed_def panics_def\<close>)
qed (use assms(2) in \<open>auto simp: jammed_def panics_def lockWriter_def split: option.splits\<close>)

lemma jammed_step:
  assumes "sys_inv E hs faults s" "jammed n s" "sys_step E hs faults s t"
  shows "sy_log t = sy_log s \<and> (jammed n t \<or> sy_panic t \<noteq> None)"
  using assms(3)
proof (rule sys_stepE)
  fix a assume a: "sysStep E hs a s = Some t"
  from assms(2) obtain oc rq where fw: "sy_forwarder s = FwSend oc rq" and lk: "sy_writeLK s = Some n"
    by (auto simp: jammed_def)
  show ?thesis
  proof (cases a)
    case (HandlerAct m ok)
    with a jammed_handlerStep [OF assms(1,2)] show ?thesis by (auto simp: sysStep_def)
  next
    case (LoopEvent ev)
    with a have "loopEvent E hs ev s = Some t" by (simp add: sysStep_def)
    then show ?thesis
      by (cases rule: loopEvent_cases) (use assms(2) in \<open>auto simp: jammed_def panics_def nth_append\<close>)
  next
    case (LoopCleanup seen cs ids)
    with a assms(2) show ?thesis
      by (auto simp: sysStep_def loopCleanup_def jammed_def split: loopState.splits flow.splits)
  qed (use a fw lk in \<open>auto simp: sysStep_def forwarderSelect_def forwarderSend_def watcherStep_def loopWrite_def
      sendLocked_def split: if_splits loopState.splits\<close>)
qed

lemma jammed_for_ever:
  assumes "sys_inv E hs faults s" "jammed n s" "(sys_step E hs faults)\<^sup>*\<^sup>* s t"
  shows "sy_log t = sy_log s \<and> (jammed n t \<or> sy_panic t \<noteq> None)"
  using assms(3)
proof (induction rule: rtranclp_induct)
  case (step t u)
  have "sys_inv E hs faults t" using threads.inv_steps [OF step.hyps(1) assms(1)] .
  with step.IH step.hyps(2) show ?case
    using jammed_step [of E hs faults t n u] by (auto elim!: sys_stepE)
qed (use assms(2) in simp)

text \<open>A measure that every step of a handler, and a send of the forwarding goroutine, decreases.\<close>

definition weight :: "'v thread \<Rightarrow> nat" where
  "weight h = 4 * length (th_acts h) +
     (case th_phase h of Between \<Rightarrow> 3 | Registering i ch \<Rightarrow> 1
      | Writing \<Rightarrow> (case th_acts h of a # as \<Rightarrow> if chanOf a = None then 0 else 2 | [] \<Rightarrow> 0))"

definition work :: "'v connSys \<Rightarrow> nat" where
  "work s = sum_list (map weight (sy_threads s)) + (case sy_forwarder s of FwSend oc rq \<Rightarrow> 1 | _ \<Rightarrow> 0)"

lemma sum_list_update_less:
  fixes f :: "'a \<Rightarrow> nat"
  assumes "n < length xs" "f x < f (xs ! n)"
  shows "sum_list (map f (xs[n := x])) < sum_list (map f xs)"
proof -
  have "f (xs ! n) \<le> sum_list (map f xs)" using assms(1) by (intro member_le_sum_list) auto
  with assms show ?thesis by (simp add: map_update sum_list_update)
qed

lemma work_setThread:
  assumes "n < length (sy_threads s)" "sy_threads t = (sy_threads s)[n := h]"
    and "weight h < weight (sy_threads s ! n)" "\<forall>oc rq. sy_forwarder t = FwSend oc rq \<longrightarrow> sy_forwarder s = FwSend oc rq"
  shows "work t < work s"
  using sum_list_update_less [of n "sy_threads s" weight h] assms
  by (auto simp: work_def split: outForwarder.splits)

text \<open>What a step towards the end of all handlers keeps.\<close>

definition advances :: "('v, 'sc) env \<Rightarrow> 'v handlers \<Rightarrow> 'v connSys \<Rightarrow> 'v connSys \<Rightarrow> bool" where
  "advances E hs s t \<longleftrightarrow> (\<forall>faults. sys_step E hs faults s t) \<and> sy_panic t = None \<and> sy_loop t = sy_loop s \<and>
     (\<forall>n. \<not> jammed n t) \<and> work t < work s"

lemma advances_handler:
  assumes "sy_panic s = None" "handlerStep E n True s = Some t" "sy_panic t = None" "sy_loop t = sy_loop s"
    and "\<forall>n. \<not> jammed n t" "work t < work s"
  shows "advances E hs s t"
  using assms by (auto simp: advances_def sysStep_def intro!: sys_step.act [where a = "HandlerAct n True"])

lemma not_jammed_forwarder: "(\<forall>oc rq. sy_forwarder t \<noteq> FwSend oc rq) \<Longrightarrow> \<not> jammed n t"
  by (simp add: jammed_def)

lemma advance_send:
  assumes "sy_panic s = None" "sy_writeLK s = None" "sy_forwarder s = FwSend oc rq"
  shows "\<exists>t. advances E hs s t"
proof -
  define m where "m = FrameMsg (frame_of_request rq)"
  define t where "t = s\<lparr>sy_conn := (sy_conn s)\<lparr>ws_sent := ws_sent (sy_conn s) @ [m]\<rparr>,
    sy_log := sy_log s @ [(ByForwarder, m)], sy_forwarder := FwSelect oc\<rparr>"
  have "forwarderSend True s = Some t"
    using assms(2,3) by (simp add: forwarderSend_def sendLocked_def sendRequest_def t_def m_def)
  then have "sys_step E hs faults s t" for faults
    using assms(1) by (intro sys_step.act [where a = "ForwardAct True"]) (auto simp: sysStep_def)
  moreover have "work t < work s" using assms(3) by (simp add: work_def t_def)
  ultimately have "advances E hs s t" using assms(1) by (auto simp: advances_def jammed_def t_def)
  then show ?thesis by blast
qed

lemma advance_idle:
  assumes "sys_inv E hs faults s" "sy_panic s = None" "sy_writeLK s = None" "n < length (sy_threads s)"
    and "th_acts (sy_threads s ! n) \<noteq> []" "\<forall>oc rq. sy_forwarder s \<noteq> FwSend oc rq"
  shows "\<exists>t. advances E hs s t"
proof -
  define h where "h = sy_threads s ! n"
  from inv_thread [OF assms(1,4)] obtain bs b k where sh: "thread_shape E hs h bs b k"
    "thread_at E faults s n h bs b k" unfolding h_def .
  from sh(2) assms(3) have ph: "th_phase h = Between" by (auto simp: thread_at_def split: phase.splits)
  from assms(5) obtain a as where acts: "th_acts h = a # as" by (cases "th_acts h") (auto simp: h_def)
  show ?thesis
  proof (cases "is_reply a")
    case True
    define t where "t = (setThread n (h\<lparr>th_phase := Writing\<rparr>) s)\<lparr>sy_writeLK := Some n\<rparr>"
    have st: "handlerStep E n True s = Some t"
      using assms(3,4) acts ph True by (simp add: handlerStep_def Let_def lockWriter_def t_def h_def)
    have "work t < work s"
      using assms(4,6) acts ph
      by (intro work_setThread [where n = n and h = "h\<lparr>th_phase := Writing\<rparr>"])
        (auto simp: t_def setThread_def weight_def h_def)
    with st assms(2,6) have "advances E hs s t"
      by (intro advances_handler not_jammed_forwarder allI) (simp_all add: t_def setThread_def jammed_def)
    then show ?thesis by blast
  next
    case False
    from sh(1) obtain i where "req_ID (snd (th_call h)) = Some i" by (auto simp: thread_shape_def)
    with False have "\<exists>c. wsAct E True (ended s) (th_call h) a (sy_conn s) = Next c"
      by (cases a) (simp_all add: wsAct_def)
    then obtain c where c: "wsAct E True (ended s) (th_call h) a (sy_conn s) = Next c" by blast
    define t where "t = (setThread n (h\<lparr>th_acts := as\<rparr>) s)\<lparr>sy_conn := c\<rparr>"
    have st: "handlerStep E n True s = Some t"
      using assms(4) acts ph False c by (simp add: handlerStep_def Let_def t_def h_def)
    have "work t < work s"
      using assms(4,6) acts ph
      by (intro work_setThread [where n = n and h = "h\<lparr>th_acts := as\<rparr>"])
        (auto simp: t_def setThread_def weight_def h_def)
    with st assms(2,6) have "advances E hs s t"
      by (intro advances_handler not_jammed_forwarder allI) (simp_all add: t_def setThread_def jammed_def)
    then show ?thesis by blast
  qed
qed

lemma advance_holder:
  assumes "sys_inv E hs faults s" "sy_panic s = None" "\<not> ended s" "sy_writeLK s = Some n" "\<not> jammed n s"
  shows "\<exists>t. advances E hs s t"
proof -
  define h where "h = sy_threads s ! n"
  from assms(1,4) have n: "n < length (sy_threads s)" by (simp add: sys_inv_def)
  from inv_thread [OF assms(1) n] obtain bs b k where sh: "thread_shape E hs h bs b k"
    "thread_at E faults s n h bs b k" unfolding h_def .
  from sh(2) assms(4) have ph: "th_phase h \<noteq> Between" and "th_acts h \<noteq> []"
    by (auto simp: thread_at_def split: phase.splits)
  then obtain a as where acts: "th_acts h = a # as" by (cases "th_acts h") auto
  have fw: "\<forall>oc rq. sy_forwarder s \<noteq> FwSend oc rq" if "chanOf a \<noteq> None"
    using that assms(4,5) n ph acts by (auto simp: jammed_def h_def)
  show ?thesis
  proof (cases "th_phase h")
    case Writing
    show ?thesis
    proof (cases "chanOf a")
      case None
      define t where "t = finishWrite True n h as (replyMsg E (snd (th_call h)) a) s"
      have st: "handlerStep E n True s = Some t"
        using n acts Writing None by (simp add: handlerStep_def Let_def t_def h_def)
      have "work t < work s"
        using n acts Writing None
        by (intro work_setThread [where n = n and h = "h\<lparr>th_acts := as, th_phase := Between\<rparr>"])
          (auto simp: t_def finishWrite_def setThread_def weight_def h_def)
      with st assms(2) have "advances E hs s t"
        by (intro advances_handler) (simp_all add: t_def finishWrite_def setThread_def jammed_def)
      then show ?thesis by blast
    next
      case (Some ch)
      define t where "t = drawId n h ch s"
      have st: "handlerStep E n True s = Some t"
        using n acts Writing Some by (simp add: handlerStep_def Let_def t_def h_def)
      have f: "\<forall>oc rq. sy_forwarder t \<noteq> FwSend oc rq"
        using fw Some by (auto simp: t_def drawId_def Let_def split: outForwarder.split)
      have "work t < work s"
        using n acts Writing Some f
        by (intro work_setThread [where n = n and h = "h\<lparr>th_phase := Registering (ws_chanCtr (sy_conn s) + 1) ch\<rparr>"])
          (auto simp: t_def drawId_def Let_def setThread_def weight_def h_def)
      with st f assms(2) have "advances E hs s t"
        by (intro advances_handler not_jammed_forwarder allI) (simp_all add: t_def drawId_def Let_def setThread_def)
      then show ?thesis by blast
    qed
  next
    case (Registering i ch)
    with sh(2) acts have ch: "chanOf a = Some ch" "sy_forwarder s \<noteq> FwNone" by (auto simp: thread_at_def)
    moreover have "sy_forwarder s \<noteq> FwReturned" using assms(1,3) by (auto simp: sys_inv_def)
    ultimately obtain oc where oc: "sy_forwarder s = FwSelect oc"
      using fw by (cases "sy_forwarder s") auto
    define t where "t = (setThread n (h\<lparr>th_acts := withId i a # as, th_phase := Writing\<rparr>) s)
        \<lparr>sy_forwarder := FwSelect \<lparr>oh_cases = oh_cases oc @ [ch], oh_caseToID = oh_caseToID oc @ [i]\<rparr>,
         sy_conn := (sy_conn s)\<lparr>ws_regs := ws_regs (sy_conn s) @ [(i, ch)]\<rparr>\<rparr>"
    have st: "handlerStep E n True s = Some t"
      using n acts Registering assms(3) oc
      by (simp add: handlerStep_def Let_def registerChan_def outChansRound_def t_def h_def)
    have "work t < work s"
      using n acts Registering
      by (intro work_setThread [where n = n and h = "h\<lparr>th_acts := withId i a # as, th_phase := Writing\<rparr>"])
        (auto simp: t_def setThread_def weight_def h_def)
    with st assms(2) have "advances E hs s t"
      by (intro advances_handler not_jammed_forwarder allI) (simp_all add: t_def setThread_def)
    then show ?thesis by blast
  qed (use ph in simp)
qed

lemma advance:
  assumes "sys_inv E hs faults s" "sy_panic s = None" "\<not> ended s" "\<forall>n. \<not> jammed n s" "\<not> finished s"
  shows "\<exists>t. advances E hs s t"
proof (cases "sy_writeLK s")
  case None
  show ?thesis
  proof (cases "\<exists>oc rq. sy_forwarder s = FwSend oc rq")
    case True
    then show ?thesis using advance_send [OF assms(2) None] by blast
  next
    case False
    moreover from assms(5) obtain n where "n < length (sy_threads s)" "th_acts (sy_threads s ! n) \<noteq> []"
      by (auto simp: finished_def in_set_conv_nth)
    ultimately show ?thesis using advance_idle [OF assms(1,2) None] by blast
  qed
qed (use assms advance_holder in blast)

lemma can_finish:
  assumes "sys_inv E hs faults s" "sy_panic s = None" "\<not> ended s" "\<forall>n. \<not> jammed n s"
  shows "\<exists>t. (sys_step E hs faults)\<^sup>*\<^sup>* s t \<and> finished t \<and> sy_panic t = None"
  using assms
proof (induction "work s" arbitrary: s rule: less_induct)
  case less
  show ?case
  proof (cases "finished s")
    case True
    with less.prems show ?thesis by blast
  next
    case False
    with advance [OF less.prems] obtain t where t: "advances E hs s t" by blast
    then have st: "sys_step E hs faults s t" and "ended t = ended s" by (auto simp: advances_def ended_def)
    with t less.hyps [of t] less.prems inv_sys_step [OF less.prems(1) st] obtain u where
      "(sys_step E hs faults)\<^sup>*\<^sup>* t u" "finished u" "sy_panic u = None" by (auto simp: advances_def)
    with st show ?thesis by (meson converse_rtranclp_into_rtranclp)
  qed
qed


lemma handler_act: "sy_panic s = None \<Longrightarrow> handlerStep E n True s = Some t \<Longrightarrow> sys_step E hs faults s t"
  by (rule sys_step.act [where a = "HandlerAct n True"]) (simp_all add: sysStep_def)

lemma jam_panics:
  assumes "sys_inv E hs faults s" "jammed n s" "ended s" "sy_panic s = None"
  shows "\<exists>u. (sys_step E hs faults)\<^sup>*\<^sup>* s u \<and> sy_panic u = Some SendOnClosedChannel"
proof -
  have reg: "\<exists>u. sys_step E hs faults s u \<and> sy_panic u = Some SendOnClosedChannel"
    if "n < length (sy_threads s)" "th_phase (sy_threads s ! n) = Registering i ch"
      "th_acts (sy_threads s ! n) \<noteq> []" "ended s" "sy_panic s = None" for s :: "'a connSys" and i ch
  proof -
    from that(3) obtain a as where "th_acts (sy_threads s ! n) = a # as" by (cases "th_acts (sy_threads s ! n)") auto
    with that have "handlerStep E n True s = Some (panics SendOnClosedChannel s)"
      by (simp add: handlerStep_def Let_def registerChan_def)
    with handler_act that(5) have "sys_step E hs faults s (panics SendOnClosedChannel s)" by blast
    then show ?thesis by (auto simp: panics_def)
  qed
  from assms(2) obtain a as where n: "n < length (sy_threads s)" "th_acts (sy_threads s ! n) = a # as"
    "chanOf a \<noteq> None" "th_phase (sy_threads s ! n) \<noteq> Between" by (auto simp: jammed_def)
  show ?thesis
  proof (cases "th_phase (sy_threads s ! n)")
    case Writing
    from n(3) obtain ch where ch: "chanOf a = Some ch" by blast
    define t where "t = drawId n (sy_threads s ! n) ch s"
    have "sys_step E hs faults s t"
      using n Writing ch assms(4) by (intro handler_act [where n = n]) (simp_all add: handlerStep_def Let_def t_def)
    moreover have "\<exists>u. sys_step E hs faults t u \<and> sy_panic u = Some SendOnClosedChannel"
      using n assms(3,4) by (intro reg [of t "ws_chanCtr (sy_conn s) + 1" ch])
        (simp_all add: t_def drawId_def Let_def setThread_def ended_def)
    ultimately show ?thesis by (meson converse_rtranclp_into_rtranclp r_into_rtranclp)
  next
    case (Registering i ch)
    with n assms(3,4) have "\<exists>u. sys_step E hs faults s u \<and> sy_panic u = Some SendOnClosedChannel"
      by (intro reg [of s i ch]) simp_all
    then show ?thesis by blast
  qed (use n in simp)
qed

text \<open>
  C15: such a state is a deadlock of the connection. Nothing is ever written on it again, by any
  goroutine, and the handler keeps the lock until the program panics; and it does panic when the
  connection ends, since the handler then sends on the closed registration channel.
\<close>

theorem jammed_connection:
  assumes "wf_handlers hs" "sys_reachable E hs faults s" "jammed n s" "(sys_step E hs faults)\<^sup>*\<^sup>* s t"
  shows "ws_sent (sy_conn t) = ws_sent (sy_conn s) \<and> (jammed n t \<or> sy_panic t \<noteq> None) \<and>
    (ended t \<and> sy_panic t = None \<longrightarrow>
       (\<exists>u. (sys_step E hs faults)\<^sup>*\<^sup>* t u \<and> sy_panic u = Some SendOnClosedChannel))"
proof -
  note inv = sys_reachable_inv [OF assms(1,2)]
  note invt = threads.inv_steps [OF assms(4) inv]
  note jam = jammed_for_ever [OF inv assms(3,4)]
  have "ws_sent (sy_conn t) = ws_sent (sy_conn s)" using jam inv invt by (simp add: sys_inv_def)
  moreover have "\<exists>u. (sys_step E hs faults)\<^sup>*\<^sup>* t u \<and> sy_panic u = Some SendOnClosedChannel"
    if "ended t" "sy_panic t = None"
  proof -
    from jam that(2) have "jammed n t" by simp
    then show ?thesis using jam_panics [OF invt _ that] by blast
  qed
  ultimately show ?thesis using jam by blast
qed

section \<open>The ids of forwarded channels\<close>

text \<open>
  Ids are drawn from a 64-bit counter under \<open>writeLK\<close>, so registrations have the consecutive ids 1, 2,
  and so on; \<open>pending\<close> counts an id drawn whose registration has not been received.
\<close>

definition fwChans :: "'v connSys \<Rightarrow> outChans option" where
  "fwChans s = (case sy_forwarder s of FwSelect oc \<Rightarrow> Some oc | FwSend oc rq \<Rightarrow> Some oc | _ \<Rightarrow> None)"

definition registering :: "'v connSys \<Rightarrow> bool" where
  "registering s \<longleftrightarrow> (\<exists>h\<in>set (sy_threads s). \<exists>i ch. th_phase h = Registering i ch)"

definition fwd_ok :: "'v connSys \<Rightarrow> bool" where
  "fwd_ok s \<longleftrightarrow> (\<forall>oc. fwChans s = Some oc \<longrightarrow> oh_wf oc \<and>
     (\<forall>(ch, i)\<in>set (oh_pairs oc). (i, ch) \<in> set (ws_regs (sy_conn s))))"

definition ids_inv :: "'v connSys \<Rightarrow> bool" where
  "ids_inv s \<longleftrightarrow> map fst (ws_regs (sy_conn s)) = map of_nat [1..<Suc (length (ws_regs (sy_conn s)))] \<and>
     ws_chanCtr (sy_conn s) = of_nat (length (ws_regs (sy_conn s))) + (if registering s then 1 else 0) \<and>
     (\<forall>h\<in>set (sy_threads s). \<forall>i ch. th_phase h = Registering i ch \<longrightarrow>
        i = of_nat (Suc (length (ws_regs (sy_conn s))))) \<and>
     (length (ws_regs (sy_conn s)) < 2 ^ 64 \<longrightarrow> fwd_ok s)"

lemma fwd_ok_cong:
  "sy_forwarder t = sy_forwarder s \<Longrightarrow> ws_regs (sy_conn t) = ws_regs (sy_conn s) \<Longrightarrow> fwd_ok t = fwd_ok s"
  by (simp add: fwd_ok_def fwChans_def)

lemma ids_inv_cong:
  assumes "ids_inv s" "ws_regs (sy_conn t) = ws_regs (sy_conn s)" "ws_chanCtr (sy_conn t) = ws_chanCtr (sy_conn s)"
    and "\<And>i ch. (\<exists>h\<in>set (sy_threads t). th_phase h = Registering i ch) \<longleftrightarrow>
           (\<exists>h\<in>set (sy_threads s). th_phase h = Registering i ch)"
    and "length (ws_regs (sy_conn s)) < 2 ^ 64 \<Longrightarrow> fwd_ok s \<Longrightarrow> fwd_ok t"
  shows "ids_inv t"
proof -
  have "registering t = registering s" using assms(4) unfolding registering_def by blast
  moreover have "\<forall>h\<in>set (sy_threads t). \<forall>i ch. th_phase h = Registering i ch \<longrightarrow>
      i = of_nat (Suc (length (ws_regs (sy_conn s))))"
    using assms(1,4) unfolding ids_inv_def by blast
  ultimately show ?thesis using assms(1,2,3,5) by (simp add: ids_inv_def)
qed

text \<open>A handler's step that neither draws an id nor registers.\<close>

lemma registering_setThread:
  assumes "n < length xs" "\<forall>i ch. th_phase (xs ! n) \<noteq> Registering i ch" "\<forall>i ch. th_phase h \<noteq> Registering i ch"
  shows "(\<exists>x\<in>set (xs[n := h]). th_phase x = Registering i ch) \<longleftrightarrow> (\<exists>x\<in>set xs. th_phase x = Registering i ch)"
proof
  assume "\<exists>x\<in>set (xs[n := h]). th_phase x = Registering i ch"
  then show "\<exists>x\<in>set xs. th_phase x = Registering i ch"
    using assms(3) set_update_subset_insert [of xs n h] by blast
next
  assume "\<exists>x\<in>set xs. th_phase x = Registering i ch"
  then obtain m where m: "m < length xs" "th_phase (xs ! m) = Registering i ch" by (auto simp: in_set_conv_nth)
  with assms(2) have "xs[n := h] ! m = xs ! m" by (cases "m = n") auto
  with m show "\<exists>x\<in>set (xs[n := h]). th_phase x = Registering i ch"
    by (metis length_list_update nth_mem)
qed

lemma holder:
  assumes "sys_inv E hs faults s" "n < length (sy_threads s)" "th_phase (sy_threads s ! n) \<noteq> Between"
  shows "sy_writeLK s = Some n"
proof -
  from inv_thread [OF assms(1,2)] obtain bs a k where "thread_at E faults s n (sy_threads s ! n) bs a k" .
  with assms(3) show ?thesis by (auto simp: thread_at_def split: phase.splits)
qed

lemma others_between:
  assumes "sys_inv E hs faults s" "n < length (sy_threads s)" "th_phase (sy_threads s ! n) \<noteq> Between"
    and "m < length (sy_threads s)" "m \<noteq> n"
  shows "th_phase (sy_threads s ! m) = Between"
  using holder_unique [OF assms(1) holder [OF assms(1-3)] assms(4,5)] .

lemma ids_drawId:
  assumes "sys_inv E hs faults s" "ids_inv s" "n < length (sy_threads s)" "h = sy_threads s ! n"
    and "th_phase h = Writing" "t = drawId n h ch s"
  shows "ids_inv t"
proof -
  have others: "th_phase (sy_threads s ! m) = Between" if "m < length (sy_threads s)" "m \<noteq> n" for m
    using others_between [OF assms(1,3) _ that] assms(4,5) by simp
  have "th_phase (sy_threads s ! m) \<noteq> Registering i ch" if "m < length (sy_threads s)" for m i ch
    using others [OF that] assms(4,5) by (cases "m = n") auto
  then have "\<not> registering s" by (auto simp: registering_def in_set_conv_nth)
  with assms(2) have ctr: "ws_chanCtr (sy_conn s) = of_nat (length (ws_regs (sy_conn s)))"
    by (simp add: ids_inv_def)
  let ?h = "h\<lparr>th_phase := Registering (ws_chanCtr (sy_conn s) + 1) ch\<rparr>"
  have t: "sy_threads t = (sy_threads s)[n := ?h]" "ws_regs (sy_conn t) = ws_regs (sy_conn s)"
    "ws_chanCtr (sy_conn t) = ws_chanCtr (sy_conn s) + 1"
    "sy_forwarder t = (case sy_forwarder s of FwNone \<Rightarrow> FwSelect \<lparr>oh_cases = [], oh_caseToID = []\<rparr> | f \<Rightarrow> f)"
    by (simp_all add: assms(6) drawId_def Let_def setThread_def)
  have "registering t"
    using assms(3) t(1) unfolding registering_def by (auto intro!: bexI [of _ ?h] simp: set_update_memI)
  moreover have "i = ws_chanCtr (sy_conn s) + 1" if "x \<in> set (sy_threads t)" "th_phase x = Registering i ch'" for x i ch'
  proof -
    from that(1) obtain m where m: "m < length (sy_threads s)" "x = (sy_threads s)[n := ?h] ! m"
      by (auto simp: t in_set_conv_nth)
    with that(2) others [of m] show ?thesis by (cases "m = n") auto
  qed
  moreover have "fwd_ok t" if "fwd_ok s"
    using that t by (auto simp: fwd_ok_def fwChans_def oh_wf_def oh_pairs_def split: outForwarder.splits)
  ultimately show ?thesis using assms(2) t ctr by (auto simp: ids_inv_def add.commute)
qed

lemma upt_of_nat_Suc:
  "map of_nat [1..<Suc (Suc n)] = map of_nat [1..<Suc n] @ [of_nat (Suc n) :: uint64]"
  by simp

lemma fresh_id:
  assumes "Suc n < 2 ^ 64"
  shows "of_nat (Suc n) \<notin> set (map of_nat [1..<Suc n] :: uint64 list)"
proof
  assume "of_nat (Suc n) \<in> set (map of_nat [1..<Suc n] :: uint64 list)"
  then obtain k where "k \<in> set [1..<Suc n]" and k2: "(of_nat (Suc n) :: uint64) = of_nat k"
    unfolding set_map by blast
  then have k: "k \<le> n" "(of_nat (Suc n) :: uint64) = of_nat k" by auto
  then have "unat (of_nat (Suc n) :: uint64) = unat (of_nat k :: uint64)" by simp
  with k(1) assms show False by (simp only: unat_of_nat_small [OF assms] unat_of_nat_small)
qed

lemma oh_wf_append:
  "oh_wf oc \<Longrightarrow> i \<notin> set (oh_caseToID oc) \<Longrightarrow>
   oh_wf \<lparr>oh_cases = oh_cases oc @ [ch], oh_caseToID = oh_caseToID oc @ [i]\<rparr> \<and>
   set (oh_pairs \<lparr>oh_cases = oh_cases oc @ [ch], oh_caseToID = oh_caseToID oc @ [i]\<rparr>) =
     insert (ch, i) (set (oh_pairs oc))"
  by (auto simp: oh_wf_def oh_pairs_def)

lemma oh_ids: "oh_wf oc \<Longrightarrow> set (oh_caseToID oc) = snd ` set (oh_pairs oc)"
  by (simp add: oh_wf_def oh_pairs_def flip: set_map)

lemma ids_registerChan:
  assumes "sys_inv E hs faults s" "ids_inv s" "n < length (sy_threads s)" "h = sy_threads s ! n"
    and "th_phase h = Registering i ch" "registerChan n h a as i ch s = Some t"
  shows "ids_inv t"
  using assms(6)
proof (cases rule: registerChan_cases)
  case 1
  show ?thesis by (rule ids_inv_cong [OF assms(2)]) (simp_all add: 1 panics_def fwd_ok_def fwChans_def)
next
  case (2 oc)
  define L where "L = length (ws_regs (sy_conn s))"
  have hs: "h \<in> set (sy_threads s)" using assms(3,4) by simp
  with assms(2,5) have i: "i = of_nat (Suc L)" by (auto simp: ids_inv_def L_def)
  have "registering s" using hs assms(5) by (auto simp: registering_def)
  with assms(2) have ctr: "ws_chanCtr (sy_conn s) = of_nat (Suc L)" by (simp add: ids_inv_def L_def)
  have "\<not> (\<exists>i ch. th_phase x = Registering i ch)" if "x \<in> set (sy_threads t)" for x
  proof -
    from that obtain m where m: "m < length (sy_threads s)"
      "x = (sy_threads s)[n := h\<lparr>th_acts := withId i a # as, th_phase := Writing\<rparr>] ! m"
      by (auto simp: 2 setThread_def in_set_conv_nth)
    then show ?thesis using others_between [OF assms(1,3) _ m(1)] assms(3-5) by (cases "m = n") auto
  qed
  then have none: "\<not> registering t" "\<forall>h\<in>set (sy_threads t). \<forall>i ch. th_phase h \<noteq> Registering i ch"
    by (auto simp: registering_def)
  have regs: "ws_regs (sy_conn t) = ws_regs (sy_conn s) @ [(i, ch)]" "ws_chanCtr (sy_conn t) = ws_chanCtr (sy_conn s)"
    by (simp_all add: 2 setThread_def)
  have ids: "map fst (ws_regs (sy_conn s)) = map of_nat [1..<Suc L]" using assms(2) by (simp add: ids_inv_def L_def)
  have "fwd_ok t" if "Suc L < 2 ^ 64"
  proof -
    from that assms(2) have ok: "oh_wf oc" "\<forall>(ch, i)\<in>set (oh_pairs oc). (i, ch) \<in> set (ws_regs (sy_conn s))"
      by (auto simp: ids_inv_def L_def fwd_ok_def fwChans_def 2)
    then have "set (oh_caseToID oc) \<subseteq> set (map fst (ws_regs (sy_conn s)))" by (force simp: oh_ids)
    with fresh_id [OF that] ids i have "i \<notin> set (oh_caseToID oc)" by auto
    with oh_wf_append [OF ok(1), of i ch] ok(2) regs(1) show ?thesis
      by (auto simp: fwd_ok_def fwChans_def 2)
  qed
  then show ?thesis
    using none regs ids ctr i upt_of_nat_Suc [of L] by (simp add: ids_inv_def L_def)
qed

lemma ids_setThread:
  assumes "ids_inv s" "n < length (sy_threads s)" "sy_threads t = (sy_threads s)[n := h]"
    and "\<forall>i ch. th_phase (sy_threads s ! n) \<noteq> Registering i ch" "\<forall>i ch. th_phase h \<noteq> Registering i ch"
    and "ws_regs (sy_conn t) = ws_regs (sy_conn s)" "ws_chanCtr (sy_conn t) = ws_chanCtr (sy_conn s)"
    and "sy_forwarder t = sy_forwarder s"
  shows "ids_inv t"
  using assms(6-8) by (intro ids_inv_cong [OF assms(1)])
    (simp_all add: assms(3) registering_setThread [OF assms(2,4,5)] fwd_ok_cong [OF assms(8,6)])

lemma ids_handlerStep:
  assumes "sys_inv E hs faults s" "ids_inv s" "handlerStep E n ok s = Some t"
  shows "ids_inv t"
  using assms(3)
proof (cases rule: handlerStep_cases)
  case (2 h a as)
  then show ?thesis
    by (intro ids_setThread [OF assms(2) 2(1), where h = "if ok then h\<lparr>th_phase := Writing\<rparr> else h\<lparr>th_acts := as\<rparr>"])
      (auto simp: lockWriter_def setThread_def split: option.splits if_splits)
next
  case (3 h a as c)
  with wsAct_frame [OF 3(5,6)] show ?thesis
    by (intro ids_setThread [OF assms(2) 3(1), where h = "h\<lparr>th_acts := as\<rparr>"]) (simp_all add: setThread_def)
next
  case (5 h a as ch)
  then show ?thesis using ids_drawId [OF assms(1,2)] by blast
next
  case (6 h a as)
  then show ?thesis
    by (intro ids_setThread [OF assms(2) 6(1), where h = "h\<lparr>th_acts := as, th_phase := Between\<rparr>"])
      (simp_all add: finishWrite_def nextWriter_def setThread_def)
next
  case (7 h a as i ch)
  then show ?thesis using ids_registerChan [OF assms(1,2)] by blast
qed (auto intro!: ids_inv_cong [OF assms(2)] simp: panics_def fwd_ok_def fwChans_def)

lemma ids_quiet:
  assumes "ids_inv s" "sy_threads t = sy_threads s" "ws_regs (sy_conn t) = ws_regs (sy_conn s)"
    and "ws_chanCtr (sy_conn t) = ws_chanCtr (sy_conn s)" "fwChans t = fwChans s"
  shows "ids_inv t"
  using assms(2-5) by (intro ids_inv_cong [OF assms(1)]) (simp_all add: fwd_ok_def)

text \<open>A round of the forwarding goroutine on well-formed slices keeps them so and does not panic.\<close>

lemma fwd_ok_select:
  assumes "forwarderSelect sel s = Some t" "fwd_ok s"
  shows "fwd_ok t \<and> sy_panic t = sy_panic s"
proof -
  from assms(1) obtain oc where oc: "sy_forwarder s = FwSelect oc"
    by (auto simp: forwarderSelect_def split: outForwarder.splits)
  with assms(2) have ok: "oh_wf oc" "\<forall>(ch, i)\<in>set (oh_pairs oc). (i, ch) \<in> set (ws_regs (sy_conn s))"
    by (auto simp: fwd_ok_def fwChans_def)
  show ?thesis
  proof (cases sel)
    case (ChanClosed k)
    with assms(1) oc have k: "0 < k" "k \<le> length (oh_cases oc)" by (auto simp: forwarderSelect_def split: if_splits)
    then obtain j where j: "k = Suc j" "j < length (oh_cases oc)" by (cases k) auto
    from outChansRound_close [OF ok(1) j(2), where 'v = 'a] obtain oc' where oc': "outChansRound sel oc =
        Inr (Some (oc', Some (closeRequest (last (oh_caseToID oc)))))"
      "oh_wf oc'" "set (oh_pairs oc') = set (oh_pairs oc) - {oh_pairs oc ! j}" using ChanClosed j(1) by blast
    with assms(1) oc k ChanClosed have "t = s\<lparr>sy_forwarder := FwSend oc' (closeRequest (last (oh_caseToID oc)))\<rparr>"
      by (simp add: forwarderSelect_def)
    with oc' ok(2) show ?thesis by (auto simp: fwd_ok_def fwChans_def)
  next
    case (ChanValue k v)
    with assms(1) oc have k: "0 < k" "k \<le> length (oh_cases oc)" by (auto simp: forwarderSelect_def split: if_splits)
    then obtain j where j: "k = Suc j" "j < length (oh_cases oc)" by (cases k) auto
    with assms(1) oc k ChanValue outChansRound_value [OF ok(1) j(2), of v]
    have "t = s\<lparr>sy_forwarder := FwSend oc (valueRequest (snd (oh_pairs oc ! j)) v)\<rparr>"
      by (simp add: forwarderSelect_def)
    with ok show ?thesis by (auto simp: fwd_ok_def fwChans_def)
  qed (use assms(1) oc in \<open>auto simp: forwarderSelect_def outChansRound_def fwd_ok_def fwChans_def split: if_splits\<close>)
qed

lemma ids_forwarderSelect:
  assumes "ids_inv s" "forwarderSelect sel s = Some t"
  shows "ids_inv t"
proof -
  have "sy_threads t = sy_threads s \<and> sy_conn t = sy_conn s"
    using assms(2) by (auto simp: forwarderSelect_def panics_def split: outForwarder.splits if_splits sum.splits option.splits)
  then show ?thesis using fwd_ok_select [OF assms(2)] by (intro ids_inv_cong [OF assms(1)]) auto
qed

lemma ids_sendLocked: "ids_inv s \<Longrightarrow> sendLocked w ok rq s = Some t \<Longrightarrow> ids_inv t"
  by (erule ids_quiet) (use sendLocked_frame [of w ok rq s t] in \<open>simp_all add: fwChans_def\<close>)

lemma ids_loopEvent:
  assumes "ids_inv s" "loopEvent E hs ev s = Some t"
  shows "ids_inv t"
  using assms(2)
proof (cases rule: loopEvent_cases)
  case (2 c gs)
  have "th_phase (newThread E hs g) = Between" for g by (simp add: newThread_def split: prod.split)
  with 2 show ?thesis by (intro ids_inv_cong [OF assms(1)]) (auto simp: fwd_ok_def fwChans_def)
qed (auto intro!: ids_quiet [OF assms(1)] simp: panics_def fwChans_def)

lemma ids_sys_step:
  assumes "sys_inv E hs faults s" "ids_inv s" "sys_step E hs faults s t"
  shows "ids_inv t"
  using assms(3)
proof (rule sys_stepE)
  fix a assume a: "sysStep E hs a s = Some t"
  show ?thesis
  proof (cases a)
    case (HandlerAct n ok)
    with a show ?thesis using ids_handlerStep [OF assms(1,2)] by (auto simp: sysStep_def)
  next
    case (SelectAct sel)
    with a show ?thesis using ids_forwarderSelect [OF assms(2)] by (auto simp: sysStep_def)
  next
    case (ForwardAct ok)
    with a obtain oc rq u where u: "sendLocked ByForwarder ok rq s = Some u" "t = u\<lparr>sy_forwarder := FwSelect oc\<rparr>"
      "sy_forwarder s = FwSend oc rq"
      by (auto simp: sysStep_def forwarderSend_def split: outForwarder.splits)
    show ?thesis
      by (rule ids_quiet [OF ids_sendLocked [OF assms(2) u(1)]])
        (use u sendLocked_frame [OF u(1)] in \<open>simp_all add: fwChans_def\<close>)
  next
    case (WatcherAct box k ok)
    with a obtain rq u where u: "sendLocked (ByWatcher k) ok rq s = Some u" "t = u\<lparr>sy_fired := k # sy_fired u\<rparr>"
      by (auto simp: sysStep_def watcherStep_def split: if_splits)
    show ?thesis
      by (rule ids_quiet [OF ids_sendLocked [OF assms(2) u(1)]]) (simp_all add: u fwChans_def)
  next
    case (LoopEvent ev)
    with a show ?thesis using ids_loopEvent [OF assms(2)] by (auto simp: sysStep_def)
  next
    case (LoopWrite ok)
    with a consider u rq where "sendLocked ByLoop ok rq s = Some u" "t = u\<lparr>sy_loop := LpSelect\<rparr>"
      | l where "t = s\<lparr>sy_conn := nextWriter ok CloseMsg (sy_conn s), sy_loop := LpCleanup, sy_log := l\<rparr>"
      by (auto simp: sysStep_def loopWrite_def split: loopState.splits option.splits)
    then show ?thesis
    proof cases
      case 1
      then show ?thesis by (intro ids_quiet [OF ids_sendLocked [OF assms(2) 1(1)]]) (simp_all add: fwChans_def)
    qed (auto intro!: ids_quiet [OF assms(2)] simp: nextWriter_def fwChans_def)
  next
    case (LoopCleanup seen cs ids)
    with a have "(\<exists>c. wsCleanup seen cs ids (sy_conn s) = Exit c \<and> t = s\<lparr>sy_conn := c, sy_loop := LpEnded\<rparr>) \<or>
      t = s\<lparr>sy_loop := LpBlocked\<rparr>"
      by (auto simp: sysStep_def loopCleanup_def split: loopState.splits flow.splits)
    then show ?thesis
      by (intro ids_quiet [OF assms(2)]) (auto dest!: wsCleanup_frame simp: fwChans_def)
  qed
qed

lemma ids_sys_init: "ids_inv sys_init"
  by (simp add: ids_inv_def sys_init_def ws_init_def registering_def fwd_ok_def fwChans_def)

interpretation ids: invariant "\<lambda>s. wf_handlers hs \<and> s = sys_init" "sys_step E hs faults"
  "\<lambda>s. sys_inv E hs faults s \<and> ids_inv s" for E hs faults
  by unfold_locales (auto intro: inv_sys_init ids_sys_init inv_sys_step ids_sys_step)

lemma sys_reachable_ids: "wf_handlers hs \<Longrightarrow> sys_reachable E hs faults s \<Longrightarrow> ids_inv s"
  using ids.inv_reachable [of hs E faults s] by (simp add: sys_reachable_def reachable_def)

lemma forwarderSend_panics:
  "forwarderSend ok s = Some t \<Longrightarrow> sy_panic t = (if ok then sy_panic s else Some UnlockOfUnlockedMutex)"
  by (auto simp: forwarderSend_def sendLocked_def sendRequest_def panics_def split: outForwarder.splits option.splits)


section \<open>Runs of a small server\<close>

definition demo_watchFrame :: "goint \<Rightarrow> int frame" where
  "demo_watchFrame i = frame_of_request (demo_request ''S.Watch'' (Some i) [])"

text \<open>Two calls of a method that returns a channel; the first one's channel has a value while the second is answered.\<close>

definition demo_jam :: "int sysAct list" where
  "demo_jam = [LoopEvent (Incoming (Some (demo_watchFrame 5))), LoopEvent (Incoming (Some (demo_watchFrame 6)))] @
     replicate 6 (HandlerAct 0 True) @ [SelectAct (ChanValue 1 (GVal 7))] @ replicate 3 (HandlerAct 1 True)"

definition demo_view :: "int connSys \<Rightarrow> (phase \<times> nat) list \<times> nat option \<times> bool \<times> nat \<times> (uint64 \<times> nat) list" where
  "demo_view s = (map (\<lambda>h. (th_phase h, length (th_acts h))) (sy_threads s), sy_writeLK s,
     (case sy_forwarder s of FwSend oc rq \<Rightarrow> True | _ \<Rightarrow> False), length (ws_sent (sy_conn s)), ws_regs (sy_conn s))"

lemma demo_jam_run:
  "map_option demo_view (sysRun demo_env demo_handlers demo_jam sys_init) =
     Some ([(Between, 0), (Registering 2 7, 2)], Some 1, True, 1, [(1, 7)])"
  by code_simp

lemma demo_jam_state:
  obtains s where "sys_reachable demo_env demo_handlers False s" "jammed 1 s" "length (ws_sent (sy_conn s)) = 1"
    "ws_regs (sy_conn s) = [(1, 7)]" "length (sy_threads s) = 2" "length (th_acts (sy_threads s ! 0)) = 0"
proof -
  from demo_jam_run obtain s where s: "sysRun demo_env demo_handlers demo_jam sys_init = Some s"
    "demo_view s = ([(Between, 0), (Registering 2 7, 2)], Some 1, True, 1, [(1, 7)])" by auto
  have r: "sys_reachable demo_env demo_handlers False s"
    by (rule sysRun_reachable [OF s(1) sys_reachable_init]) (auto simp: demo_jam_def)
  from s(2) have v: "sy_writeLK s = Some 1" "length (ws_sent (sy_conn s)) = 1" "ws_regs (sy_conn s) = [(1, 7)]"
    "\<exists>oc rq. sy_forwarder s = FwSend oc rq"
    and th: "map (\<lambda>h. (th_phase h, length (th_acts h))) (sy_threads s) = [(Between, 0), (Registering 2 7, 2)]"
    by (auto simp: demo_view_def split: outForwarder.splits)
  from th obtain g h where gh: "sy_threads s = [g, h]" "th_acts g = []" "th_phase h = Registering 2 7" by auto
  then have "1 < length (sy_threads s)" by simp
  from inv_thread [OF sys_reachable_inv [OF demo_wf r] this] obtain bs a k where
    "thread_at demo_env False s 1 (sy_threads s ! 1) bs a k" .
  with gh have "th_acts h = [a, Done k]" "chanOf a = Some 7" by (auto simp: thread_at_def)
  with v gh r that show thesis by (auto simp: jammed_def)
qed

theorem handlers_reply_once_witness:
  "\<exists>s. sys_reachable demo_env demo_handlers False s \<and> length (msgs_of 0 s) = 1 \<and> length (sy_threads s) = 2"
proof (rule demo_jam_state)
  fix s assume s: "sys_reachable demo_env demo_handlers False s" "length (sy_threads s) = 2"
    "length (th_acts (sy_threads s ! 0)) = 0"
  from handlers_reply_once [OF demo_wf s(1), of 0] s(2,3) have "length (msgs_of 0 s) = 1"
    by (auto simp: answered_def)
  with s show ?thesis by blast
qed


theorem jammed_connection_witness:
  "\<exists>s. sys_reachable demo_env demo_handlers False s \<and> jammed 1 s \<and> length (ws_sent (sy_conn s)) = 1 \<and>
     (\<nexists>t. (sys_step demo_env demo_handlers False)\<^sup>*\<^sup>* s t \<and> length (ws_sent (sy_conn t)) = 2)"
proof (rule demo_jam_state)
  fix s assume s: "sys_reachable demo_env demo_handlers False s" "jammed 1 s" "length (ws_sent (sy_conn s)) = 1"
  have "length (ws_sent (sy_conn t)) \<noteq> 2" if "(sys_step demo_env demo_handlers False)\<^sup>*\<^sup>* s t" for t
    using jammed_connection [OF demo_wf s(1,2) that] s(3) by simp
  with s show ?thesis by blast
qed


end
