(* ===== verification/RpcSystem.thy ===== *)
theory RpcSystem
  imports WsThreads
begin

text \<open>
  Both ends of a connection in one system: a client's connection, the goroutines of the serving
  connection, and the messages on their way, delivered in order in each direction.
\<close>

section \<open>What steps of the serving side add\<close>

text \<open>
  The messages that are not replies of handlers have a method, so that the peer does not take
  them for responses.
\<close>

definition named :: "'v wsMsg \<Rightarrow> bool" where
  "named m \<longleftrightarrow> (\<forall>fr. m = FrameMsg fr \<longrightarrow> fr_Method fr \<noteq> '''')"

definition notices_inv :: "'v connSys \<Rightarrow> bool" where
  "notices_inv s \<longleftrightarrow> (\<forall>(w, m)\<in>set (sy_log s). (\<exists>n. w = ByHandler n) \<or> named m) \<and>
     (\<forall>oc rq. sy_forwarder s = FwSend oc rq \<longrightarrow> req_Method rq \<noteq> '''')"

lemma map_call_update:
  "n < length xs \<Longrightarrow> th_call h = th_call (xs ! n) \<Longrightarrow> map th_call (xs[n := h]) = map th_call xs"
  by (simp add: map_update list_update_same_conv)

lemma setThread_call:
  "n < length (sy_threads s) \<Longrightarrow> th_call h = th_call (sy_threads s ! n) \<Longrightarrow>
   map th_call (sy_threads (setThread n h s)) = map th_call (sy_threads s)"
  by (simp add: setThread_def map_call_update)

lemma handlerStep_extends:
  assumes "handlerStep E n ok s = Some t"
  shows "map th_call (sy_threads t) = map th_call (sy_threads s) \<and>
    (\<exists>l. sy_log t = sy_log s @ l \<and> (\<forall>e\<in>set l. fst e = ByHandler n)) \<and>
    (\<forall>oc rq. sy_forwarder t = FwSend oc rq \<longrightarrow> sy_forwarder s = FwSend oc rq)"
  using assms
proof (cases rule: handlerStep_cases)
  case (2 h a as)
  then show ?thesis by (auto simp: lockWriter_def setThread_def map_call_update split: option.splits if_splits)
next
  case (6 h a as)
  then show ?thesis by (auto simp: finishWrite_def setThread_def map_call_update)
next
  case (7 h a as i ch)
  from 7(5) show ?thesis
    by (cases rule: registerChan_cases) (use 7 in \<open>auto simp: panics_def setThread_def map_call_update\<close>)
qed (auto simp: panics_def setThread_def map_call_update drawId_def Let_def split: outForwarder.splits)

lemma sendLocked_extends:
  assumes "sendLocked w ok rq s = Some t"
  shows "sy_threads t = sy_threads s \<and> sy_forwarder t = sy_forwarder s \<and>
    (\<exists>l. sy_log t = sy_log s @ l \<and> (\<forall>e\<in>set l. e = (w, FrameMsg (frame_of_request rq))))"
  using assms by (auto simp: sendLocked_def sendRequest_def panics_def split: option.splits if_splits)

lemma outChansRound_named:
  "outChansRound sel oc = Inr (Some (oc', Some rq)) \<Longrightarrow> req_Method rq \<noteq> ''''"
  by (cases sel) (auto simp: outChansRound_def Let_def gbind_Inr_iff closeRequest_def valueRequest_def
      chClose_def chValue_def)

lemma forwarderSelect_extends:
  assumes "forwarderSelect sel s = Some t"
  shows "sy_threads t = sy_threads s \<and> sy_log t = sy_log s \<and> sy_conn t = sy_conn s \<and>
    (\<forall>oc rq. sy_forwarder t = FwSend oc rq \<longrightarrow> req_Method rq \<noteq> '''' \<or> sy_forwarder s = FwSend oc rq)"
  using assms
  by (auto simp: forwarderSelect_def panics_def split: outForwarder.splits if_splits sum.splits option.splits)
    (metis outChansRound_named)

lemma notices_append:
  assumes "notices_inv s" "sy_log t = sy_log s @ l" "\<forall>e\<in>set l. (\<exists>n. fst e = ByHandler n) \<or> named (snd e)"
    and "\<And>oc rq. sy_forwarder t = FwSend oc rq \<Longrightarrow> sy_forwarder s = FwSend oc rq"
  shows "notices_inv t"
proof -
  have "(\<exists>n. w = ByHandler n) \<or> named m" if "(w, m) \<in> set (sy_log t)" for w m
    using that assms(1-3) unfolding notices_inv_def by fastforce
  moreover have "req_Method rq \<noteq> ''''" if "sy_forwarder t = FwSend oc rq" for oc rq
    using assms(4) [OF that] assms(1) unfolding notices_inv_def by blast
  ultimately show ?thesis unfolding notices_inv_def by blast
qed

text \<open>The steps of a serving side that do not come from its peer.\<close>

fun internal :: "'v sysAct \<Rightarrow> bool" where
  "internal (HandlerAct n ok) = True"
| "internal (SelectAct sel) = True"
| "internal (ForwardAct ok) = True"
| "internal (WatcherAct box k ok) = True"
| "internal _ = False"

lemma internal_fits: "internal a \<Longrightarrow> act_fits a s"
  by (cases a) simp_all

lemma sendLocked_notice:
  assumes "sendLocked w ok rq s = Some u" "named (FrameMsg (frame_of_request rq))" "notices_inv s"
    and "sy_threads t = sy_threads u" "sy_log t = sy_log u"
    and "\<And>oc rq. sy_forwarder t = FwSend oc rq \<Longrightarrow> sy_forwarder u = FwSend oc rq"
  shows "map th_call (sy_threads t) = map th_call (sy_threads s) \<and> (\<exists>l. sy_log t = sy_log s @ l) \<and> notices_inv t"
proof -
  from sendLocked_extends [OF assms(1)] obtain l where l: "sy_threads u = sy_threads s"
    "sy_forwarder u = sy_forwarder s" "sy_log u = sy_log s @ l"
    "\<forall>e\<in>set l. e = (w, FrameMsg (frame_of_request rq))" by blast
  have "notices_inv t"
  proof (rule notices_append [OF assms(3), where l = l])
    show "sy_forwarder s = FwSend oc rq'" if "sy_forwarder t = FwSend oc rq'" for oc rq'
      using assms(6) [OF that] l(2) by simp
  qed (use l assms(2,5) in auto)
  with l assms(4,5) show ?thesis by simp
qed

lemma internal_extends:
  assumes "sysStep E hs a s = Some t" "internal a" "notices_inv s"
  shows "map th_call (sy_threads t) = map th_call (sy_threads s) \<and> (\<exists>l. sy_log t = sy_log s @ l) \<and> notices_inv t"
proof (cases a)
  case (HandlerAct n ok)
  with assms(1) have "handlerStep E n ok s = Some t" by (simp add: sysStep_def)
  from handlerStep_extends [OF this] obtain l where l: "map th_call (sy_threads t) = map th_call (sy_threads s)"
    "sy_log t = sy_log s @ l" "\<forall>e\<in>set l. fst e = ByHandler n"
    "\<forall>oc rq. sy_forwarder t = FwSend oc rq \<longrightarrow> sy_forwarder s = FwSend oc rq" by blast
  moreover have "notices_inv t" by (rule notices_append [OF assms(3) l(2)]) (use l(3,4) in auto)
  ultimately show ?thesis by blast
next
  case (SelectAct sel)
  with assms(1) have "forwarderSelect sel s = Some t" by (simp add: sysStep_def)
  note e = forwarderSelect_extends [OF this]
  have "req_Method rq \<noteq> ''''" if "sy_forwarder t = FwSend oc rq" for oc rq
    using e that assms(3) unfolding notices_inv_def by blast
  with e assms(3) show ?thesis by (simp add: notices_inv_def)
next
  case (ForwardAct ok)
  with assms(1) obtain oc rq u where u: "sendLocked ByForwarder ok rq s = Some u" "t = u\<lparr>sy_forwarder := FwSelect oc\<rparr>"
    "sy_forwarder s = FwSend oc rq"
    by (auto simp: sysStep_def forwarderSend_def split: outForwarder.splits)
  with assms(3) have "named (FrameMsg (frame_of_request rq))"
    by (simp add: notices_inv_def named_def frame_of_request_def)
  from sendLocked_notice [OF u(1) this assms(3), of t] show ?thesis by (simp add: u(2))
next
  case (WatcherAct box k ok)
  with assms(1) obtain i u where u: "sendLocked (ByWatcher k) ok (cancelRequest i) s = Some u"
    "t = u\<lparr>sy_fired := k # sy_fired u\<rparr>"
    by (auto simp: sysStep_def watcherStep_def split: if_splits)
  have "named (FrameMsg (frame_of_request (cancelRequest i)))"
    by (simp add: named_def frame_of_request_def cancelRequest_def wsCancel_def)
  from sendLocked_notice [OF u(1) this assms(3), of t] show ?thesis by (simp add: u(2))
qed (use assms(2) in simp_all)

text \<open>A frame of the peer: it may start one handler, for the request in the frame.\<close>

lemma handleFrame_spawned:
  assumes "handleFrame fr c = Next c'"
  shows "ws_spawned c' = ws_spawned c \<or> (\<exists>ctx. ws_spawned c' = ws_spawned c @ [(ctx, request_of_frame fr)])"
proof -
  have d: "deliver i q fr c0 = Next c' \<Longrightarrow> ws_spawned c' = ws_spawned c0" for i q c0
    by (auto simp: deliver_def split: option.splits)
  have "handleResponse fr c = Next c' \<Longrightarrow> ws_spawned c' = ws_spawned c"
    by (auto simp: handleResponse_def split: option.splits dest!: d)
  moreover have "cancelCtx fr c = Next c' \<Longrightarrow> ws_spawned c' = ws_spawned c"
    "handleChanMessage fr c = Next c' \<Longrightarrow> ws_spawned c' = ws_spawned c"
    "handleChanClose fr c = Next c' \<Longrightarrow> ws_spawned c' = ws_spawned c"
    by (auto simp: cancelCtx_def handleChanMessage_def handleChanClose_def Let_def
        split: list.splits option.splits)
  moreover have "handleCall fr c = Next c' \<Longrightarrow> ?thesis"
    by (auto simp: handleCall_def Let_def split: option.splits)
  ultimately show ?thesis using assms by (auto simp: handleFrame_def split: if_splits)
qed

lemma newThread_call [simp]: "th_call (newThread E hs g) = g"
  by (simp add: newThread_def split: prod.split)

lemma incoming_extends:
  assumes "sysStep E hs (LoopEvent (Incoming (Some fr))) s = Some t" "notices_inv s"
  shows "(map th_call (sy_threads t) = map th_call (sy_threads s) \<or>
      (\<exists>ctx. map th_call (sy_threads t) = map th_call (sy_threads s) @ [(ctx, request_of_frame fr)])) \<and>
    sy_log t = sy_log s \<and> notices_inv t"
proof -
  from assms(1) have l: "sy_loop s = LpSelect" by (auto simp: sysStep_def loopEvent_def split: loopState.splits)
  with assms(1) have t: "t = (case handleFrame fr (sy_conn s) of
      Next c \<Rightarrow> s\<lparr>sy_conn := c, sy_threads := sy_threads s @
        map (newThread E hs) (drop (length (ws_spawned (sy_conn s))) (ws_spawned c))\<rparr>
    | Exit c \<Rightarrow> s\<lparr>sy_conn := c, sy_loop := LpCleanup\<rparr> | Panic p \<Rightarrow> panics p s | Block \<Rightarrow> s\<lparr>sy_loop := LpBlocked\<rparr>)"
    by (simp add: sysStep_def loopEvent_def wsLoop_def)
  show ?thesis
  proof (cases "handleFrame fr (sy_conn s)")
    case (Next c)
    with t handleFrame_spawned [OF Next] assms(2) show ?thesis by (auto simp: notices_inv_def)
  qed (use t assms(2) in \<open>auto simp: notices_inv_def panics_def\<close>)
qed

section \<open>Client and server\<close>

text \<open>The request of a client as the serving side decodes it.\<close>

definition received :: "'v request \<Rightarrow> 'v request" where
  "received req = request_of_frame (frame_of_request req)"

lemma received_sel:
  "req_ID (received req) = req_ID req" "req_Method (received req) = req_Method req"
  "req_Params (received req) = map wireParam (req_Params req)"
  by (simp_all add: received_def request_of_frame_def frame_of_request_def)

text \<open>
  The two connections and how many messages of each have reached the other one; \<open>rs_issued\<close>
  lists the requests the client's connection took, \<open>rs_open\<close> says that its loop has not ended.
\<close>

record 'v rpcSys =
  rs_client :: "'v wsConn"
  rs_issued :: "'v clientRequest list"
  rs_server :: "'v connSys"
  rs_toServer :: nat
  rs_toClient :: nat
  rs_open :: bool

definition rpc_init :: "'v rpcSys" where
  "rpc_init = \<lparr>rs_client = ws_init, rs_issued = [], rs_server = sys_init, rs_toServer = 0, rs_toClient = 0, rs_open = True\<rparr>"

text \<open>
  The client's loop takes a request (the client numbers them and gives each its own channel); a
  context watcher of the client sends a cancellation; the next message of the client reaches the
  server; a goroutine of the server moves; the next message of the server reaches the client; the
  client's loop ends (it was stopped, the connection broke, or a frame did not decode) and its
  deferred function runs.
\<close>

inductive rpc_step :: "('v, 'sc) env \<Rightarrow> 'v handlers \<Rightarrow> bool \<Rightarrow> 'v rpcSys \<Rightarrow> 'v rpcSys \<Rightarrow> bool"
  for E hs faults where
  request: "rs_open s \<Longrightarrow> wsLoop (Request q True) (rs_client s) = Next cl \<Longrightarrow> issued (rs_issued s @ [q]) \<Longrightarrow>
    rpc_step E hs faults s (s\<lparr>rs_client := cl, rs_issued := rs_issued s @ [q]\<rparr>)"
| cancel: "w \<in> set (ws_watch (rs_client s)) \<Longrightarrow> handleCtxAsync True box w (rs_client s) = Next cl \<Longrightarrow>
    rpc_step E hs faults s (s\<lparr>rs_client := cl\<rparr>)"
| to_server: "rs_toServer s < length (ws_sent (rs_client s)) \<Longrightarrow>
    ws_sent (rs_client s) ! rs_toServer s = FrameMsg fr \<Longrightarrow> sy_panic (rs_server s) = None \<Longrightarrow>
    sysStep E hs (LoopEvent (Incoming (Some fr))) (rs_server s) = Some sv \<Longrightarrow>
    rpc_step E hs faults s (s\<lparr>rs_server := sv, rs_toServer := Suc (rs_toServer s)\<rparr>)"
| server: "sy_panic (rs_server s) = None \<Longrightarrow> internal a \<Longrightarrow> act_ok a \<or> faults \<Longrightarrow>
    sysStep E hs a (rs_server s) = Some sv \<Longrightarrow> rpc_step E hs faults s (s\<lparr>rs_server := sv\<rparr>)"
| to_client: "rs_open s \<Longrightarrow> rs_toClient s < length (ws_sent (sy_conn (rs_server s))) \<Longrightarrow>
    ws_sent (sy_conn (rs_server s)) ! rs_toClient s = FrameMsg fr \<Longrightarrow>
    handleFrame fr (rs_client s) = Next cl \<Longrightarrow>
    rpc_step E hs faults s (s\<lparr>rs_client := cl, rs_toClient := Suc (rs_toClient s)\<rparr>)"
| close: "rs_open s \<Longrightarrow> wsLoop ev (rs_client s) = Exit c \<Longrightarrow> distinct ids \<Longrightarrow> set ids = dom (ws_inflight c) \<Longrightarrow>
    wsCleanup seen cs ids c = Exit cl \<Longrightarrow> rpc_step E hs faults s (s\<lparr>rs_client := cl, rs_open := False\<rparr>)"

text \<open>
  A response on a \<open>ready\<close> channel is the message of a handler that serves the request the channel
  belongs to.
\<close>

definition matched :: "'v rpcSys \<Rightarrow> nat \<times> clientResponse \<Rightarrow> bool" where
  "matched s e \<longleftrightarrow> (\<exists>q\<in>set (rs_issued s). cq_ready q = Some (fst e) \<and>
     (\<exists>n fr. n < length (sy_threads (rs_server s)) \<and>
        snd (th_call (sy_threads (rs_server s) ! n)) = received (cq_req q) \<and>
        FrameMsg fr \<in> set (msgs_of n (rs_server s)) \<and> snd e = clientResponse_of fr))"

definition once_each :: "'v clientRequest list \<Rightarrow> 'v wsConn \<Rightarrow> bool" where
  "once_each qs c \<longleftrightarrow> (\<forall>q\<in>set qs. \<exists>r. cq_ready q = Some r \<and> sends_to r c = 1) \<and>
     (\<forall>e\<in>set (ws_ready c). \<exists>q\<in>set qs. cq_ready q = Some (fst e))"

lemma once_each_cong: "ws_ready c' = ws_ready c \<Longrightarrow> once_each qs c' = once_each qs c"
  by (simp add: once_each_def sends_to_def)

definition client_inv :: "'v rpcSys \<Rightarrow> bool" where
  "client_inv s = (if rs_open s then ws_inv (rs_issued s) (rs_client s) else once_each (rs_issued s) (rs_client s))"

definition explained :: "'v rpcSys \<Rightarrow> nat \<times> clientResponse \<Rightarrow> bool" where
  "explained s e \<longleftrightarrow> matched s e \<or> \<not> rs_open s \<and> (\<exists>i. snd e = closedResponse i)"

definition rpc_inv :: "('v, 'sc) env \<Rightarrow> 'v handlers \<Rightarrow> bool \<Rightarrow> 'v rpcSys \<Rightarrow> bool" where
  "rpc_inv E hs faults s \<longleftrightarrow> sys_inv E hs faults (rs_server s) \<and> notices_inv (rs_server s) \<and>
     issued (rs_issued s) \<and> client_inv s \<and>
     (\<forall>fr. FrameMsg fr \<in> set (ws_sent (rs_client s)) \<longrightarrow> fr_ID fr = None \<or>
        (\<exists>q\<in>set (rs_issued s). fr = frame_of_request (cq_req q))) \<and>
     (\<forall>h\<in>set (sy_threads (rs_server s)). \<exists>q\<in>set (rs_issued s). snd (th_call h) = received (cq_req q)) \<and>
     (\<forall>e\<in>set (ws_ready (rs_client s)). explained s e)"

lemma matched_mono:
  assumes "matched s e" "set (rs_issued s) \<subseteq> set (rs_issued t)"
    and "map th_call (sy_threads (rs_server t)) = map th_call (sy_threads (rs_server s)) @ gs"
    and "sy_log (rs_server t) = sy_log (rs_server s) @ l"
  shows "matched t e"
proof -
  from assms(1) obtain q n fr where q: "q \<in> set (rs_issued s)" "cq_ready q = Some (fst e)"
    "n < length (sy_threads (rs_server s))" "snd (th_call (sy_threads (rs_server s) ! n)) = received (cq_req q)"
    "FrameMsg fr \<in> set (msgs_of n (rs_server s))" "snd e = clientResponse_of fr" by (auto simp: matched_def)
  have len: "length (sy_threads (rs_server t)) = length (sy_threads (rs_server s)) + length gs"
    using arg_cong [OF assms(3), of length] by simp
  have "th_call (sy_threads (rs_server t) ! n) = th_call (sy_threads (rs_server s) ! n)"
    using arg_cong [OF assms(3), of "\<lambda>xs. xs ! n"] q(3) len by (simp add: nth_append)
  moreover have "FrameMsg fr \<in> set (msgs_of n (rs_server t))" using q(5) assms(4) by (auto simp: msgs_of_def)
  ultimately show ?thesis
    using q assms(2) len unfolding matched_def by (intro bexI [of _ q] conjI exI [of _ n] exI [of _ fr]) auto
qed

lemma ws_inv_frame:
  assumes "ws_inv qs c" "issued qs" "handleFrame fr c = Next c'"
  shows "ws_inv qs c'"
  using handleFrame_Next [OF assms(3)] ws_inv_answers [OF assms(1,2)] ws_inv_cong [of c' c] assms(1) by auto

lemma rpc_inv_mono:
  assumes "rpc_inv E hs faults s" "set (rs_issued s) \<subseteq> set (rs_issued t)" "issued (rs_issued t)"
    and "sys_inv E hs faults (rs_server t)" "notices_inv (rs_server t)" "client_inv t" "rs_open t \<longrightarrow> rs_open s"
    and "map th_call (sy_threads (rs_server t)) = map th_call (sy_threads (rs_server s)) @ gs"
    and "\<forall>g\<in>set gs. \<exists>q\<in>set (rs_issued t). snd g = received (cq_req q)"
    and "sy_log (rs_server t) = sy_log (rs_server s) @ l"
    and "\<And>fr. FrameMsg fr \<in> set (ws_sent (rs_client t)) \<Longrightarrow> FrameMsg fr \<in> set (ws_sent (rs_client s)) \<or>
           fr_ID fr = None \<or> (\<exists>q\<in>set (rs_issued t). fr = frame_of_request (cq_req q))"
    and "\<And>e. e \<in> set (ws_ready (rs_client t)) \<Longrightarrow> e \<in> set (ws_ready (rs_client s)) \<or> explained t e"
  shows "rpc_inv E hs faults t"
proof -
  have "\<exists>q\<in>set (rs_issued t). snd (th_call h) = received (cq_req q)" if "h \<in> set (sy_threads (rs_server t))" for h
  proof -
    from that have "th_call h \<in> set (map th_call (sy_threads (rs_server s)) @ gs)"
      unfolding assms(8) [symmetric] by simp
    with assms(1,2,9) show ?thesis by (fastforce simp: rpc_inv_def)
  qed
  moreover have "explained t e" if "e \<in> set (ws_ready (rs_client t))" for e
    using assms(12) [OF that] matched_mono [OF _ assms(2,8,10), of e] assms(1,7) unfolding rpc_inv_def explained_def by blast
  moreover have "fr_ID fr = None \<or> (\<exists>q\<in>set (rs_issued t). fr = frame_of_request (cq_req q))"
    if "FrameMsg fr \<in> set (ws_sent (rs_client t))" for fr
    using assms(11) [OF that] assms(1,2) unfolding rpc_inv_def by blast
  ultimately show ?thesis using assms(3-6) unfolding rpc_inv_def by blast
qed

lemma inv_to_client:
  assumes "rpc_inv E hs faults s" "rs_toClient s < length (ws_sent (sy_conn (rs_server s)))"
    and "ws_sent (sy_conn (rs_server s)) ! rs_toClient s = FrameMsg fr" "answers (rs_client s) fr cl"
    and "fr_Method fr = ''''" "rs_open s"
  shows "\<exists>r. ws_ready cl = ws_ready (rs_client s) @ [(r, clientResponse_of fr)] \<and> matched s (r, clientResponse_of fr)"
proof -
  from assms(4) obtain i q r where ans: "fr_ID fr = Some i" "ws_inflight (rs_client s) i = Some q" "cq_ready q = Some r"
    "ws_ready cl = ws_ready (rs_client s) @ [(r, clientResponse_of fr)]" by (auto simp: answers_def)
  from assms(1) have sv: "sys_inv E hs faults (rs_server s)" "notices_inv (rs_server s)" by (auto simp: rpc_inv_def)
  from assms(2,3) have "FrameMsg fr \<in> set (ws_sent (sy_conn (rs_server s)))" by (metis nth_mem)
  with sv(1) obtain w where w: "(w, FrameMsg fr) \<in> set (sy_log (rs_server s))" by (auto simp: sys_inv_def)
  have "\<not> named (FrameMsg fr)" using assms(5) by (simp add: named_def)
  with sv(2) w obtain n where "w = ByHandler n" unfolding notices_inv_def by blast
  with w have m: "FrameMsg fr \<in> set (msgs_of n (rs_server s))" by (force simp: msgs_of_def)
  with sv(1) have n: "n < length (sy_threads (rs_server s))"
    by (cases "n < length (sy_threads (rs_server s))") (auto simp: sys_inv_def)
  from msgs_answer [OF sv(1) n m] ans(1) have rid: "req_ID (snd (th_call (sy_threads (rs_server s) ! n))) = Some i"
    by auto
  from assms(1) n obtain p where p: "p \<in> set (rs_issued s)" "snd (th_call (sy_threads (rs_server s) ! n)) = received (cq_req p)"
    unfolding rpc_inv_def by (meson nth_mem)
  from assms(1,6) ans(2) have q: "q \<in> set (rs_issued s)" "req_ID (cq_req q) = Some i" by (auto simp: rpc_inv_def client_inv_def ws_inv_def)
  have "inj_on (\<lambda>q. req_ID (cq_req q)) (set (rs_issued s))"
    using assms(1) by (simp add: rpc_inv_def issued_def distinct_map)
  with p q rid have "p = q" by (simp add: inj_on_def received_sel)
  with p q(1) ans(3) n m have "matched s (r, clientResponse_of fr)" unfolding matched_def by auto
  with ans(4) show ?thesis by blast
qed

lemma rpc_inv_step:
  assumes "rpc_inv E hs faults s" "rpc_step E hs faults s t"
  shows "rpc_inv E hs faults t"
  using assms(2)
proof cases
  case (request q cl)
  from request(3) obtain i where cl: "ws_sent cl = ws_sent (rs_client s) @ [FrameMsg (frame_of_request (cq_req q))]"
    "ws_ready cl = ws_ready (rs_client s)"
    by (auto simp: wsLoop_def sendRequest_def split: option.splits)
  have "ws_inv (rs_issued s @ [q]) cl"
    using ws_inv_request [OF _ request(4,3)] assms(1) request(2) by (simp add: rpc_inv_def client_inv_def)
  then have inv: "client_inv t" using request(1,2) by (simp add: client_inv_def)
  show ?thesis
    by (rule rpc_inv_mono [OF assms(1), where gs = "[]" and l = "[]"])
      (use request cl inv assms(1) in \<open>auto simp: rpc_inv_def\<close>)
next
  case (cancel w box cl)
  from cancel(3) have cl: "cl = (rs_client s)\<lparr>ws_sent := ws_sent (rs_client s) @
      [FrameMsg (frame_of_request (cancelRequest (box (snd w))))]\<rparr>"
    by (simp add: handleCtxAsync_def sendRequest_def)
  have "client_inv t" using assms(1) ws_inv_cong [of cl "rs_client s"] once_each_cong [of cl "rs_client s"]
    by (simp add: cancel(1) cl rpc_inv_def client_inv_def)
  then show ?thesis
    by (intro rpc_inv_mono [OF assms(1), where gs = "[]" and l = "[]"])
      (use cancel(1) assms(1) in \<open>auto simp: rpc_inv_def cl frame_of_request_def cancelRequest_def\<close>)
next
  case (to_server fr sv)
  have st: "sys_step E hs faults (rs_server s) sv"
    using to_server(4,5) by (intro sys_step.act) simp_all
  with assms(1) have sv: "sys_inv E hs faults sv" by (auto simp: rpc_inv_def intro: inv_sys_step)
  from assms(1) incoming_extends [OF to_server(5)] obtain gs where
    ext: "map th_call (sy_threads sv) = map th_call (sy_threads (rs_server s)) @ gs"
      "gs = [] \<or> (\<exists>ctx. gs = [(ctx, request_of_frame fr)])"
      "sy_log sv = sy_log (rs_server s)" "notices_inv sv" by (auto simp: rpc_inv_def)
  have "\<exists>q\<in>set (rs_issued s). snd g = received (cq_req q)" if g: "g \<in> set gs" for g
  proof -
    from g ext(2) have sg: "snd g = request_of_frame fr" by auto
    from g ext(1) have "g \<in> set (map th_call (sy_threads sv))" by simp
    then obtain n where n: "n < length (sy_threads sv)" "th_call (sy_threads sv ! n) = g"
      by (auto simp: in_set_conv_nth)
    from inv_thread [OF sv n(1)] obtain bs a k where "thread_shape E hs (sy_threads sv ! n) bs a k" .
    then have "fr_ID fr \<noteq> None" using n(2) sg by (auto simp: thread_shape_def request_of_frame_def)
    moreover have "FrameMsg fr \<in> set (ws_sent (rs_client s))" using to_server(2,3) by (metis nth_mem)
    moreover have "\<forall>fr. FrameMsg fr \<in> set (ws_sent (rs_client s)) \<longrightarrow>
        fr_ID fr = None \<or> (\<exists>q\<in>set (rs_issued s). fr = frame_of_request (cq_req q))"
      using assms(1) by (simp add: rpc_inv_def)
    ultimately obtain q where "q \<in> set (rs_issued s)" "fr = frame_of_request (cq_req q)" by metis
    with sg show ?thesis by (auto simp: received_def)
  qed
  then show ?thesis
    by (intro rpc_inv_mono [OF assms(1), where gs = gs and l = "[]"])
      (use to_server(1) ext sv assms(1) in \<open>auto simp: rpc_inv_def client_inv_def\<close>)
next
  case (server a sv)
  have "sys_step E hs faults (rs_server s) sv"
    using server(2-5) by (intro sys_step.act [of _ a] internal_fits)
  with assms(1) have sv: "sys_inv E hs faults sv" by (auto simp: rpc_inv_def intro: inv_sys_step)
  from internal_extends [OF server(5,3)] assms(1) obtain l where
    "map th_call (sy_threads sv) = map th_call (sy_threads (rs_server s))" "sy_log sv = sy_log (rs_server s) @ l"
    "notices_inv sv" by (auto simp: rpc_inv_def)
  then show ?thesis
    by (intro rpc_inv_mono [OF assms(1), where gs = "[]" and l = l])
      (use server(1) sv assms(1) in \<open>auto simp: rpc_inv_def client_inv_def\<close>)
next
  case (to_client fr cl)
  have "ws_inv (rs_issued s) cl"
    using ws_inv_frame [OF _ _ to_client(5)] assms(1) to_client(2) by (auto simp: rpc_inv_def client_inv_def)
  then have inv: "client_inv t" by (simp add: to_client(1,2) client_inv_def)
  have sent: "ws_sent cl = ws_sent (rs_client s)" using handleFrame_frame [OF to_client(5)] by simp
  have "e \<in> set (ws_ready (rs_client s)) \<or> matched s e" if "e \<in> set (ws_ready cl)" for e
  proof (cases "fr_Method fr = '''' \<and> answers (rs_client s) fr cl")
    case True
    with inv_to_client [OF assms(1) to_client(3,4) _ _ to_client(2)] that show ?thesis by fastforce
  next
    case False
    then have "ws_ready cl = ws_ready (rs_client s)"
      using handleFrame_Next [OF to_client(5)] handleFrame_named [OF to_client(5)] by auto
    with that show ?thesis by simp
  qed
  moreover have "matched t e = matched s e" for e by (simp add: to_client(1) matched_def)
  ultimately show ?thesis
    by (intro rpc_inv_mono [OF assms(1), where gs = "[]" and l = "[]"])
      (use to_client(1) inv sent assms(1) in \<open>auto simp: rpc_inv_def explained_def\<close>)
next
  case (close ev c ids seen cs cl)
  have c: "ws_inflight c = ws_inflight (rs_client s)" "ws_ready c = ws_ready (rs_client s)"
    "\<And>fr. FrameMsg fr \<in> set (ws_sent c) \<Longrightarrow> FrameMsg fr \<in> set (ws_sent (rs_client s))"
    using close(3) handleFrame_no_Exit
    by (auto simp: wsLoop_def sendRequest_def split: event.splits option.splits if_splits)
  have iss: "issued (rs_issued s)" and "ws_inv (rs_issued s) c"
    using assms(1) close(2) ws_inv_cong [OF c(1,2)] by (auto simp: rpc_inv_def client_inv_def)
  from cleanup_once [OF this(2) iss close(4,5), of seen cs] close(6) have cl: "once_each (rs_issued s) cl"
    "\<forall>e\<in>set (ws_ready cl). e \<in> set (ws_ready (rs_client s)) \<or> (\<exists>i. snd e = closedResponse i)"
    "ws_sent cl = ws_sent c" by (auto simp: once_each_def c(2))
  have "client_inv t" using cl(1) by (simp add: close(1) client_inv_def)
  then show ?thesis
    by (intro rpc_inv_mono [OF assms(1), where gs = "[]" and l = "[]"])
      (use close(1) c(3) cl(2,3) assms(1) in \<open>auto simp: rpc_inv_def explained_def\<close>)
qed

section \<open>Reachable states\<close>

lemma rpc_inv_init: "wf_handlers hs \<Longrightarrow> rpc_inv E hs faults rpc_init"
  using inv_sys_init [of hs E faults]
  by (simp add: rpc_inv_def rpc_init_def notices_inv_def sys_init_def ws_init_def client_inv_def ws_inv_def issued_def)

interpretation ends: invariant "\<lambda>s. wf_handlers hs \<and> s = rpc_init" "rpc_step E hs faults" "rpc_inv E hs faults"
  for E hs faults
  by unfold_locales (auto intro: rpc_inv_init rpc_inv_step)

definition rpc_reachable :: "('v, 'sc) env \<Rightarrow> 'v handlers \<Rightarrow> bool \<Rightarrow> 'v rpcSys \<Rightarrow> bool" where
  "rpc_reachable E hs faults = reachable (\<lambda>s. s = rpc_init) (rpc_step E hs faults)"

lemma rpc_reachable_inv: "wf_handlers hs \<Longrightarrow> rpc_reachable E hs faults s \<Longrightarrow> rpc_inv E hs faults s"
  by (rule ends.inv_reachable) (simp add: rpc_reachable_def reachable_def)

lemma rpc_reachable_init: "rpc_reachable E hs faults rpc_init"
  by (simp add: rpc_reachable_def reachable_init)

lemma rpc_reachable_step: "rpc_reachable E hs faults s \<Longrightarrow> rpc_step E hs faults s t \<Longrightarrow> rpc_reachable E hs faults t"
  unfolding rpc_reachable_def by (rule reachable_step)

text \<open>A reply a client can get to a request: what \<open>handle\<close> answers, as a frame with the id of the request.\<close>

definition reply_to :: "('v, 'sc) env \<Rightarrow> 'v handlers \<Rightarrow> 'v wsConn \<Rightarrow> 'v request \<Rightarrow> clientResponse \<Rightarrow> bool" where
  "reply_to E hs c req resp \<longleftrightarrow> (\<exists>ctx bs a k b i fr.
     handle E hs ctx (received req) True = (bs @ [a, Done k], None) \<and> resolved c a b \<and>
     replyMsg E (received req) b = FrameMsg fr \<and> req_ID req = Some i \<and> fr_ID fr = Some i \<and>
     resp = clientResponse_of fr)"

lemma matched_reply:
  assumes "sys_inv E hs faults (rs_server s)" "issued (rs_issued s)" "matched s (r, resp)"
    and "q \<in> set (rs_issued s)" "cq_ready q = Some r"
  shows "reply_to E hs (sy_conn (rs_server s)) (cq_req q) resp"
proof -
  have "inj_on cq_ready (set (rs_issued s))" using assms(2) by (simp add: issued_def distinct_map)
  then have own: "p = q" if "p \<in> set (rs_issued s)" "cq_ready p = Some r" for p
    using that assms(4,5) by (simp add: inj_on_def)
  from assms(3) obtain p n fr where p: "p \<in> set (rs_issued s)" "cq_ready p = Some r" and
    n: "n < length (sy_threads (rs_server s))" "snd (th_call (sy_threads (rs_server s) ! n)) = received (cq_req p)"
    "FrameMsg fr \<in> set (msgs_of n (rs_server s))" "resp = clientResponse_of fr"
    unfolding matched_def fst_conv snd_conv by blast
  note n = n [unfolded own [OF p]]
  from msgs_answer [OF assms(1) n(1,3)] obtain bs a k b i where
    "handle E hs (fst (th_call (sy_threads (rs_server s) ! n))) (received (cq_req q)) True = (bs @ [a, Done k], None)"
    "resolved (sy_conn (rs_server s)) a b" "FrameMsg fr = replyMsg E (received (cq_req q)) b"
    "req_ID (cq_req q) = Some i" "fr_ID fr = Some i" by (auto simp: n(2) received_sel)
  then show ?thesis unfolding reply_to_def using n(4) by (metis (no_types))
qed

lemma ready_reply:
  assumes "wf_handlers hs" "rpc_reachable E hs faults s" "q \<in> set (rs_issued s)" "cq_ready q = Some r"
    and "(r, resp) \<in> set (ws_ready (rs_client s))"
  shows "reply_to E hs (sy_conn (rs_server s)) (cq_req q) resp \<or> \<not> rs_open s \<and> (\<exists>i. resp = closedResponse i)"
proof -
  note inv = rpc_reachable_inv [OF assms(1,2)]
  then have "explained s (r, resp)" using assms(5) by (simp add: rpc_inv_def)
  with inv show ?thesis
    using matched_reply [of E hs faults s r resp q] assms(3,4) by (auto simp: explained_def rpc_inv_def)
qed

lemma ready_counts:
  assumes "wf_handlers hs" "rpc_reachable E hs faults s" "q \<in> set (rs_issued s)"
  shows "\<exists>r. cq_ready q = Some r \<and> sends_to r (rs_client s) \<le> 1 \<and> (\<not> rs_open s \<longrightarrow> sends_to r (rs_client s) = 1)"
proof (cases "rs_open s")
  case True
  with rpc_reachable_inv [OF assms(1,2)] have "ws_inv (rs_issued s) (rs_client s)"
    by (simp add: rpc_inv_def client_inv_def)
  with assms(3) obtain i r where "cq_ready q = Some r"
    "sends_to r (rs_client s) = (if ws_inflight (rs_client s) i = Some q then 0 else 1)"
    unfolding ws_inv_def by blast
  with True show ?thesis by simp
next
  case False
  with rpc_reachable_inv [OF assms(1,2)] have "once_each (rs_issued s) (rs_client s)"
    by (simp add: rpc_inv_def client_inv_def)
  with assms(3) show ?thesis by (auto simp: once_each_def)
qed

text \<open>
  C5: responses match requests, over both ends of a connection. Whatever the order in which a
  client issues and cancels calls, in which messages travel in the two directions, in which the
  goroutines of the serving side move, and whenever the connection breaks: on the \<open>ready\<close> channel of
  a call there is at most one value; it is the frame of the reply that \<open>handle\<close> gives to the request
  of that very call as received, or the connection has closed and it is the error that says so; once
  the client's loop has ended, every call has its value.
\<close>

theorem responses_match_requests:
  assumes "wf_handlers hs" "rpc_reachable E hs faults s" "q \<in> set (rs_issued s)"
  shows "\<exists>r. cq_ready q = Some r \<and> sends_to r (rs_client s) \<le> 1 \<and>
    (\<not> rs_open s \<longrightarrow> sends_to r (rs_client s) = 1) \<and>
    (\<forall>resp. (r, resp) \<in> set (ws_ready (rs_client s)) \<longrightarrow>
       reply_to E hs (sy_conn (rs_server s)) (cq_req q) resp \<or> \<not> rs_open s \<and> (\<exists>i. resp = closedResponse i))"
proof -
  from ready_counts [OF assms] obtain r where "cq_ready q = Some r" "sends_to r (rs_client s) \<le> 1"
    "\<not> rs_open s \<longrightarrow> sends_to r (rs_client s) = 1" by blast
  with ready_reply [OF assms] show ?thesis by blast
qed

text \<open>The steps of an open connection as a function, to run them.\<close>

datatype 'v rpcAct = Issue "'v clientRequest" | ToServer | Serve "'v sysAct" | ToClient

fun rpcStep :: "('v, 'sc) env \<Rightarrow> 'v handlers \<Rightarrow> 'v rpcAct \<Rightarrow> 'v rpcSys \<Rightarrow> 'v rpcSys option" where
  "rpcStep E hs (Issue q) s = (case wsLoop (Request q True) (rs_client s) of
     Next cl \<Rightarrow> (if rs_open s \<and> issued (rs_issued s @ [q]) then Some (s\<lparr>rs_client := cl, rs_issued := rs_issued s @ [q]\<rparr>) else None)
   | _ \<Rightarrow> None)"
| "rpcStep E hs ToServer s = (if rs_toServer s < length (ws_sent (rs_client s)) \<and> sy_panic (rs_server s) = None
     then (case ws_sent (rs_client s) ! rs_toServer s of
        FrameMsg fr \<Rightarrow> map_option (\<lambda>sv. s\<lparr>rs_server := sv, rs_toServer := Suc (rs_toServer s)\<rparr>)
          (sysStep E hs (LoopEvent (Incoming (Some fr))) (rs_server s))
      | _ \<Rightarrow> None) else None)"
| "rpcStep E hs (Serve a) s = (if sy_panic (rs_server s) = None \<and> internal a \<and> act_ok a
     then map_option (\<lambda>sv. s\<lparr>rs_server := sv\<rparr>) (sysStep E hs a (rs_server s)) else None)"
| "rpcStep E hs ToClient s = (if rs_open s \<and> rs_toClient s < length (ws_sent (sy_conn (rs_server s)))
     then (case ws_sent (sy_conn (rs_server s)) ! rs_toClient s of
        FrameMsg fr \<Rightarrow> (case handleFrame fr (rs_client s) of
          Next cl \<Rightarrow> Some (s\<lparr>rs_client := cl, rs_toClient := Suc (rs_toClient s)\<rparr>) | _ \<Rightarrow> None)
      | _ \<Rightarrow> None) else None)"

fun rpcRun :: "('v, 'sc) env \<Rightarrow> 'v handlers \<Rightarrow> 'v rpcAct list \<Rightarrow> 'v rpcSys \<Rightarrow> 'v rpcSys option" where
  "rpcRun E hs [] s = Some s"
| "rpcRun E hs (a # as) s = Option.bind (rpcStep E hs a s) (rpcRun E hs as)"

lemma rpcStep_step: "rpcStep E hs a s = Some t \<Longrightarrow> rpc_step E hs faults s t"
  by (cases a) (auto split: if_splits flow.splits wsMsg.splits intro: rpc_step.intros)

lemma rpcRun_reachable:
  "rpcRun E hs as s = Some t \<Longrightarrow> rpc_reachable E hs faults s \<Longrightarrow> rpc_reachable E hs faults t"
proof (induction as arbitrary: s)
  case (Cons a as)
  then obtain u where "rpcStep E hs a s = Some u" "rpcRun E hs as u = Some t" by (auto split: bind_splits)
  with Cons show ?case by (blast intro: rpc_reachable_step rpcStep_step)
qed simp

definition demo_stubReq :: "goint \<Rightarrow> int \<Rightarrow> int request" where
  "demo_stubReq i b = (case stubRequest demo_env ''S'' demo_stub i [GCtx 9, GVal 2, GVal b] of
     Inr (req, ctx) \<Rightarrow> req | Inl p \<Rightarrow> demo_request '''' None [])"

definition demo_issued :: "int clientRequest list" where
  "demo_issued = [\<lparr>cq_req = demo_stubReq 1 3, cq_ready = Some 10, cq_retCh = None\<rparr>,
     \<lparr>cq_req = demo_stubReq 2 5, cq_ready = Some 11, cq_retCh = None\<rparr>]"

text \<open>Two calls of one client; the second is answered, then the connection breaks.\<close>

definition demo_rpc :: "int rpcAct list" where
  "demo_rpc = [Issue (demo_issued ! 0), Issue (demo_issued ! 1), ToServer, Serve (HandlerAct 0 True), ToServer] @
     replicate 4 (Serve (HandlerAct 1 True)) @ [ToClient]"

definition demo_reply :: "goint \<Rightarrow> int \<Rightarrow> clientResponse" where
  "demo_reply i v = \<lparr>cr_Jsonrpc = ''2.0'', cr_Result = Some (Doc (JInt v)), cr_ID = Some i, cr_Error = None\<rparr>"

lemma demo_rpc_run:
  "map_option (\<lambda>s. (rs_issued s, rs_open s, ws_ready (rs_client s),
       map_option cq_ready (ws_inflight (rs_client s) 1), map_option cq_ready (ws_inflight (rs_client s) 2)))
     (rpcRun demo_env demo_handlers demo_rpc rpc_init) =
     Some (demo_issued, True, [(11, demo_reply 2 7)], Some (Some 10), None)"
  by code_simp

lemma demo_rpc_closed:
  "\<exists>s. rpc_reachable demo_env demo_handlers False s \<and> rs_issued s = demo_issued \<and> \<not> rs_open s \<and>
     ws_ready (rs_client s) = [(11, demo_reply 2 7), (10, closedResponse 1)]"
proof -
  from demo_rpc_run obtain s q where s: "rpcRun demo_env demo_handlers demo_rpc rpc_init = Some s"
    "rs_issued s = demo_issued" "rs_open s" "ws_ready (rs_client s) = [(11, demo_reply 2 7)]"
    "ws_inflight (rs_client s) 1 = Some q" "cq_ready q = Some 10" "ws_inflight (rs_client s) 2 = None" by auto
  note r = rpcRun_reachable [OF s(1) rpc_reachable_init, of False]
  have ids: "req_ID (demo_stubReq 1 3) = Some 1" "req_ID (demo_stubReq 2 5) = Some 2" by code_simp+
  have "ws_inv demo_issued (rs_client s)"
    using rpc_reachable_inv [OF demo_wf r] s(2,3) by (simp add: rpc_inv_def client_inv_def)
  then have "i = 1 \<or> i = 2" if "ws_inflight (rs_client s) i = Some p" for i p
    using that ids unfolding ws_inv_def by (force simp: demo_issued_def)
  with s(5,7) have "ws_inflight (rs_client s) i \<noteq> None \<longleftrightarrow> i = 1" for i
    by (metis option.distinct(1) option.exhaust)
  then have "set [1] = dom (ws_inflight (rs_client s))" by (simp add: dom_def)
  with s(3,5,6) r have "rpc_reachable demo_env demo_handlers False (s\<lparr>rs_client := (rs_client s)\<lparr>
      ws_ready := ws_ready (rs_client s) @ [(10, closedResponse 1)], ws_cancelled := ws_cancelled (rs_client s) @ []\<rparr>, rs_open := False\<rparr>)"
    by (intro rpc_reachable_step [OF r] rpc_step.close [where ev = Closed and c = "rs_client s" and ids = "[1]" and cs = "[]" and seen = id])
      (simp_all add: wsLoop_def)
  with s(2,4) show ?thesis by fastforce
qed

theorem responses_match_requests_witness:
  "\<exists>s. rpc_reachable demo_env demo_handlers False s \<and> rs_issued s = demo_issued \<and> \<not> rs_open s \<and>
     sends_to 10 (rs_client s) = 1 \<and> sends_to 11 (rs_client s) = 1 \<and>
     reply_to demo_env demo_handlers (sy_conn (rs_server s)) (demo_stubReq 2 5) (demo_reply 2 7)"
proof -
  from demo_rpc_closed obtain s where r: "rpc_reachable demo_env demo_handlers False s" and
    s: "rs_issued s = demo_issued" "\<not> rs_open s"
    "ws_ready (rs_client s) = [(11, demo_reply 2 7), (10, closedResponse 1)]" by blast
  have q: "demo_issued ! 0 \<in> set (rs_issued s)" "demo_issued ! 1 \<in> set (rs_issued s)"
    by (simp_all add: s(1) demo_issued_def)
  have "sends_to 10 (rs_client s) = 1"
    using responses_match_requests [OF demo_wf r q(1)] s(2) by (simp add: demo_issued_def)
  moreover have "sends_to 11 (rs_client s) = 1"
    "reply_to demo_env demo_handlers (sy_conn (rs_server s)) (demo_stubReq 2 5) (demo_reply 2 7)"
    using responses_match_requests [OF demo_wf r q(2)] s(2,3) by (auto simp: demo_issued_def demo_reply_def closedResponse_def)
  ultimately show ?thesis using r s(1,2) by blast
qed

end
