(* ===== verification/Spec2Isabelle.thy ===== *)
theory Spec2Isabelle
  imports RlePlus HttpRequest Dashboard SectorJson WsProgress RpcSystem
begin

text \<open>
  A verification of the Go programs and libraries of this repository: a dashboard that asks a
  Filecoin node for its state over JSON-RPC and reports it, a local test node that answers, the
  RPC library both use, the HTTP server the node runs on, and two libraries of the node's data
  (the RLE+ codec and the binding to the proofs and signature library).

  \<^bold>\<open>Parts of the program and how they interact.\<close> \<open>src/main/clientrpc.go\<close> builds, once a minute, eight
  clients with \<open>rpc.NewClient\<close>; each fills a struct of function fields with stubs, calls the stub
  and returns its value; \<open>main\<close> collects the values into a \<open>Lotus\<close> report, which
  \<open>src/main/server/server.go\<close> posts. A stub (\<open>src/main/rpc/client.go\<close>) queues its request for the loop of
  a \<open>wsConn\<close> (\<open>src/main/rpc/websocket.go\<close>), which writes it as a frame; the \<open>wsConn\<close> at the other end,
  started by \<open>src/main/rpc/server.go\<close>, starts \<open>handlers.handle\<close> (\<open>src/main/rpc/handler.go\<close>) for it, and the
  response travels back to the channel the stub waits on. \<open>src/main/localserver.go\<close> registers eight
  methods and serves them through \<open>src/main/httptest/server.go\<close>. \<open>src/main/extern/rleplus\<close> and
  \<open>src/main/extern/filecoin-ffi\<close> are used by the node's own packages, outside this repository.

  \<^bold>\<open>Theories.\<close>
  \<^item> \<open>Prelude\<close>: Go's machine integers as words, panics as values of a sum type (\<open>gbind\<close>, \<open>gfold\<close>), checked
    indexing, lemmas on words and lists, and the locale \<open>invariant\<close> for transition systems.
  \<^item> \<open>BitVector\<close>: \<open>rleplus/internal/bitvector.go\<close>, one definition per method on a record of buffer,
    length and bit numbering. Locales \<open>bit_sink\<close>, \<open>bit_writer\<close> and \<open>bit_source\<close> state what a client may rely
    on and are interpreted on \<open>Push\<close>, \<open>Extend\<close> and the iterator. The lemmas relate each operation to the
    list of bits the vector denotes.
  \<^item> \<open>RlePlus\<close>: \<open>rleplus/rleplus.go\<close> (\<open>RunLengths\<close>, \<open>Encode\<close>, \<open>Decode\<close>) with the variable-length integers of
    \<open>encoding/binary\<close>. Shown: decoding inverts encoding, the encoding is a sentence of the documented
    grammar and canonical for the set, decoding ends on every buffer, and two silent errors.
  \<^item> \<open>HttpServer\<close>: \<open>httptest/server.go\<close>. The connection hook, \<open>Start\<close>, \<open>Close\<close> and
    \<open>CloseClientConnections\<close> as operations and steps on a \<open>Server\<close> record with its wait group; shown are
    the connection protocol, what \<open>Close\<close> closes, and that \<open>Start\<close> and \<open>Close\<close> never return.
  \<^item> \<open>RpcTypes\<close>: \<open>rpc/util.go\<close> and the struct types of the package; JSON documents, what a request and a
    response become on the wire, base64.
  \<^item> \<open>RpcHandler\<close>: \<open>rpc/handler.go\<close> and \<open>rpc/server.go\<close>. \<open>handle\<close> is the sequence of calls it makes of the
    functions it is given; \<open>ServeHTTP\<close> runs them on a reply. Shown: the protocol of \<open>handle\<close>, which
    requests are refused and how, registration, and the HTTP replies.
  \<^item> \<open>RpcClient\<close>: \<open>rpc/client.go\<close>. Stubs and what they return, \<open>sendRequest\<close> with its queue as a step
    relation (with the loop that takes from the queue and its deferred function, from
    \<open>rpc/websocket.go\<close>), the buffer of a channel-valued call as a step relation, \<open>NewMergeClient\<close>.
  \<^item> \<open>WsConn\<close>: \<open>rpc/websocket.go\<close>. The state of a connection, one definition per frame handler, the loop
    over a sequence of events, the deferred cleanup, the handler goroutines and the forwarding of
    channels. Shown: exactly one response per request, the life of a call with the message that
    answers it, the frames on which the loop panics, and what is lost on the wire.
  \<^item> \<open>WsThreads\<close>: the goroutines of one connection as a transition system. A handler is the sequence of
    calls \<open>handle\<close> makes and its position in \<open>nextWriter\<close> and \<open>handleChanOut\<close>; the forwarding goroutine,
    the context watchers and the loop are its partners over \<open>writeLK\<close>, the registration channel and the
    connection. Each goroutine has an executable step function; \<open>sys_step\<close> lets any of them move. The
    invariant gives, for every interleaving, that a handler writes exactly the reply of \<open>handle\<close>.
  \<^item> \<open>WsProgress\<close>: the deadlock of a handler that registers a channel under \<open>writeLK\<close> with the forwarding
    goroutine that waits for it: it is reachable, permanent, and the only reason why calls cannot end
    (a measure decreases along a schedule otherwise). The ids of forwarded channels and their bound.
  \<^item> \<open>RpcSystem\<close>: both ends of a connection as one transition system: a client that issues and cancels
    calls, the messages in the two directions, the goroutines of the serving side, and the end of the
    client's loop with its deferred function. The invariant gives, for every interleaving, that a
    response is the reply of \<open>handle\<close> to the request whose channel it is sent on.
  \<^item> \<open>Ffi\<close>: \<open>filecoin-ffi/proofs.go\<close> and \<open>bls.go\<close> over an explicit C heap in the state monad, with
    NUL-terminated strings, arrays of at most \<open>1 << 30\<close> entries and null responses. The judgement \<open>does\<close>
    gives, with one rule per construct, the value a binding returns and the number of blocks it leaves
    allocated (\<open>leaks\<close>). Shown: what the library receives, what the caller gets, and what is
    freed and what is leaked. The locale \<open>slice_sorter\<close> states what \<open>sort.Slice\<close> promises and is interpreted
    on the part of it that runs for short slices.
  \<^item> \<open>SectorJson\<close>: the JSON methods of the sorted sector infos, with the rules of \<open>encoding/json\<close> for their
    types (numbers, arrays, names, and the coercion of strings to UTF-8), and which infos survive them.
  \<^item> \<open>HttpRequest\<close>: \<open>httptest/httptest.go\<close> (\<open>NewRequest\<close>) and the contract of its comment.
  \<^item> \<open>Dashboard\<close>: \<open>clientrpc.go\<close>, \<open>localserver.go\<close> and \<open>server/server.go\<close>: the rounds of the dashboard, the
    documents it posts, the service of the local node and the transmitting connection.
  \<^item> this theory: the properties that span components: a remote call from end to end, alone on its
    connection, among concurrent ones at the serving side, and over both ends of a shared connection.

  \<^bold>\<open>Parameters.\<close> What the sources take from other packages is an argument of the definitions: the
  codec of user-defined types and the span functions (the record \<open>env\<close>), the functions of the C
  library, the address parser and the tip set constructor of the local node, the success of reads,
  writes and posts. Hypotheses on them are stated where they are needed: \<open>round_trips\<close> (a value
  survives its encoding), \<open>wf_method\<close> (a method returns what its type declares), \<open>slice_sorter\<close>, and the
  connection protocol of \<open>net/http\<close>; every such property has a witness with a concrete instance.

  \<^bold>\<open>Bounds.\<close> Integers have their width of 64 bits. The theorems on the codec assume fewer than
  \<open>2^50\<close> integers to encode and buffers shorter than \<open>2^60\<close> bytes, so that the lengths the code computes
  do not wrap; slices of that size do not fit into memory. The decoding loop is a partial function
  that is proved to return on every buffer, so no fuel is used; a short buffer can describe up to
  \<open>2^63\<close> integers, and the memory their slice takes is not bounded in the model. The bound \<open>1 << 30\<close> of the
  arrays in \<open>Ffi\<close> is the one of the source. The loops of the connection, the dashboard and the test
  server do not end in the source; they are modelled by their rounds over arbitrary finite sequences
  of events.

  \<^bold>\<open>Not modelled.\<close> Logging and printing, \<open>logCloseHangDebugInfo\<close> included; dialling, sleeping and
  timeouts; the exhaustion of memory (\<open>make\<close>, \<open>append\<close>, \<open>malloc\<close>); the HTTP client a \<open>Server\<close> carries; data races on unsynchronised fields (\<open>incomingErr\<close>, and
  \<open>inflight\<close> while the deferred function iterates over it); blocking of network writes. In \<open>WsThreads\<close> the
  critical sections of \<open>handlingLK\<close>, the writes of the loop, of the forwarding goroutine and of the
  watchers, and the deferred functions are single steps: none of them waits inside for
  another goroutine of the connection. In \<open>RpcSystem\<close> the client serves no methods of its
  own and its writes succeed; messages are neither lost nor reordered, as TCP provides. In
  \<open>Dashboard\<close> the report on the local node takes the value of a method as the data \<open>NewClient\<close> returns
  (\<open>methodAnswer\<close>); the stub, the wire and the codec in between are those of this theory. The plan for
  what is left: the client goroutines of \<open>sendRequest\<close> joined to that system, and the HTTP server's
  connections joined to the handlers they serve.
\<close>

section \<open>A remote call from end to end\<close>

text \<open>A value that survives its encoding at a type: the documented behaviour of a codec for that type.\<close>

definition round_trips :: "('v, 'sc) env \<Rightarrow> gotype \<Rightarrow> 'v goval \<Rightarrow> bool" where
  "round_trips E t v \<longleftrightarrow> v \<noteq> GNil \<and>
     (\<exists>j. marshal E v = Some j \<and> env_decode E t (Some (Doc j)) = Inr v)"

lemma stubRequest_ok:
  assumes "stub_of fn" "args = (if rf_hasCtx fn = 1 then [GCtx x] else []) @ vs"
  shows "\<exists>req ctx. stubRequest E ns fn i args = Inr (req, ctx) \<and> req_ID req = Some i \<and>
    req_Method req = ns @ ''.'' @ rf_name fn \<and> req_Params req = map (stubParam E) vs"
proof -
  have "rf_hasCtx fn = 0 \<or> rf_hasCtx fn = 1" using assms(1) by (auto simp: stub_of_iff)
  then show ?thesis using assms(2) by (auto simp: stubRequest_def Let_def split: prod.split)
qed

lemma received_param:
  "round_trips E t v \<Longrightarrow> env_decode E t (p_Data (wireParam (stubParam E v))) = Inr v"
  by (auto simp: round_trips_def stubParam_def Let_def wireParam_def UnmarshalJson_def MarshalJson_def)

lemma same_shape:
  assumes "stub_of fn" "wf_handler h" "mt_Out (rh_handlerFunc h) = rf_Out fn" "\<not> rf_retCh fn"
  shows "rh_valOut h = rf_valOut fn" "rh_errOut h = rf_errOut fn" "\<not> chanResult h"
proof -
  show "rh_valOut h = rf_valOut fn" "rh_errOut h = rf_errOut fn"
    using assms by (auto simp: stub_of_iff wf_handler_def)
  show "\<not> chanResult h"
    using assms(1) by (rule stub_of_cases) (use assms(3,4) in \<open>auto simp: chanResult_def\<close>)
qed

text \<open>What the stub makes of the response to a call that returned \<open>out\<close>.\<close>

lemma finishCall_out:
  assumes "stub_of fn" "\<not> rf_retCh fn" "wf_handler h" "mt_Out (rh_handlerFunc h) = rf_Out fn"
    and "doCall n (rh_handlerFunc h) as = Inr out" "req_ID req = Some i"
    and "rf_valOut fn \<noteq> -1 \<longrightarrow> round_trips E (rf_Out fn ! 0) (out ! 0)"
  shows "\<exists>fr. encoded E \<lparr>resp_Jsonrpc = ''2.0'', resp_Result = resultOf h out, resp_ID = i,
        resp_Error = errorOf h out\<rparr> = FrameMsg fr \<and> fr_Method fr = '''' \<and> fr_ID fr = Some i \<and>
      finishCall E fn req (Inr (clientResponse_of fr)) ch = Inr out"
proof -
  note shape = same_shape [OF assms(1,3,4,2)]
  from assms(5) have call: "mt_Call (rh_handlerFunc h) as = Inr out"
    by (auto simp: doCall_def split: sum.splits if_splits)
  with assms(3,4) have len: "length out = length (rf_Out fn)"
    and err: "\<And>k. k < length out \<Longrightarrow> rf_Out fn ! k = ErrorT \<Longrightarrow> out ! k = GNil \<or> (\<exists>e. out ! k = GError e)"
    unfolding wf_handler_def wf_method_def by metis+
  from assms(1) show ?thesis
  proof (rule stub_of_cases)
    assume "rf_Out fn = []" "rf_valOut fn = -1" "rf_errOut fn = -1" "rf_nout fn = 0"
    then show ?thesis
      using len shape assms(2,6) by (simp add: encoded_def frame_of_response_def resultOf_def errorOf_def
          clientResponse_of_def finishCall_def result_defs)
  next
    assume "rf_Out fn = [ErrorT]" "rf_valOut fn = -1" "rf_errOut fn = 0" "rf_nout fn = 1"
    moreover from this len err [of 0] obtain e where "out = [e]" "e = GNil \<or> (\<exists>m. e = GError m)"
      by (cases out) auto
    ultimately show ?thesis
      using shape assms(2,6) by (auto simp: encoded_def frame_of_response_def resultOf_def errorOf_def
          clientResponse_of_def finishCall_def result_defs zeroOf_def respError_Error_def)
  next
    fix t assume "rf_Out fn = [t]" "t \<noteq> ErrorT" "rf_valOut fn = 0" "rf_errOut fn = -1" "rf_nout fn = 1"
    moreover from this len obtain v where "out = [v]" by (cases out) auto
    ultimately show ?thesis
      using shape assms(2,6,7) by (auto simp: encoded_def frame_of_response_def resultOf_def errorOf_def
          clientResponse_of_def finishCall_def result_defs round_trips_def)
  next
    fix t assume t: "rf_Out fn = [t, ErrorT]" "rf_valOut fn = 0" "rf_errOut fn = 1" "rf_nout fn = 2"
    moreover from this len obtain v e where out: "out = [v, e]" by (cases out; cases "tl out") auto
    moreover from out t err [of 1] have "e = GNil \<or> (\<exists>m. e = GError m)" by simp
    ultimately show ?thesis
      using shape assms(2,6,7) by (auto simp: encoded_def frame_of_response_def resultOf_def errorOf_def
          clientResponse_of_def finishCall_def result_defs round_trips_def zeroOf_def respError_Error_def)
  qed
qed

text \<open>The handler of a received request: it invokes the method and responds with what the caller will decode.\<close>

lemma handle_received:
  assumes "stub_of fn" "\<not> rf_retCh fn" "wf_handlers hs" "hs (req_Method req) = Some h"
    and "mt_Out (rh_handlerFunc h) = rf_Out fn" "req_ID req = Some i"
    and "req_Params req = map (stubParam E) vs" "length vs = length (rh_paramReceivers h)"
    and "\<forall>k<length vs. round_trips E (rh_paramReceivers h ! k) (vs ! k)"
    and "\<forall>ctx. doCall (req_Method req) (rh_handlerFunc h)
           (rh_receiver h # (if rh_hasCtx h = 1 then [GCtx ctx] else []) @ vs) = Inr out"
    and "rf_valOut fn \<noteq> -1 \<longrightarrow> round_trips E (rf_Out fn ! 0) (out ! 0)"
  shows "\<exists>args resp fr. handle E hs ctx (received req) True = ([Invoke args, Respond resp, Done False], None) \<and>
    (\<forall>k. resp_Result resp \<noteq> GChan k) \<and> encoded E resp = FrameMsg fr \<and> fr_Method fr = '''' \<and> fr_ID fr = Some i \<and>
    finishCall E fn req (Inr (clientResponse_of fr)) ch = Inr out"
proof -
  let ?req = "received req"
  let ?resp = "\<lparr>resp_Jsonrpc = ''2.0'', resp_Result = resultOf h out, resp_ID = i, resp_Error = errorOf h out\<rparr>"
  have wf: "wf_handler h" using assms(3,4) by (rule wf_handlersD)
  have call: "doCall (req_Method ?req) (rh_handlerFunc h) (callArgs E ctx h ?req vs) = Inr out"
    using assms(10) by (simp add: received_sel callArgs_def)
  have dec: "\<forall>k<length (rh_paramReceivers h).
      env_decode E (rh_paramReceivers h ! k) (p_Data (req_Params ?req ! k)) = Inr (vs ! k)"
    using assms(7-9) by (simp add: received_sel received_param)
  have "\<not> chanResult h" using same_shape(3) [OF assms(1) wf assms(5,2)] .
  then have run: "handle E hs ctx ?req True = ([Invoke (callArgs E ctx h ?req vs), Respond ?resp, Done False], None)"
    using handle_success [OF assms(3) _ _ dec assms(8) _ call, of True] assms(4,6-8)
    by (simp add: received_sel)
  from finishCall_out [OF assms(1,2) wf assms(5) call assms(6,11), of ch] obtain fr where
    fr: "encoded E ?resp = FrameMsg fr" "fr_Method fr = ''''" "fr_ID fr = Some i"
      "finishCall E fn req (Inr (clientResponse_of fr)) ch = Inr out" by blast
  have "\<forall>k. resp_Result ?resp \<noteq> GChan k"
    using fr(1) by (auto simp: encoded_def frame_of_response_def marshal_def split: option.splits)
  with run fr show ?thesis by blast
qed

lemma runHandler_writes:
  assumes "handle E hs ctx req True = ([Invoke args, Respond resp, Done False], None)"
    and "\<forall>k. resp_Result resp \<noteq> GChan k" "encoded E resp = FrameMsg fr" "req_ID req = Some i"
  shows "\<exists>c'. runHandler E hs True False (ctx, req) c = Next c' \<and> ws_sent c' = ws_sent c @ [FrameMsg fr]"
proof -
  have "wsAct E True False (ctx, req) (Respond resp) c = Next (nextWriter True (FrameMsg fr) c)"
    using assms(2,3) by (auto simp: wsAct_def split: goval.split)
  with assms show ?thesis by (simp add: runHandler_def wsAct_def nextWriter_def)
qed

text \<open>The serving side's handler goroutine on a received request.\<close>

lemma runHandler_received:
  assumes "stub_of fn" "\<not> rf_retCh fn" "wf_handlers hs" "hs (req_Method req) = Some h"
    and "mt_Out (rh_handlerFunc h) = rf_Out fn" "req_ID req = Some i"
    and "req_Params req = map (stubParam E) vs" "length vs = length (rh_paramReceivers h)"
    and "\<forall>k<length vs. round_trips E (rh_paramReceivers h ! k) (vs ! k)"
    and "\<forall>ctx. doCall (req_Method req) (rh_handlerFunc h)
           (rh_receiver h # (if rh_hasCtx h = 1 then [GCtx ctx] else []) @ vs) = Inr out"
    and "rf_valOut fn \<noteq> -1 \<longrightarrow> round_trips E (rf_Out fn ! 0) (out ! 0)"
  shows "\<exists>c' fr. runHandler E hs True False (ctx, received req) c = Next c' \<and>
    ws_sent c' = ws_sent c @ [FrameMsg fr] \<and> fr_Method fr = '''' \<and> fr_ID fr = Some i \<and>
    finishCall E fn req (Inr (clientResponse_of fr)) ch = Inr out"
proof -
  from handle_received [OF assms, of ctx ch] obtain args resp fr where
    run: "handle E hs ctx (received req) True = ([Invoke args, Respond resp, Done False], None)"
      "\<forall>k. resp_Result resp \<noteq> GChan k" "encoded E resp = FrameMsg fr" and fr: "fr_Method fr = ''''" "fr_ID fr = Some i"
      "finishCall E fn req (Inr (clientResponse_of fr)) ch = Inr out" by blast
  have "req_ID (received req) = Some i" using assms(6) by (simp add: received_sel)
  from runHandler_writes [OF run this, of c] fr show ?thesis by blast
qed

text \<open>
  C3: a remote call from end to end. A stub and a registered method of the same signature are
  joined by two open connections; the arguments and the result survive their encoding. Then the
  stub's request is accepted and written by the client's connection, the server's connection starts
  a handler for the frame it becomes, the handler invokes the method on exactly the caller's
  arguments and writes one response, the client's connection sends it on the channel the stub
  waits on, and the stub returns the results of the method, its error included.
\<close>

theorem rpc_roundtrip:
  assumes "stub_of fn" "\<not> rf_retCh fn" "wf_handlers hs" "hs (ns @ ''.'' @ rf_name fn) = Some h"
    and "ns @ ''.'' @ rf_name fn \<notin> {wsCancel, chValue, chClose}"
    and "mt_Out (rh_handlerFunc h) = rf_Out fn"
    and "args = (if rf_hasCtx fn = 1 then [GCtx x] else []) @ vs"
    and "length vs = length (rh_paramReceivers h)"
    and "\<forall>k<length vs. round_trips E (rh_paramReceivers h ! k) (vs ! k)"
    and "\<forall>ctx. doCall (ns @ ''.'' @ rf_name fn) (rh_handlerFunc h)
           (rh_receiver h # (if rh_hasCtx h = 1 then [GCtx ctx] else []) @ vs) = Inr out"
    and "rf_valOut fn \<noteq> -1 \<longrightarrow> round_trips E (rf_Out fn ! 0) (out ! 0)"
  shows "\<exists>req ctx cl1 fr1 sv1 sv2 fr2 cl2 resp.
    stubRequest E ns fn i args = Inr (req, ctx) \<and>
    wsLoop (Request \<lparr>cq_req = req, cq_ready = Some r, cq_retCh = None\<rparr> True) cl = Next cl1 \<and>
    ws_sent cl1 = ws_sent cl @ [FrameMsg fr1] \<and>
    handleFrame fr1 sv = Next sv1 \<and>
    runHandler E hs True False (last (ws_spawned sv1)) sv1 = Next sv2 \<and>
    ws_sent sv2 = ws_sent sv @ [FrameMsg fr2] \<and>
    handleFrame fr2 cl1 = Next cl2 \<and> ws_ready cl2 = ws_ready cl @ [(r, resp)] \<and>
    finishCall E fn req (Inr resp) ch = Inr out"
proof -
  from stubRequest_ok [OF assms(1,7)] obtain req ctx where req: "stubRequest E ns fn i args = Inr (req, ctx)"
    "req_ID req = Some i" "req_Method req = ns @ ''.'' @ rf_name fn" "req_Params req = map (stubParam E) vs"
    by blast
  define q :: "'a clientRequest" where "q = \<lparr>cq_req = req, cq_ready = Some r, cq_retCh = None\<rparr>"
  define cl1 where "cl1 = cl\<lparr>ws_inflight := (ws_inflight cl)(i \<mapsto> q),
    ws_sent := ws_sent cl @ [FrameMsg (frame_of_request req)]\<rparr>"
  have cl1: "wsLoop (Request q True) cl = Next cl1"
    using req(2) by (simp add: wsLoop_def q_def sendRequest_def cl1_def)
  define sv1 where "sv1 = sv\<lparr>ws_nextCtx := Suc (ws_nextCtx sv), ws_handling := (ws_handling sv)(i \<mapsto> ws_nextCtx sv),
    ws_spawned := ws_spawned sv @ [(ws_nextCtx sv, received req)]\<rparr>"
  have sv1: "handleFrame (frame_of_request req) sv = Next sv1"
    using req(2,3) assms(5)
    by (simp add: handleFrame_def handleCall_def frame_of_request_def Let_def sv1_def received_def)
  from runHandler_received [OF assms(1-3) _ assms(6) req(2,4) assms(8,9) _ assms(11),
      of "ws_nextCtx sv" sv1 ch] assms(4,10)
  obtain sv2 fr2 where sv2: "runHandler E hs True False (ws_nextCtx sv, received req) sv1 = Next sv2"
    "ws_sent sv2 = ws_sent sv1 @ [FrameMsg fr2]" "fr_Method fr2 = ''''" "fr_ID fr2 = Some i"
    "finishCall E fn req (Inr (clientResponse_of fr2)) ch = Inr out" by (auto simp: req(3))
  define cl2 where "cl2 = cl1\<lparr>ws_ready := ws_ready cl1 @ [(r, clientResponse_of fr2)],
      ws_inflight := (ws_inflight cl1)(i := None)\<rparr>"
  have cl2: "handleFrame fr2 cl1 = Next cl2"
    using sv2(3,4) by (simp add: handleFrame_def handleResponse_def cl1_def q_def deliver_def cl2_def)
  have "ws_sent cl1 = ws_sent cl @ [FrameMsg (frame_of_request req)]"
    "ws_ready cl2 = ws_ready cl @ [(r, clientResponse_of fr2)]" by (simp_all add: cl1_def cl2_def)
  moreover have "runHandler E hs True False (last (ws_spawned sv1)) sv1 = Next sv2"
    "ws_sent sv2 = ws_sent sv @ [FrameMsg fr2]"
    using sv2(1,2) by (simp_all add: sv1_def)
  ultimately show ?thesis using req(1) cl1 sv1 sv2(5) cl2 unfolding q_def by blast
qed

lemma demo_Add_handler:
  "rh_paramReceivers (handlerOf (GVal 0) demo_Add 0 1) = [NamedT ''int'', NamedT ''int'']"
  "rh_hasCtx (handlerOf (GVal 0) demo_Add 0 1) = 1"
  by (simp_all add: handlerOf_def Let_def demo_defs upt_rec)

lemma demo_Add_call: "a + b \<ge> 0 \<Longrightarrow> doCall m demo_Add [GVal 0, GCtx ctx, GVal a, GVal b] = Inr [GVal (a + b), GNil]"
  by (simp add: doCall_def demo_defs)

lemma demo_round_trips: "round_trips demo_env t (GVal n)"
  by (simp add: round_trips_def marshal_def demo_env_def)

theorem rpc_roundtrip_witness:
  "\<exists>req ctx cl1 fr1 sv1 sv2 fr2 cl2 resp.
    stubRequest demo_env ''S'' demo_stub 1 [GCtx 9, GVal 2, GVal 3] = Inr (req, ctx) \<and>
    wsLoop (Request \<lparr>cq_req = req, cq_ready = Some 4, cq_retCh = None\<rparr> True) ws_init = Next cl1 \<and>
    ws_sent cl1 = ws_sent ws_init @ [FrameMsg fr1] \<and>
    handleFrame fr1 ws_init = Next sv1 \<and>
    runHandler demo_env demo_handlers True False (last (ws_spawned sv1)) sv1 = Next sv2 \<and>
    ws_sent sv2 = ws_sent ws_init @ [FrameMsg fr2] \<and>
    handleFrame fr2 cl1 = Next cl2 \<and> ws_ready cl2 = ws_ready (ws_init :: int wsConn) @ [(4, resp)] \<and>
    finishCall demo_env demo_stub req (Inr resp) GNil = Inr [GVal 5, GNil]"
proof -
  let ?h = "handlerOf (GVal 0) demo_Add 0 1"
  show ?thesis
  proof (rule rpc_roundtrip [OF demo_stub_of _ demo_wf, where h = ?h and x = 9 and vs = "[GVal 2, GVal 3]"])
    show "\<forall>ctx. doCall (''S'' @ ''.'' @ rf_name demo_stub) (rh_handlerFunc ?h)
        (rh_receiver ?h # (if rh_hasCtx ?h = 1 then [GCtx ctx] else []) @ [GVal 2, GVal 3]) = Inr [GVal 5, GNil]"
      by (simp add: demo_Add_handler demo_Add_call)
  qed (use demo_Add_handler demo_round_trips in \<open>simp_all add: demo_stub_def demo_handlers_def demo_defs wsCancel_def chValue_def
        chClose_def nth_Cons'\<close>)
qed

text \<open>
  C6: concurrent remote calls. Many calls are handled on one connection at once, their goroutines
  interleaved in any way with each other, with the forwarding goroutine and with arriving frames. If
  handler \<open>n\<close> serves the request of a stub whose signature its method has, and the
  arguments and results survive their encoding, then in every reachable state in which it has
  ended it has written exactly one frame, and from that frame the stub returns exactly the results
  its method gave on the stub's arguments.
\<close>

theorem concurrent_rpc_roundtrip:
  assumes "stub_of fn" "\<not> rf_retCh fn" "wf_handlers hs" "hs (ns @ ''.'' @ rf_name fn) = Some h"
    and "mt_Out (rh_handlerFunc h) = rf_Out fn"
    and "args = (if rf_hasCtx fn = 1 then [GCtx x] else []) @ vs"
    and "length vs = length (rh_paramReceivers h)"
    and "\<forall>k<length vs. round_trips E (rh_paramReceivers h ! k) (vs ! k)"
    and "\<forall>ctx. doCall (ns @ ''.'' @ rf_name fn) (rh_handlerFunc h)
           (rh_receiver h # (if rh_hasCtx h = 1 then [GCtx ctx] else []) @ vs) = Inr out"
    and "rf_valOut fn \<noteq> -1 \<longrightarrow> round_trips E (rf_Out fn ! 0) (out ! 0)"
    and "stubRequest E ns fn i args = Inr (req, ctx)"
    and "sys_reachable E hs False s" "n < length (sy_threads s)" "th_acts (sy_threads s ! n) = []"
    and "snd (th_call (sy_threads s ! n)) = received req"
  shows "\<exists>fr. msgs_of n s = [FrameMsg fr] \<and> fr_ID fr = Some i \<and>
    finishCall E fn req (Inr (clientResponse_of fr)) ch = Inr out"
proof -
  from stubRequest_ok [OF assms(1,6), of E ns i] assms(11) have req: "req_ID req = Some i"
    "req_Method req = ns @ ''.'' @ rf_name fn" "req_Params req = map (stubParam E) vs" by auto
  define h' where "h' = sy_threads s ! n"
  from inv_thread [OF sys_reachable_inv [OF assms(3,12)] assms(13)] obtain bs a k where
    sh: "thread_shape E hs h' bs a k" "thread_at E False s n h' bs a k" unfolding h'_def .
  from handle_received [OF assms(1-3) _ assms(5) req(1,3) assms(7,8) _ assms(10), of "fst (th_call h')" ch]
    assms(4,9) obtain as resp fr where
    run: "handle E hs (fst (th_call h')) (received req) True = ([Invoke as, Respond resp, Done False], None)"
      "\<forall>k. resp_Result resp \<noteq> GChan k" and fr: "encoded E resp = FrameMsg fr" "fr_ID fr = Some i"
      "finishCall E fn req (Inr (clientResponse_of fr)) ch = Inr out" by (auto simp: req(2))
  from sh(1) run(1) assms(15) have a: "a = Respond resp" by (auto simp: thread_shape_def h'_def)
  then have "chanOf a = None" using run(2) by (simp add: chanOf_def split: goval.split)
  moreover have "answered E False s n (received req) a"
    using sh(2) assms(14,15) by (auto simp: thread_at_def h'_def split: phase.splits)
  ultimately have "msgs_of n s = [encoded E resp]"
    by (auto simp: answered_def resolved_def replyMsg_def a)
  with fr show ?thesis by auto
qed

text \<open>Two calls of one connection whose goroutines take turns.\<close>

definition demo_twoCalls :: "int sysAct list" where
  "demo_twoCalls = [LoopEvent (Incoming (Some (frame_of_request (demo_stubReq 1 3)))), HandlerAct 0 True,
     LoopEvent (Incoming (Some (frame_of_request (demo_stubReq 2 5)))), HandlerAct 1 True, HandlerAct 1 True,
     HandlerAct 1 True, HandlerAct 0 True, HandlerAct 0 True, HandlerAct 1 True, HandlerAct 0 True]"

lemma demo_twoCalls_run:
  "map_option (\<lambda>s. map (\<lambda>h. (snd (th_call h), length (th_acts h))) (sy_threads s))
     (sysRun demo_env demo_handlers demo_twoCalls sys_init) =
   Some [(received (demo_stubReq 1 3), 0), (received (demo_stubReq 2 5), 0)]"
  by code_simp

lemma demo_stubReq_ok: "stubRequest demo_env ''S'' demo_stub 1 [GCtx 9, GVal 2, GVal 3] = Inr (demo_stubReq 1 3, Some 10)"
  by code_simp

theorem concurrent_rpc_roundtrip_witness:
  "\<exists>s fr. sys_reachable demo_env demo_handlers False s \<and> length (sy_threads s) = 2 \<and> msgs_of 0 s = [FrameMsg fr] \<and>
     finishCall demo_env demo_stub (demo_stubReq 1 3) (Inr (clientResponse_of fr)) GNil = Inr [GVal 5, GNil]"
proof -
  let ?h = "handlerOf (GVal 0) demo_Add 0 1"
  from demo_twoCalls_run obtain s where s: "sysRun demo_env demo_handlers demo_twoCalls sys_init = Some s"
    "map (\<lambda>h. (snd (th_call h), length (th_acts h))) (sy_threads s) =
       [(received (demo_stubReq 1 3), 0), (received (demo_stubReq 2 5), 0)]" by auto
  have r: "sys_reachable demo_env demo_handlers False s"
    by (rule sysRun_reachable [OF s(1) sys_reachable_init]) (auto simp: demo_twoCalls_def)
  from s(2) have th: "length (sy_threads s) = 2" "th_acts (sy_threads s ! 0) = []"
    "snd (th_call (sy_threads s ! 0)) = received (demo_stubReq 1 3)" by auto
  have "\<exists>fr. msgs_of 0 s = [FrameMsg fr] \<and> fr_ID fr = Some 1 \<and>
      finishCall demo_env demo_stub (demo_stubReq 1 3) (Inr (clientResponse_of fr)) GNil = Inr [GVal 5, GNil]"
  proof (rule concurrent_rpc_roundtrip [OF demo_stub_of _ demo_wf, where h = ?h and x = 9 and vs = "[GVal 2, GVal 3]"])
    show "\<forall>ctx. doCall (''S'' @ ''.'' @ rf_name demo_stub) (rh_handlerFunc ?h)
        (rh_receiver ?h # (if rh_hasCtx ?h = 1 then [GCtx ctx] else []) @ [GVal 2, GVal 3]) = Inr [GVal 5, GNil]"
      by (simp add: demo_Add_handler demo_Add_call)
  qed (use demo_Add_handler demo_round_trips r th demo_stubReq_ok in \<open>simp_all add: demo_stub_def demo_handlers_def demo_defs nth_Cons'\<close>)
  with r th(1) show ?thesis by blast
qed

text \<open>
  What a stub makes of the error of a closed connection: it returns it when the response carries the
  id of its call and it has an error result; otherwise it returns zero values, its error nil.
\<close>

definition closedResults :: "('v, 'sc) env \<Rightarrow> rpcFunc \<Rightarrow> bool \<Rightarrow> 'v goval list" where
  "closedResults E fn mine =
     (if mine \<and> rf_errOut fn \<noteq> -1
      then (zeroResults E fn)[nat (rf_errOut fn) :=
        GError (respError_Error \<lparr>re_Code = 0, re_Message = ''handler: websocket connection closed''\<rparr>)]
      else zeroResults E fn)"

lemma finishCall_closed:
  assumes "stub_of fn" "\<not> rf_retCh fn" "req_ID req = Some i"
  shows "finishCall E fn req (Inr (closedResponse k)) ch = Inr (closedResults E fn (k = i))"
  using assms(1)
  by (rule stub_of_cases)
    (use assms(2,3) in \<open>auto simp: closedResults_def closedResponse_def finishCall_def result_defs zeroResults_def
      zeroOf_def\<close>)

text \<open>
  C4: remote calls over a shared connection, both ends included. A client has any number of calls in
  flight and cancels some; messages travel, the handlers of the serving side run and the connection
  may break, in any interleaving. If a value is on the channel of a call whose stub and method have
  the same signature, and the arguments and results survive their encoding, then the stub returns
  exactly the results of its method on its own arguments, unless the connection has closed and the
  value is the error response for that. All these responses point to one loop variable: the stub
  returns the error if the variable holds its own id when it is read and it has an error result, and
  otherwise zero values with a nil error, as if the call had succeeded.
\<close>

theorem stub_calls_return:
  assumes "stub_of fn" "\<not> rf_retCh fn" "wf_handlers hs" "hs (ns @ ''.'' @ rf_name fn) = Some h"
    and "mt_Out (rh_handlerFunc h) = rf_Out fn"
    and "args = (if rf_hasCtx fn = 1 then [GCtx x] else []) @ vs"
    and "length vs = length (rh_paramReceivers h)"
    and "\<forall>k<length vs. round_trips E (rh_paramReceivers h ! k) (vs ! k)"
    and "\<forall>ctx. doCall (ns @ ''.'' @ rf_name fn) (rh_handlerFunc h)
           (rh_receiver h # (if rh_hasCtx h = 1 then [GCtx ctx] else []) @ vs) = Inr out"
    and "rf_valOut fn \<noteq> -1 \<longrightarrow> round_trips E (rf_Out fn ! 0) (out ! 0)"
    and "stubRequest E ns fn i args = Inr (req, ctx)"
    and "rpc_reachable E hs faults s" "q \<in> set (rs_issued s)" "cq_req q = req" "cq_ready q = Some r"
    and "(r, resp) \<in> set (ws_ready (rs_client s))"
  shows "finishCall E fn req (Inr resp) ch = Inr out \<or>
    \<not> rs_open s \<and> (\<exists>k. resp = closedResponse k \<and> finishCall E fn req (Inr resp) ch = Inr (closedResults E fn (k = i)))"
proof (cases "reply_to E hs (sy_conn (rs_server s)) req resp")
  case True
  from stubRequest_ok [OF assms(1,6), of E ns i] assms(11) have req: "req_ID req = Some i"
    "req_Method req = ns @ ''.'' @ rf_name fn" "req_Params req = map (stubParam E) vs" by auto
  from True obtain ctx' bs a k b fr where rep:
    "handle E hs ctx' (received req) True = (bs @ [a, Done k], None)" "resolved (sy_conn (rs_server s)) a b"
    "replyMsg E (received req) b = FrameMsg fr" "resp = clientResponse_of fr" unfolding reply_to_def by blast
  from handle_received [OF assms(1-3) _ assms(5) req(1,3) assms(7,8) _ assms(10), of ctx' ch]
    assms(4,9) obtain as resp' fr' where
    run: "handle E hs ctx' (received req) True = ([Invoke as, Respond resp', Done False], None)"
      "\<forall>k. resp_Result resp' \<noteq> GChan k" and fr: "encoded E resp' = FrameMsg fr'"
      "finishCall E fn req (Inr (clientResponse_of fr')) ch = Inr out" by (auto simp: req(2))
  from run(1) rep(1) have a: "a = Respond resp'" by auto
  then have "chanOf a = None" using run(2) by (simp add: chanOf_def split: goval.split)
  with rep(2,3) a fr(1) have "fr = fr'" by (auto simp: resolved_def replyMsg_def)
  with rep(4) fr(2) show ?thesis by simp
next
  case False
  with ready_reply [OF assms(3,12,13,15,16)] assms(14) obtain k where k: "\<not> rs_open s" "resp = closedResponse k" by auto
  from stubRequest_ok [OF assms(1,6), of E ns i] assms(11) have "req_ID req = Some i" by auto
  with finishCall_closed [OF assms(1,2)] k show ?thesis by blast
qed

theorem stub_calls_return_witness:
  "\<exists>s. rpc_reachable demo_env demo_handlers False s \<and> rs_issued s = demo_issued \<and> rs_open s \<and>
     finishCall demo_env demo_stub (demo_stubReq 2 5) (Inr (demo_reply 2 7)) GNil = Inr [GVal 7, GNil]"
proof -
  let ?h = "handlerOf (GVal 0) demo_Add 0 1"
  have req: "stubRequest demo_env ''S'' demo_stub 2 [GCtx 9, GVal 2, GVal 5] = Inr (demo_stubReq 2 5, Some 10)"
    by code_simp
  from demo_rpc_run obtain s where s: "rpcRun demo_env demo_handlers demo_rpc rpc_init = Some s"
    "rs_issued s = demo_issued" "rs_open s" "ws_ready (rs_client s) = [(11, demo_reply 2 7)]" by auto
  note r = rpcRun_reachable [OF s(1) rpc_reachable_init, of False]
  have "finishCall demo_env demo_stub (demo_stubReq 2 5) (Inr (demo_reply 2 7)) GNil = Inr [GVal 7, GNil] \<or>
      \<not> rs_open s \<and> (\<exists>k. demo_reply 2 7 = closedResponse k \<and>
        finishCall demo_env demo_stub (demo_stubReq 2 5) (Inr (demo_reply 2 7)) GNil = Inr (closedResults demo_env demo_stub (k = 2)))"
  proof (rule stub_calls_return [OF demo_stub_of _ demo_wf, where h = ?h and x = 9 and vs = "[GVal 2, GVal 5]" and
        q = "demo_issued ! 1" and r = 11, OF _ _ _ _ _ _ _ _ req r])
    show "\<forall>ctx. doCall (''S'' @ ''.'' @ rf_name demo_stub) (rh_handlerFunc ?h)
        (rh_receiver ?h # (if rh_hasCtx ?h = 1 then [GCtx ctx] else []) @ [GVal 2, GVal 5]) = Inr [GVal 7, GNil]"
      by (simp add: demo_Add_handler demo_Add_call)
  qed (use demo_Add_handler demo_round_trips s in \<open>simp_all add: demo_stub_def demo_handlers_def demo_defs demo_issued_def nth_Cons'\<close>)
  with r s(2,3) show ?thesis by blast
qed

end
